(* ===== verification/Prelude.thy ===== *)
theory Prelude
  imports Main "HOL-Library.Word" "HOL-Library.Sublist" "HOL-Library.Monad_Syntax"
begin

section \<open>Results, bytes and UTF-8 text\<close>

text \<open>
  What the components share of the Rust language and of its standard library:
  \<^item> \<open>('a, 'e) result\<close> with \<open>Ok\<close> and \<open>Err\<close> is the sum type with the error on the left. A
    call that may panic returns an \<open>option\<close>, and \<open>None\<close> is the panic;
  \<^item> a byte is a \<open>char\<close> of HOL (an eight-bit value, \<open>of_char\<close> reads it as a number), so a
    \<open>&[u8]\<close>, an \<open>&OsStr\<close> and the bytes of a \<open>&str\<close> are all a \<open>string\<close> of HOL, byte offsets
    are list positions, and ASCII literals are written as in the code;
  \<^item> \<open>utf8_next\<close> is one step of the standard UTF-8 validation (with the length of the ill-formed
    sequence that \<open>Utf8Error::error_len\<close> reports), \<open>utf8_chars\<close> the whole of
    \<open>str::from_utf8\<close> together with \<open>str::chars\<close>, and \<open>is_char_boundary\<close>, \<open>str_slice_from\<close> and
    \<open>str_slice\<close> the checked indexing of a \<open>&str\<close>, which panics off a boundary.
  The lemmas give the facts every scanner of source text rests on: in valid text the boundaries
  are exactly the positions from which the rest is valid, a scalar step leads from a boundary to a
  boundary, and encoding and decoding are inverse.
\<close>

named_theorems utf8_facts \<open>facts on boundaries of valid text\<close>
named_theorems panic_free \<open>rules that evaluate a checked operation where its check holds\<close>

type_synonym ('a, 'e) result = "'e + 'a"

abbreviation Ok :: "'a \<Rightarrow> ('a, 'e) result" where
  "Ok \<equiv> Inr"

abbreviation Err :: "'e \<Rightarrow> ('a, 'e) result" where
  "Err \<equiv> Inl"

definition is_ok :: "('a, 'e) result \<Rightarrow> bool" where
  "is_ok r = (case r of Ok _ \<Rightarrow> True | Err _ \<Rightarrow> False)"

lemma is_ok_simps [simp]: "is_ok (Ok a)" "\<not> is_ok (Err e)"
  by (simp_all add: is_ok_def)

lemma is_okE: "is_ok r \<Longrightarrow> (\<And>a. r = Ok a \<Longrightarrow> P) \<Longrightarrow> P"
  by (cases r) auto

type_synonym byte = char

abbreviation u8 :: "byte \<Rightarrow> nat" where
  "u8 \<equiv> of_char"

lemma u8_less [simp]: "u8 c < 256"
  by (simp add: of_char_def)

lemma of_char_char_of_nat: "n < 256 \<Longrightarrow> u8 (char_of n) = n"
  by simp

subsection \<open>One step of UTF-8 validation\<close>

definition is_cont :: "nat \<Rightarrow> bool" where
  "is_cont b \<longleftrightarrow> 0x80 \<le> b \<and> b \<le> 0xBF"

definition utf8_char_width :: "nat \<Rightarrow> nat" where
  "utf8_char_width b =
     (if b < 0x80 then 1
      else if 0xC2 \<le> b \<and> b \<le> 0xDF then 2
      else if 0xE0 \<le> b \<and> b \<le> 0xEF then 3
      else if 0xF0 \<le> b \<and> b \<le> 0xF4 then 4
      else 0)"

definition second_ok :: "nat \<Rightarrow> nat \<Rightarrow> bool" where
  "second_ok b c =
     (if b = 0xE0 then 0xA0 \<le> c \<and> c \<le> 0xBF
      else if b = 0xED then 0x80 \<le> c \<and> c \<le> 0x9F
      else if b = 0xF0 then 0x90 \<le> c \<and> c \<le> 0xBF
      else if b = 0xF4 then 0x80 \<le> c \<and> c \<le> 0x8F
      else is_cont c)"

datatype utf8_step =
    Utf8_End
  | Utf8_Scalar nat nat
  | Utf8_Error "nat option"

fun utf8_next :: "nat list \<Rightarrow> utf8_step" where
  "utf8_next [] = Utf8_End"
| "utf8_next (b # bs) =
     (if utf8_char_width b = 1 then Utf8_Scalar b 1
      else if utf8_char_width b = 2 then
        (case bs of
           [] \<Rightarrow> Utf8_Error None
         | c # _ \<Rightarrow>
             if is_cont c then Utf8_Scalar ((b - 0xC0) * 64 + (c - 0x80)) 2
             else Utf8_Error (Some 1))
      else if utf8_char_width b = 3 then
        (case bs of
           [] \<Rightarrow> Utf8_Error None
         | c # cs \<Rightarrow>
             if \<not> second_ok b c then Utf8_Error (Some 1)
             else (case cs of
                 [] \<Rightarrow> Utf8_Error None
               | d # _ \<Rightarrow>
                   if is_cont d
                   then Utf8_Scalar ((b - 0xE0) * 4096 + (c - 0x80) * 64 + (d - 0x80)) 3
                   else Utf8_Error (Some 2)))
      else if utf8_char_width b = 4 then
        (case bs of
           [] \<Rightarrow> Utf8_Error None
         | c # cs \<Rightarrow>
             if \<not> second_ok b c then Utf8_Error (Some 1)
             else (case cs of
                 [] \<Rightarrow> Utf8_Error None
               | d # ds \<Rightarrow>
                   if \<not> is_cont d then Utf8_Error (Some 2)
                   else (case ds of
                       [] \<Rightarrow> Utf8_Error None
                     | e # _ \<Rightarrow>
                         if is_cont e
                         then Utf8_Scalar ((b - 0xF0) * 262144 + (c - 0x80) * 4096
                                + (d - 0x80) * 64 + (e - 0x80)) 4
                         else Utf8_Error (Some 3))))
      else Utf8_Error (Some 1))"

definition str_next :: "string \<Rightarrow> utf8_step" where
  "str_next s = utf8_next (map u8 s)"

lemma second_ok_cont: "second_ok b c \<Longrightarrow> is_cont c"
  by (auto simp: second_ok_def is_cont_def split: if_splits)

lemma leader_not_cont: "utf8_char_width b \<noteq> 0 \<Longrightarrow> \<not> is_cont b"
  by (auto simp: utf8_char_width_def is_cont_def split: if_splits)

lemma utf8_next_ScalarE:
  assumes "utf8_next bs = Utf8_Scalar cp w"
  obtains (one) b r where "bs = b # r" "utf8_char_width b = 1" "w = 1" "cp = b"
  | (two) b c r where "bs = b # c # r" "utf8_char_width b = 2" "is_cont c" "w = 2"
      "cp = (b - 0xC0) * 64 + (c - 0x80)"
  | (three) b c d r where "bs = b # c # d # r" "utf8_char_width b = 3" "second_ok b c" "is_cont d"
      "w = 3" "cp = (b - 0xE0) * 4096 + (c - 0x80) * 64 + (d - 0x80)"
  | (four) b c d e r where "bs = b # c # d # e # r" "utf8_char_width b = 4" "second_ok b c"
      "is_cont d" "is_cont e" "w = 4"
      "cp = (b - 0xF0) * 262144 + (c - 0x80) * 4096 + (d - 0x80) * 64 + (e - 0x80)"
proof -
  obtain b r where bs: "bs = b # r" using assms by (cases bs) auto
  consider "utf8_char_width b = 1" | "utf8_char_width b = 2" | "utf8_char_width b = 3"
    | "utf8_char_width b = 4"
    using assms bs by (auto split: if_splits)
  then show ?thesis
  proof cases
    case 1
    with assms bs show ?thesis by (intro one) auto
  next
    case 2
    with assms bs show ?thesis by (auto intro: two split: list.splits if_splits)
  next
    case 3
    with assms bs show ?thesis by (auto intro: three split: list.splits if_splits)
  next
    case 4
    with assms bs show ?thesis by (auto intro: four split: list.splits if_splits)
  qed
qed

lemma utf8_next_ScalarD:
  assumes "utf8_next bs = Utf8_Scalar cp w"
  shows "bs \<noteq> []" "1 \<le> w" "w \<le> 4" "w \<le> length bs" "\<not> is_cont (hd bs)"
    and "w = utf8_char_width (hd bs)" "\<And>i. 0 < i \<Longrightarrow> i < w \<Longrightarrow> is_cont (bs ! i)"
proof -
  show "bs \<noteq> []" and w1: "1 \<le> w" and "w \<le> 4" "w \<le> length bs" and
    w: "w = utf8_char_width (hd bs)"
    using assms by (auto elim!: utf8_next_ScalarE)
  with w1 show "\<not> is_cont (hd bs)" by (metis leader_not_cont not_one_le_zero)
  fix i :: nat
  assume "0 < i" "i < w"
  with \<open>w \<le> 4\<close> have "i = 1 \<or> i = 2 \<and> 2 < w \<or> i = 3 \<and> 3 < w" by linarith
  with assms \<open>i < w\<close> show "is_cont (bs ! i)"
    by (elim utf8_next_ScalarE) (auto dest: second_ok_cont)
qed

lemma str_next_ScalarD:
  assumes "str_next s = Utf8_Scalar cp w"
  shows "s \<noteq> []" "1 \<le> w" "w \<le> 4" "w \<le> length s" "\<not> is_cont (u8 (hd s))"
    and "w = utf8_char_width (u8 (hd s))" "\<And>i. 0 < i \<Longrightarrow> i < w \<Longrightarrow> is_cont (u8 (s ! i))"
proof -
  from assms have n: "utf8_next (map u8 s) = Utf8_Scalar cp w" by (simp add: str_next_def)
  note facts = utf8_next_ScalarD [OF n]
  from facts(1) show s: "s \<noteq> []" by simp
  from facts s show "1 \<le> w" "w \<le> 4" "w \<le> length s" "\<not> is_cont (u8 (hd s))"
    and "w = utf8_char_width (u8 (hd s))"
    by (simp_all add: hd_map)
  show "\<And>i. 0 < i \<Longrightarrow> i < w \<Longrightarrow> is_cont (u8 (s ! i))"
    using facts(4,7) by (metis length_map nth_map order_less_le_trans)
qed

lemma str_next_Nil [simp]: "str_next [] = Utf8_End"
  by (simp add: str_next_def)

lemma str_next_End_iff [simp]: "str_next s = Utf8_End \<longleftrightarrow> s = []"
  by (cases s) (auto simp: str_next_def split: if_splits list.splits)

subsection \<open>Decoding a whole text\<close>

text \<open>
  \<open>Err (n, e)\<close> is the \<open>Utf8Error\<close> whose \<open>valid_up_to\<close> is \<open>n\<close> and whose \<open>error_len\<close> is \<open>e\<close>.
\<close>

function utf8_chars :: "string \<Rightarrow> (nat list, nat \<times> nat option) result" where
  "utf8_chars s =
     (case str_next s of
        Utf8_End \<Rightarrow> Ok []
      | Utf8_Error e \<Rightarrow> Err (0, e)
      | Utf8_Scalar cp w \<Rightarrow>
          (case utf8_chars (drop w s) of
             Ok cs \<Rightarrow> Ok (cp # cs)
           | Err (n, e) \<Rightarrow> Err (n + w, e)))"
  by pat_completeness auto
termination
proof (relation "measure length")
  fix s cp w
  assume "str_next s = Utf8_Scalar cp w"
  from str_next_ScalarD(1,2) [OF this] show "(drop w s, s) \<in> measure length" by simp
qed simp

declare utf8_chars.simps [simp del]

definition valid_utf8 :: "string \<Rightarrow> bool" where
  "valid_utf8 s = is_ok (utf8_chars s)"

definition chars :: "string \<Rightarrow> nat list" where
  "chars s = (case utf8_chars s of Ok cs \<Rightarrow> cs | Err _ \<Rightarrow> [])"

lemma utf8_chars_Nil [simp]: "utf8_chars [] = Ok []"
  by (simp add: utf8_chars.simps)

lemma valid_utf8_Nil [simp]: "valid_utf8 []"
  by (simp add: valid_utf8_def)

lemma chars_Nil [simp]: "chars [] = []"
  by (simp add: chars_def)

lemma valid_utf8_step:
  "str_next s = Utf8_Scalar cp w \<Longrightarrow> valid_utf8 s \<longleftrightarrow> valid_utf8 (drop w s)"
  by (simp add: valid_utf8_def utf8_chars.simps [of s] is_ok_def split: sum.splits prod.splits)

lemma valid_utf8_next:
  assumes "valid_utf8 s" "s \<noteq> []"
  obtains cp w where "str_next s = Utf8_Scalar cp w"
  using assms by (cases "str_next s") (auto simp: valid_utf8_def utf8_chars.simps [of s])

lemma chars_step:
  "str_next s = Utf8_Scalar cp w \<Longrightarrow> valid_utf8 s \<Longrightarrow> chars s = cp # chars (drop w s)"
  by (simp add: valid_utf8_def chars_def utf8_chars.simps [of s] is_ok_def
      split: sum.splits prod.splits)

lemma utf8_chars_Ok: "utf8_chars s = Ok cs \<longleftrightarrow> valid_utf8 s \<and> chars s = cs"
  by (auto simp: valid_utf8_def chars_def is_ok_def split: sum.splits)

lemma valid_utf8_induct [consumes 1, case_names Nil Scalar]:
  assumes "valid_utf8 s"
    and "P []"
    and "\<And>s cp w. str_next s = Utf8_Scalar cp w \<Longrightarrow> valid_utf8 (drop w s) \<Longrightarrow> P (drop w s) \<Longrightarrow> P s"
  shows "P s"
  using assms(1)
proof (induction "length s" arbitrary: s rule: less_induct)
  case less
  show ?case
  proof (cases "s = []")
    case True
    with assms(2) show ?thesis by simp
  next
    case False
    with less.prems obtain cp w where n: "str_next s = Utf8_Scalar cp w" by (rule valid_utf8_next)
    with less.prems have v: "valid_utf8 (drop w s)" by (simp add: valid_utf8_step)
    from str_next_ScalarD(1,2) [OF n] have "length (drop w s) < length s" by simp
    from less.hyps [OF this v] show ?thesis by (rule assms(3) [OF n v])
  qed
qed

subsection \<open>Character boundaries and checked slices\<close>

definition is_char_boundary :: "string \<Rightarrow> nat \<Rightarrow> bool" where
  "is_char_boundary s i \<longleftrightarrow>
     (if i = 0 then True
      else if length s \<le> i then i = length s
      else \<not> is_cont (u8 (s ! i)))"

definition str_slice_from :: "string \<Rightarrow> nat \<Rightarrow> string option" where
  "str_slice_from s i = (if is_char_boundary s i then Some (drop i s) else None)"

definition str_slice :: "string \<Rightarrow> nat \<Rightarrow> nat \<Rightarrow> string option" where
  "str_slice s i j =
     (if i \<le> j \<and> is_char_boundary s i \<and> is_char_boundary s j then Some (take (j - i) (drop i s))
      else None)"

lemma is_char_boundary_0 [simp]: "is_char_boundary s 0"
  by (simp add: is_char_boundary_def)

lemma is_char_boundary_length [simp]: "is_char_boundary s (length s)"
  by (simp add: is_char_boundary_def)

lemma is_char_boundary_le: "is_char_boundary s i \<Longrightarrow> i \<le> length s"
  by (auto simp: is_char_boundary_def split: if_splits)

lemma boundary_drop: "w \<le> i \<Longrightarrow> is_char_boundary s i \<Longrightarrow> is_char_boundary (drop w s) (i - w)"
  by (auto simp: is_char_boundary_def split: if_splits)

lemma str_next_take:
  "str_next s = Utf8_Scalar cp w \<Longrightarrow> w \<le> j \<Longrightarrow> str_next (take j s) = Utf8_Scalar cp w"
  unfolding str_next_def
  by (elim utf8_next_ScalarE) (auto simp: take_Cons' take_map [symmetric] str_next_def)

lemma scalar_boundary:
  assumes "str_next s = Utf8_Scalar cp w" "is_char_boundary s j"
  shows "j = 0 \<or> w \<le> j"
  using assms str_next_ScalarD(4,7) [OF assms(1)]
  by (fastforce simp: is_char_boundary_def split: if_splits)

lemma valid_drop_boundary:
  assumes "valid_utf8 s" "is_char_boundary s i"
  shows "valid_utf8 (drop i s)"
  using assms
proof (induction arbitrary: i rule: valid_utf8_induct)
  case Nil
  then show ?case by simp
next
  case (Scalar s cp w)
  show ?case
  proof (cases "w \<le> i")
    case True
    with Scalar.prems have "is_char_boundary (drop w s) (i - w)" by (rule boundary_drop [rotated -1])
    from Scalar.IH [OF this] True show ?thesis by simp
  next
    case False
    with scalar_boundary [OF Scalar.hyps(1) Scalar.prems] have "i = 0" by simp
    with Scalar.hyps show ?thesis by (simp add: valid_utf8_step)
  qed
qed

lemma boundary_of_valid_drop:
  assumes "valid_utf8 (drop i s)" "i \<le> length s"
  shows "is_char_boundary s i"
proof (cases "i = length s")
  case False
  with assms have ne: "drop i s \<noteq> []" by simp
  with assms(1) obtain cp w where "str_next (drop i s) = Utf8_Scalar cp w" by (rule valid_utf8_next)
  from str_next_ScalarD(5) [OF this] False assms(2) show ?thesis
    by (simp add: is_char_boundary_def hd_drop_conv_nth)
qed simp

lemma boundary_iff_valid:
  "valid_utf8 s \<Longrightarrow> is_char_boundary s i \<longleftrightarrow> i \<le> length s \<and> valid_utf8 (drop i s)"
  using valid_drop_boundary boundary_of_valid_drop is_char_boundary_le by blast

lemma boundary_step:
  assumes "valid_utf8 s" "is_char_boundary s i" "str_next (drop i s) = Utf8_Scalar cp w"
  shows "is_char_boundary s (i + w)"
proof -
  from assms(1,2) have "valid_utf8 (drop i s)" by (rule valid_drop_boundary)
  with assms(3) have "valid_utf8 (drop (i + w) s)" by (simp add: valid_utf8_step add.commute)
  moreover have "i + w \<le> length s"
    using str_next_ScalarD(1,4) [OF assms(3)] by auto
  ultimately show ?thesis by (rule boundary_of_valid_drop)
qed

lemma boundary_next_scalar:
  assumes "valid_utf8 s" "is_char_boundary s i" "i < length s"
  obtains cp w where "str_next (drop i s) = Utf8_Scalar cp w"
  using assms valid_drop_boundary valid_utf8_next by (metis drop_eq_Nil linorder_not_le)

lemma str_next_ascii: "u8 c < 0x80 \<Longrightarrow> str_next (c # s) = Utf8_Scalar (u8 c) 1"
  by (simp add: str_next_def utf8_char_width_def)

lemma boundary_ascii:
  assumes "valid_utf8 s" "is_char_boundary s i" "i < length s" "u8 (s ! i) < 0x80"
  shows "is_char_boundary s (Suc i)"
proof -
  have "str_next (drop i s) = Utf8_Scalar (u8 (s ! i)) 1"
    using assms(3,4) by (simp add: Cons_nth_drop_Suc [symmetric] str_next_ascii)
  from boundary_step [OF assms(1,2) this] show ?thesis by simp
qed

lemma ascii_is_boundary: "i < length s \<Longrightarrow> u8 (s ! i) < 0x80 \<Longrightarrow> is_char_boundary s i"
  by (simp add: is_char_boundary_def is_cont_def)

lemma slice_from_boundary [panic_free]: "is_char_boundary s i \<Longrightarrow> str_slice_from s i = Some (drop i s)"
  by (simp add: str_slice_from_def)

lemma slice_boundary [panic_free]:
  "i \<le> j \<Longrightarrow> is_char_boundary s i \<Longrightarrow> is_char_boundary s j \<Longrightarrow>
     str_slice s i j = Some (take (j - i) (drop i s))"
  by (simp add: str_slice_def)

lemma boundary_slice:
  assumes "i \<le> j" "is_char_boundary s i" "is_char_boundary s j" "k \<le> j - i"
  shows "is_char_boundary (take (j - i) (drop i s)) k \<longleftrightarrow> is_char_boundary s (i + k)"
proof -
  have j: "j \<le> length s" using assms(3) by (rule is_char_boundary_le)
  consider "k = 0" | "k = j - i" | "0 < k" "k < j - i" using assms(4) by linarith
  then show ?thesis
  proof cases
    case 3
    with j have "i + k < length s" by linarith
    with 3 j show ?thesis by (simp add: is_char_boundary_def)
  qed (use assms j in \<open>simp_all add: is_char_boundary_def\<close>)
qed

lemma valid_utf8_prefix:
  assumes "valid_utf8 s" "is_char_boundary s j"
  shows "valid_utf8 (take j s)"
  using assms
proof (induction arbitrary: j rule: valid_utf8_induct)
  case Nil
  then show ?case by simp
next
  case (Scalar s cp w)
  show ?case
  proof (cases "w \<le> j")
    case True
    from str_next_ScalarD [OF Scalar.hyps(1)] have w: "1 \<le> w" "w \<le> length s" by blast+
    from True Scalar.prems have "is_char_boundary (drop w s) (j - w)" by (rule boundary_drop)
    then have "valid_utf8 (drop w (take j s))" by (simp add: Scalar.IH drop_take)
    moreover have "str_next (take j s) = Utf8_Scalar cp w"
      using Scalar.hyps(1) True by (rule str_next_take)
    ultimately show ?thesis by (simp add: valid_utf8_step)
  next
    case False
    with scalar_boundary [OF Scalar.hyps(1) Scalar.prems] have "j = 0" by simp
    then show ?thesis by simp
  qed
qed

lemma str_next_append:
  assumes "str_next s = Utf8_Scalar cp w"
  shows "str_next (s @ t) = Utf8_Scalar cp w"
  using assms unfolding str_next_def
  by (elim utf8_next_ScalarE) (auto simp: map_eq_Cons_conv)

lemma utf8_append:
  assumes "valid_utf8 s" "valid_utf8 t"
  shows "valid_utf8 (s @ t) \<and> chars (s @ t) = chars s @ chars t"
  using assms
proof (induction rule: valid_utf8_induct)
  case Nil
  then show ?case by simp
next
  case (Scalar s cp w)
  from str_next_ScalarD(4) [OF Scalar.hyps(1)] have "drop w (s @ t) = drop w s @ t" by simp
  with Scalar have "valid_utf8 (drop w (s @ t))"
    and "chars (drop w (s @ t)) = chars (drop w s) @ chars t"
    by simp_all
  with str_next_append [OF Scalar.hyps(1), of t] Scalar.hyps show ?case
    by (simp add: valid_utf8_step chars_step)
qed

lemmas valid_utf8_append [intro] = utf8_append [THEN conjunct1]
lemmas chars_append = utf8_append [THEN conjunct2]

lemma chars_split:
  assumes "valid_utf8 s" "is_char_boundary s i"
  shows "chars s = chars (take i s) @ chars (drop i s)"
  using chars_append [OF valid_utf8_prefix valid_drop_boundary, OF assms assms]
  by simp

lemma valid_utf8_ascii: "\<forall>c \<in> set s. u8 c < 0x80 \<Longrightarrow> valid_utf8 s \<and> chars s = map u8 s"
proof (induction s)
  case (Cons c s)
  then have n: "str_next (c # s) = Utf8_Scalar (u8 c) 1" by (simp add: str_next_ascii)
  from Cons show ?case by (simp add: valid_utf8_step [OF n] chars_step [OF n])
qed simp

lemma valid_utf8_slice:
  assumes "valid_utf8 s" "i \<le> j" "is_char_boundary s i" "is_char_boundary s j"
  shows "valid_utf8 (take (j - i) (drop i s))"
  using valid_utf8_prefix [OF valid_drop_boundary [OF assms(1,3)] boundary_drop [OF assms(2,4)]] .

lemma chars_take_step:
  assumes "str_next s = Utf8_Scalar cp w" "valid_utf8 s" "is_char_boundary s k" "w \<le> k"
  shows "chars (take k s) = cp # chars (take (k - w) (drop w s))"
  using chars_step [OF str_next_take valid_utf8_prefix, OF assms(1,4) assms(2,3)]
  by (simp add: drop_take)

lemma utf8_next_Error:
  "utf8_next bs = Utf8_Error e \<Longrightarrow> bs \<noteq> [] \<and> (\<forall>k. e = Some k \<longrightarrow> 1 \<le> k)"
  by (cases bs) (auto split: if_splits list.splits)

lemma utf8_chars_Err:
  "utf8_chars s = Err (n, e) \<Longrightarrow>
     n < length s \<and> valid_utf8 (take n s) \<and> (\<forall>k. e = Some k \<longrightarrow> 1 \<le> k)"
proof (induction s arbitrary: n rule: utf8_chars.induct)
  case (1 s)
  show ?case
  proof (cases "str_next s")
    case Utf8_End
    with "1.prems" show ?thesis by (simp add: utf8_chars.simps [of s])
  next
    case (Utf8_Error f)
    with "1.prems" utf8_next_Error [of "map u8 s" f] show ?thesis
      by (simp add: utf8_chars.simps [of s] str_next_def)
  next
    case (Utf8_Scalar cp w)
    note w = str_next_ScalarD(1,2) [OF Utf8_Scalar]
    from "1.prems" Utf8_Scalar obtain m where m: "utf8_chars (drop w s) = Err (m, e)" "n = m + w"
      by (auto simp: utf8_chars.simps [of s] split: sum.splits)
    from "1.IH" [OF Utf8_Scalar m(1)]
    have i: "m < length (drop w s)" "valid_utf8 (take m (drop w s))" "\<forall>k. e = Some k \<longrightarrow> 1 \<le> k"
      by auto
    have "str_next (take n s) = Utf8_Scalar cp w"
      using str_next_take [OF Utf8_Scalar] m(2) by simp
    then have "valid_utf8 (take n s)"
      using valid_utf8_step i(2) m(2) by (simp add: drop_take)
    with i m(2) w show ?thesis by auto
  qed
qed

subsection \<open>Encoding a scalar\<close>

definition is_scalar :: "nat \<Rightarrow> bool" where
  "is_scalar cp \<longleftrightarrow> cp < 0xD800 \<or> 0xE000 \<le> cp \<and> cp \<le> 0x10FFFF"

definition len_utf8 :: "nat \<Rightarrow> nat" where
  "len_utf8 cp = (if cp < 0x80 then 1 else if cp < 0x800 then 2 else if cp < 0x10000 then 3 else 4)"

definition len_utf16 :: "nat \<Rightarrow> nat" where
  "len_utf16 cp = (if cp < 0x10000 then 1 else 2)"

definition encode_bytes :: "nat \<Rightarrow> nat list" where
  "encode_bytes cp =
     (if cp < 0x80 then [cp]
      else if cp < 0x800 then [0xC0 + cp div 64, 0x80 + cp mod 64]
      else if cp < 0x10000 then
        [0xE0 + cp div 4096, 0x80 + cp div 64 mod 64, 0x80 + cp mod 64]
      else
        [0xF0 + cp div 262144, 0x80 + cp div 4096 mod 64, 0x80 + cp div 64 mod 64,
         0x80 + cp mod 64])"

definition encode_utf8 :: "nat \<Rightarrow> string" where
  "encode_utf8 cp = map char_of (encode_bytes cp)"

lemma length_encode_utf8 [simp]: "length (encode_utf8 cp) = len_utf8 cp"
  by (simp add: encode_utf8_def encode_bytes_def len_utf8_def)

lemma encode_bytes_byte: "is_scalar cp \<Longrightarrow> b \<in> set (encode_bytes cp) \<Longrightarrow> b < 256"
  by (auto simp: encode_bytes_def is_scalar_def split: if_splits)

lemma map_u8_encode: "is_scalar cp \<Longrightarrow> map u8 (encode_utf8 cp) = encode_bytes cp"
  by (simp add: encode_utf8_def map_idI encode_bytes_byte)

lemma split_64:
  fixes n :: nat
  shows "n = n div 4096 * 4096 + n div 64 mod 64 * 64 + n mod 64"
    and "n = n div 262144 * 262144 + n div 4096 mod 64 * 4096 + n div 64 mod 64 * 64 + n mod 64"
proof -
  have q: "n = n div 64 * 64 + n mod 64" by simp
  have r: "n div 64 = n div 4096 * 64 + n div 64 mod 64"
    using div_mult_mod_eq [of "n div 64" 64] by (simp add: div_mult2_eq [symmetric])
  have t: "n div 4096 = n div 262144 * 64 + n div 4096 mod 64"
    using div_mult_mod_eq [of "n div 4096" 64] by (simp add: div_mult2_eq [symmetric])
  from q r show *: "n = n div 4096 * 4096 + n div 64 mod 64 * 64 + n mod 64" by linarith
  from * t show "n = n div 262144 * 262144 + n div 4096 mod 64 * 4096 + n div 64 mod 64 * 64
      + n mod 64" by linarith
qed

lemma utf8_next_encode3:
  assumes cp: "cp = x * 4096 + y * 64 + z" and b: "y < 64" "z < 64"
    and r: "0x800 \<le> cp" "cp < 0x10000" and s: "is_scalar cp"
  shows "utf8_next ((0xE0 + x) # (0x80 + y) # (0x80 + z) # r) = Utf8_Scalar cp 3"
proof -
  have x: "x < 16" using cp r by linarith
  have "x = 0 \<Longrightarrow> 32 \<le> y" using cp r b by linarith
  moreover have "x = 13 \<Longrightarrow> y < 32" using cp b s unfolding is_scalar_def by linarith
  ultimately have "second_ok (0xE0 + x) (0x80 + y)"
    using x b by (auto simp: second_ok_def is_cont_def)
  with x b cp show ?thesis by (simp add: utf8_char_width_def is_cont_def)
qed

lemma utf8_next_encode4:
  assumes cp: "cp = x * 262144 + v * 4096 + y * 64 + z" and b: "v < 64" "y < 64" "z < 64"
    and r: "0x10000 \<le> cp" "cp \<le> 0x10FFFF"
  shows "utf8_next ((0xF0 + x) # (0x80 + v) # (0x80 + y) # (0x80 + z) # r) = Utf8_Scalar cp 4"
proof -
  have x: "x < 5" using cp r by linarith
  have "x = 0 \<Longrightarrow> 16 \<le> v" using cp r b by linarith
  moreover have "x = 4 \<Longrightarrow> v < 16" using cp b r by linarith
  ultimately have "second_ok (0xF0 + x) (0x80 + v)"
    using x b by (auto simp: second_ok_def is_cont_def)
  with x b cp show ?thesis by (simp add: utf8_char_width_def is_cont_def)
qed

lemma utf8_next_encode:
  assumes "is_scalar cp"
  shows "utf8_next (encode_bytes cp @ r) = Utf8_Scalar cp (len_utf8 cp)"
proof -
  consider "cp < 0x80" | "0x80 \<le> cp" "cp < 0x800" | "0x800 \<le> cp" "cp < 0x10000"
    | "0x10000 \<le> cp" by linarith
  then show ?thesis
  proof cases
    case 1
    then show ?thesis by (simp add: encode_bytes_def len_utf8_def utf8_char_width_def)
  next
    case 2
    then have "2 \<le> cp div 64" "cp div 64 < 32" by linarith+
    with 2 show ?thesis
      by (simp add: encode_bytes_def len_utf8_def utf8_char_width_def is_cont_def
          less_imp_le_nat mult.commute)
  next
    case 3
    from utf8_next_encode3 [OF split_64(1) _ _ 3 assms] 3 show ?thesis
      by (simp add: encode_bytes_def len_utf8_def)
  next
    case 4
    with assms have "cp \<le> 0x10FFFF" by (simp add: is_scalar_def)
    from utf8_next_encode4 [OF split_64(2) _ _ _ 4 this] 4 show ?thesis
      by (simp add: encode_bytes_def len_utf8_def)
  qed
qed

lemma str_next_encode:
  "is_scalar cp \<Longrightarrow> str_next (encode_utf8 cp @ r) = Utf8_Scalar cp (len_utf8 cp)"
  by (simp add: str_next_def map_u8_encode utf8_next_encode)

lemma digit_64:
  fixes n k z :: nat
  assumes "n = k * 64 + z" "z < 64"
  shows "n div 64 = k" "n mod 64 = z"
  using assms by simp_all

lemma digits_64:
  fixes x y z :: nat
  assumes "y < 64" "z < 64"
  shows "(x * 4096 + y * 64 + z) div 4096 = x" "(x * 4096 + y * 64 + z) div 64 = x * 64 + y"
    and "(x * 4096 + y * 64 + z) mod 64 = z"
proof -
  have n: "x * 4096 + y * 64 + z = (x * 64 + y) * 64 + z" by simp
  from digit_64 [OF n assms(2)]
  show d: "(x * 4096 + y * 64 + z) div 64 = x * 64 + y" and "(x * 4096 + y * 64 + z) mod 64 = z" .
  have "(x * 4096 + y * 64 + z) div 4096 = (x * 4096 + y * 64 + z) div 64 div 64"
    by (simp add: div_mult2_eq [symmetric])
  with d digit_64(1) [OF refl assms(1)] show "(x * 4096 + y * 64 + z) div 4096 = x" by simp
qed

lemma digits_64_4:
  fixes x y z v :: nat
  assumes "y < 64" "z < 64" "v < 64"
  shows "(x * 262144 + v * 4096 + y * 64 + z) div 262144 = x"
    and "(x * 262144 + v * 4096 + y * 64 + z) div 4096 = x * 64 + v"
    and "(x * 262144 + v * 4096 + y * 64 + z) div 64 = x * 4096 + v * 64 + y"
    and "(x * 262144 + v * 4096 + y * 64 + z) mod 64 = z"
proof -
  let ?n = "x * 262144 + v * 4096 + y * 64 + z"
  have n: "?n = (x * 4096 + v * 64 + y) * 64 + z" by simp
  from digit_64 [OF n assms(2)] show d: "?n div 64 = x * 4096 + v * 64 + y" and "?n mod 64 = z" .
  have "?n div 4096 = ?n div 64 div 64" "?n div 262144 = ?n div 64 div 4096"
    by (simp_all add: div_mult2_eq [symmetric])
  with d digits_64 [OF assms(3,1)] show "?n div 4096 = x * 64 + v" "?n div 262144 = x" by simp_all
qed

text \<open>Decoding recovers a scalar value whose encoding is exactly the bytes that were read.\<close>

lemma utf8_next_decode:
  assumes "utf8_next bs = Utf8_Scalar cp w"
  shows "is_scalar cp \<and> w = len_utf8 cp \<and> take w bs = encode_bytes cp"
  using assms
proof (cases rule: utf8_next_ScalarE)
  case (one b r)
  have "b < 0x80" using one(2) by (simp add: utf8_char_width_def split: if_splits)
  with one(1,3,4) show ?thesis by (simp add: is_scalar_def len_utf8_def encode_bytes_def)
next
  case (two b c r)
  define x where "x = b - 0xC0"
  define z where "z = c - 0x80"
  from two have b: "b = 0xC0 + x" "2 \<le> x" "x < 32" and c: "c = 0x80 + z" "z < 64"
    by (auto simp: x_def z_def utf8_char_width_def is_cont_def split: if_splits)
  have "cp = x * 64 + z" using two by (simp add: x_def z_def)
  with b c two(1,4) show ?thesis
    by (simp add: is_scalar_def len_utf8_def encode_bytes_def)
next
  case (three b c d r)
  define x where "x = b - 0xE0"
  define y where "y = c - 0x80"
  define z where "z = d - 0x80"
  from three(2,4) second_ok_cont [OF three(3)]
  have b: "b = 0xE0 + x" "x < 16" and c: "c = 0x80 + y" "y < 64" and d: "d = 0x80 + z" "z < 64"
    by (auto simp: x_def y_def z_def utf8_char_width_def is_cont_def split: if_splits)
  have cp: "cp = x * 4096 + y * 64 + z" using three by (simp add: x_def y_def z_def)
  have "x = 0 \<Longrightarrow> 32 \<le> y" "x = 13 \<Longrightarrow> y < 32"
    using three(3) b c by (auto simp: second_ok_def split: if_splits)
  then have r: "0x800 \<le> cp" "cp < 0x10000" and "x = 13 \<Longrightarrow> cp < 0xD800"
    using b c d cp by linarith+
  moreover have "x < 13 \<Longrightarrow> cp < 0xD800" "13 < x \<Longrightarrow> 0xE000 \<le> cp" using c d cp by linarith+
  ultimately have "cp < 0xD800 \<or> 0xE000 \<le> cp" by (metis linorder_neqE_nat)
  with b c d cp r three(1,5) show ?thesis
    by (simp add: is_scalar_def len_utf8_def encode_bytes_def digits_64)
next
  case (four b c d e r)
  define x where "x = b - 0xF0"
  define v where "v = c - 0x80"
  define y where "y = d - 0x80"
  define z where "z = e - 0x80"
  from four(2,4,5) second_ok_cont [OF four(3)]
  have b: "b = 0xF0 + x" "x < 5" and c: "c = 0x80 + v" "v < 64" and d: "d = 0x80 + y" "y < 64"
    and e: "e = 0x80 + z" "z < 64"
    by (auto simp: x_def v_def y_def z_def utf8_char_width_def is_cont_def split: if_splits)
  have cp: "cp = x * 262144 + v * 4096 + y * 64 + z"
    using four by (simp add: x_def y_def z_def v_def)
  have "x = 0 \<Longrightarrow> 16 \<le> v" "x = 4 \<Longrightarrow> v < 16"
    using four(3) b c by (auto simp: second_ok_def split: if_splits)
  then have "0x10000 \<le> cp" "cp \<le> 0x10FFFF"
    using b c d e cp by linarith+
  with b c d e cp four(1,6) show ?thesis
    by (simp add: is_scalar_def len_utf8_def encode_bytes_def digits_64_4 digits_64)
qed

lemma str_next_decode:
  assumes "str_next s = Utf8_Scalar cp w"
  shows "is_scalar cp" "w = len_utf8 cp" "take w s = encode_utf8 cp"
proof -
  from assms have n: "utf8_next (map u8 s) = Utf8_Scalar cp w" by (simp add: str_next_def)
  from utf8_next_decode [OF n] show "is_scalar cp" "w = len_utf8 cp" by blast+
  from utf8_next_decode [OF n] have "take w (map u8 s) = encode_bytes cp" by blast
  then have "map char_of (take w (map u8 s)) = encode_utf8 cp"
    unfolding encode_utf8_def by (rule arg_cong)
  then show "take w s = encode_utf8 cp" by (simp add: take_map o_def)
qed

lemma valid_utf8_encode: "is_scalar cp \<Longrightarrow> valid_utf8 (encode_utf8 cp)"
  using str_next_encode [of cp "[]"] valid_utf8_step [of "encode_utf8 cp" cp "len_utf8 cp"]
  by simp

lemma chars_Cons_encode:
  assumes "is_scalar cp" "valid_utf8 s"
  shows "chars (encode_utf8 cp @ s) = cp # chars s"
proof -
  note n = str_next_encode [OF assms(1), of s]
  from assms have "valid_utf8 (encode_utf8 cp @ s)" by (intro valid_utf8_append valid_utf8_encode)
  from chars_step [OF n this] show ?thesis by simp
qed

lemma sum_len_utf8_chars: "valid_utf8 s \<Longrightarrow> sum_list (map len_utf8 (chars s)) = length s"
proof (induction rule: valid_utf8_induct)
  case (Scalar s cp w)
  with str_next_ScalarD(4) [OF Scalar.hyps(1)] str_next_decode(2) [OF Scalar.hyps(1)]
  show ?case by (simp add: chars_step valid_utf8_step)
qed simp

section \<open>Vectors and decimal numbers\<close>

text \<open>The largest \<open>usize\<close> of the 64-bit targets the runtime supports.\<close>

definition USIZE_MAX :: nat where
  "USIZE_MAX = 2 ^ 64 - 1"

text \<open>Indexing a vector with \<open>get\<close> (and with \<open>[]\<close>, which panics where \<open>get\<close> gives \<open>None\<close>).\<close>

definition get_opt :: "'a list \<Rightarrow> nat \<Rightarrow> 'a option" where
  "get_opt xs i = (if i < length xs then Some (xs ! i) else None)"

lemma get_opt_Some [simp]: "get_opt xs i = Some x \<longleftrightarrow> i < length xs \<and> xs ! i = x"
  by (auto simp: get_opt_def)

lemma get_opt_None [simp]: "get_opt xs i = None \<longleftrightarrow> length xs \<le> i"
  by (auto simp: get_opt_def)

lemma get_opt_nth [panic_free]: "i < length xs \<Longrightarrow> get_opt xs i = Some (xs ! i)"
  by simp

lemma Cons_eq_dropD:
  assumes "x # xs = drop i ys"
  shows "i < length ys" "ys ! i = x" "xs = drop (Suc i) ys"
proof -
  show i: "i < length ys" using assms by (metis drop_eq_Nil linorder_not_le list.distinct(1))
  then show "ys ! i = x" "xs = drop (Suc i) ys"
    using assms by (simp_all add: Cons_nth_drop_Suc [symmetric])
qed

text \<open>\<open>slice::partition_point\<close> on a str_slice whose elements with the property come first.\<close>

definition partition_point :: "('a \<Rightarrow> bool) \<Rightarrow> 'a list \<Rightarrow> nat" where
  "partition_point p xs = length (takeWhile p xs)"

text \<open>Decimal printing of an unsigned integer, as \<open>Display\<close> writes it.\<close>

fun show_nat :: "nat \<Rightarrow> string" where
  "show_nat n = (if n < 10 then [char_of (48 + n)] else show_nat (n div 10) @ [char_of (48 + n mod 10)])"

declare show_nat.simps [simp del]

subsection \<open>Components as machines\<close>

text \<open>
  A component with mutable state is a machine: an operation on a state returns a state, or panics
  (\<open>None\<close>). The contract of the locale is that an operation on a state with the invariant returns
  and keeps it; then no sequence of operations panics, and every state reached has the invariant.
\<close>

fun run_ops :: "('a \<Rightarrow> 's \<Rightarrow> 's option) \<Rightarrow> 'a list \<Rightarrow> 's \<Rightarrow> 's option" where
  "run_ops step [] s = Some s"
| "run_ops step (a # as) s = Option.bind (step a s) (run_ops step as)"

text \<open>
  An operation may have a precondition its callers promise. A sequence honours it when each operation's
  precondition holds in the state the operation is run in.
\<close>

fun honours :: "('a \<Rightarrow> 's \<Rightarrow> bool) \<Rightarrow> ('a \<Rightarrow> 's \<Rightarrow> 's option) \<Rightarrow> 'a list \<Rightarrow> 's \<Rightarrow> bool" where
  "honours pre step [] s \<longleftrightarrow> True"
| "honours pre step (a # as) s \<longleftrightarrow>
     pre a s \<and> (case step a s of None \<Rightarrow> True | Some s' \<Rightarrow> honours pre step as s')"

locale guarded_machine =
  fixes step :: "'a \<Rightarrow> 's \<Rightarrow> 's option"
    and inv :: "'s \<Rightarrow> bool"
    and pre :: "'a \<Rightarrow> 's \<Rightarrow> bool"
  assumes guarded_step: "inv s \<Longrightarrow> pre a s \<Longrightarrow> \<exists>s'. step a s = Some s' \<and> inv s'"
begin

lemma guarded_run: "inv s \<Longrightarrow> honours pre step as s \<Longrightarrow> \<exists>s'. run_ops step as s = Some s' \<and> inv s'"
proof (induction as arbitrary: s)
  case (Cons a as)
  from guarded_step [OF Cons.prems(1), of a] Cons.prems(2) obtain t where "step a s = Some t" "inv t" by auto
  with Cons show ?case by simp
qed simp

end

locale machine =
  fixes step :: "'a \<Rightarrow> 's \<Rightarrow> 's option"
    and inv :: "'s \<Rightarrow> bool"
  assumes step_inv: "inv s \<Longrightarrow> \<exists>s'. step a s = Some s' \<and> inv s'"
begin

lemma run_inv: "inv s \<Longrightarrow> \<exists>s'. run_ops step as s = Some s' \<and> inv s'"
proof (induction as arbitrary: s)
  case (Cons a as)
  from step_inv [OF Cons.prems, of a] obtain t where "step a s = Some t" "inv t" by blast
  with Cons.IH show ?case by simp
qed simp

end

sublocale machine \<subseteq> unguarded: guarded_machine step inv "\<lambda>_ _. True"
  by unfold_locales (rule step_inv)

text \<open>
  A machine with an order on its states that every operation respects: what is true of the order
  along one operation is true along any sequence of them.
\<close>

locale ordered_machine = machine +
  fixes before :: "'s \<Rightarrow> 's \<Rightarrow> bool"
  assumes before_refl: "inv s \<Longrightarrow> before s s"
    and before_trans: "before s t \<Longrightarrow> before t u \<Longrightarrow> before s u"
    and step_before: "inv s \<Longrightarrow> step a s = Some s' \<Longrightarrow> before s s'"
begin

lemma run_before: "inv s \<Longrightarrow> run_ops step as s = Some s' \<Longrightarrow> before s s'"
proof (induction as arbitrary: s)
  case Nil
  then show ?case by (simp add: before_refl)
next
  case (Cons a as)
  from step_inv [OF Cons.prems(1), of a] obtain t where t: "step a s = Some t" "inv t" by blast
  with Cons have "before t s'" by simp
  with step_before [OF Cons.prems(1) t(1)] show ?case by (rule before_trans)
qed

end

end
