(* ===== verification/Source.thy ===== *)
theory Source
  imports Prelude
begin

section \<open>Source files, spans and positions\<close>

text \<open>
  The model of \<^verbatim>\<open>crates/opaal-syntax/src/source.rs\<close>: the text of a source file, half-open byte
  spans in it, the index of its lines, and the conversions between byte offsets, one-based
  line/column locations and the zero-based UTF-8 and UTF-16 positions of the language server.
  The text is the byte string of a Rust \<open>String\<close>, so \<open>valid_utf8\<close> holds of it; sizes and offsets
  (\<open>usize\<close>) are natural numbers, none of which exceeds the length of the text by more than one.
  Slicing a \<open>&str\<close> and indexing a vector may panic: the operations that do so return an option,
  and the theorems show that they return.
\<close>

subsection \<open>Spans\<close>

type_synonym source_id = "32 word"

record span =
  span_source_id :: source_id
  span_start :: nat
  span_end :: nat

definition span_cover :: "span \<Rightarrow> span \<Rightarrow> span option" where
  "span_cover a b =
     (if span_source_id a = span_source_id b
      then Some \<lparr>span_source_id = span_source_id a,
                 span_start = min (span_start a) (span_start b),
                 span_end = max (span_end a) (span_end b)\<rparr>
      else None)"

definition span_len :: "span \<Rightarrow> nat" where
  "span_len s = span_end s - span_start s"

definition span_is_empty :: "span \<Rightarrow> bool" where
  "span_is_empty s \<longleftrightarrow> span_start s = span_end s"

datatype span_error =
    Reversed nat nat
  | OutOfBounds nat nat
  | NotCharBoundary nat
  | WrongSource source_id source_id

fun span_error_display :: "span_error \<Rightarrow> string" where
  "span_error_display (Reversed s e) =
     ''span start '' @ show_nat s @ '' is after its end '' @ show_nat e"
| "span_error_display (OutOfBounds e n) =
     ''byte offset '' @ show_nat e @ '' exceeds source length '' @ show_nat n"
| "span_error_display (NotCharBoundary off) =
     ''byte offset '' @ show_nat off @ '' is not a UTF-8 character boundary''"
| "span_error_display (WrongSource expected actual) =
     ''span belongs to source '' @ show_nat (unat actual)
       @ '', not source '' @ show_nat (unat expected)"

definition validate_offset :: "string \<Rightarrow> nat \<Rightarrow> (unit, span_error) result" where
  "validate_offset text off =
     (if length text < off then Err (OutOfBounds off (length text))
      else if \<not> is_char_boundary text off then Err (NotCharBoundary off)
      else Ok ())"

subsection \<open>Lines\<close>

record line_column =
  lc_line :: nat
  lc_column :: nat

datatype position_encoding = Utf8 | Utf16

record text_position =
  tp_line :: nat
  tp_character :: nat

record text_range =
  range_start :: text_position
  range_end :: text_position

record line =
  line_start :: nat
  content_end :: nat

abbreviation LF :: byte where
  "LF \<equiv> CHR 0x0A"

abbreviation CR :: byte where
  "CR \<equiv> CHR 0x0D"

text \<open>The loop of \<open>LineIndex::new\<close> over the bytes from position \<open>newline\<close> on.\<close>

fun scan_lines :: "string \<Rightarrow> string \<Rightarrow> nat \<Rightarrow> nat \<Rightarrow> line list" where
  "scan_lines text [] newline start = [\<lparr>line_start = start, content_end = length text\<rparr>]"
| "scan_lines text (b # bs) newline start =
     (if b \<noteq> LF then scan_lines text bs (Suc newline) start
      else
        \<lparr>line_start = start,
         content_end =
           (if start < newline \<and> text ! (newline - 1) = CR then newline - 1 else newline)\<rparr>
        # scan_lines text bs (Suc newline) (newline + 1))"

definition line_index_new :: "string \<Rightarrow> line list" where
  "line_index_new text = scan_lines text text 0 0"

definition line_count :: "line list \<Rightarrow> nat" where
  "line_count ls = length ls"

definition index_line :: "line list \<Rightarrow> nat \<Rightarrow> line option" where
  "index_line ls one_based = (if one_based = 0 then None else get_opt ls (one_based - 1))"

definition line_index_location ::
  "line list \<Rightarrow> string \<Rightarrow> nat \<Rightarrow> (line_column, span_error) result option" where
  "line_index_location ls text off =
     (case validate_offset text off of
        Err e \<Rightarrow> Some (Err e)
      | Ok _ \<Rightarrow> do {
          let i = partition_point (\<lambda>l. line_start l \<le> off) ls - 1;
          l \<leftarrow> get_opt ls i;
          s \<leftarrow> str_slice text (line_start l) (min off (content_end l));
          Some (Ok \<lparr>lc_line = i + 1, lc_column = length (chars s) + 1\<rparr>)
        })"

datatype position_error =
    ByteOutOfBounds nat nat
  | NotUtf8Boundary nat
  | LineOutOfBounds nat nat
  | CharacterOutOfBounds nat nat nat
  | InsideUtf16Scalar nat nat
  | InvalidSpan span_error

fun position_error_display :: "position_error \<Rightarrow> string" where
  "position_error_display (ByteOutOfBounds off n) =
     ''byte offset '' @ show_nat off @ '' exceeds source length '' @ show_nat n"
| "position_error_display (NotUtf8Boundary off) =
     ''byte offset '' @ show_nat off @ '' is not a UTF-8 character boundary''"
| "position_error_display (LineOutOfBounds l n) =
     ''zero-based line '' @ show_nat l @ '' exceeds the source'' @ [CHR 0x27] @ ''s '' @ show_nat n @ '' lines''"
| "position_error_display (CharacterOutOfBounds l c m) =
     ''character '' @ show_nat c @ '' exceeds line '' @ show_nat l @ [CHR 0x27] @ ''s maximum '' @ show_nat m"
| "position_error_display (InsideUtf16Scalar l c) =
     ''UTF-16 character '' @ show_nat c @ '' on line '' @ show_nat l @ '' splits a scalar''"
| "position_error_display (InvalidSpan e) = span_error_display e"

text \<open>\<open>encode_utf16().count()\<close> and \<open>len()\<close> of a prefix of a line.\<close>

definition encoded_len :: "position_encoding \<Rightarrow> string \<Rightarrow> nat" where
  "encoded_len enc s =
     (case enc of
        Utf8 \<Rightarrow> length s
      | Utf16 \<Rightarrow> sum_list (map len_utf16 (chars s)))"

definition line_index_text_position ::
  "line list \<Rightarrow> string \<Rightarrow> nat \<Rightarrow> position_encoding
     \<Rightarrow> (text_position, position_error) result option" where
  "line_index_text_position ls text off enc =
     (if length text < off then Some (Err (ByteOutOfBounds off (length text)))
      else if \<not> is_char_boundary text off then Some (Err (NotUtf8Boundary off))
      else do {
        let i = partition_point (\<lambda>l. line_start l \<le> off) ls - 1;
        l \<leftarrow> get_opt ls i;
        prefix \<leftarrow> str_slice text (line_start l) (min off (content_end l));
        Some (Ok \<lparr>tp_line = i, tp_character = encoded_len enc prefix\<rparr>)
      })"

text \<open>
  The loop over \<open>char_indices\<close> of the UTF-16 case: \<open>byte\<close> is the offset of the next scalar in the
  line and \<open>units\<close> the number of code units before it.
\<close>

fun seek_utf16 :: "line \<Rightarrow> text_position \<Rightarrow> nat list \<Rightarrow> nat \<Rightarrow> nat \<Rightarrow> (nat, position_error) result"
where
  "seek_utf16 l pos [] byte units =
     (if units = tp_character pos then Ok (content_end l)
      else Err (CharacterOutOfBounds (tp_line pos) (tp_character pos) units))"
| "seek_utf16 l pos (cp # cps) byte units =
     (if units = tp_character pos then Ok (line_start l + byte)
      else if tp_character pos < units + len_utf16 cp
      then Err (InsideUtf16Scalar (tp_line pos) (tp_character pos))
      else seek_utf16 l pos cps (byte + len_utf8 cp) (units + len_utf16 cp))"

definition line_index_byte_offset ::
  "line list \<Rightarrow> string \<Rightarrow> text_position \<Rightarrow> position_encoding
     \<Rightarrow> (nat, position_error) result option" where
  "line_index_byte_offset ls text pos enc =
     (case get_opt ls (tp_line pos) of
        None \<Rightarrow> Some (Err (LineOutOfBounds (tp_line pos) (length ls)))
      | Some l \<Rightarrow> do {
          line_text \<leftarrow> str_slice text (line_start l) (content_end l);
          case enc of
            Utf8 \<Rightarrow>
              if length line_text < tp_character pos
              then Some (Err (CharacterOutOfBounds (tp_line pos) (tp_character pos)
                     (length line_text)))
              else
                let off = line_start l + tp_character pos
                in if \<not> is_char_boundary text off then Some (Err (NotUtf8Boundary off))
                   else Some (Ok off)
          | Utf16 \<Rightarrow> Some (seek_utf16 l pos (chars line_text) 0 0)
        })"

subsection \<open>Source files\<close>

record source_file =
  sf_id :: source_id
  sf_name :: string
  sf_text :: string
  sf_line_index :: "line list"

definition source_file_new :: "source_id \<Rightarrow> string \<Rightarrow> string \<Rightarrow> source_file" where
  "source_file_new sid name text =
     \<lparr>sf_id = sid, sf_name = name, sf_text = text, sf_line_index = line_index_new text\<rparr>"

definition source_file_from_bytes ::
  "source_id \<Rightarrow> string \<Rightarrow> byte list \<Rightarrow> (source_file, nat \<times> nat option) result" where
  "source_file_from_bytes sid name bs =
     (case utf8_chars bs of
        Err e \<Rightarrow> Err e
      | Ok _ \<Rightarrow> Ok (source_file_new sid name bs))"

definition source_len :: "source_file \<Rightarrow> nat" where
  "source_len f = length (sf_text f)"

definition source_is_empty :: "source_file \<Rightarrow> bool" where
  "source_is_empty f \<longleftrightarrow> sf_text f = []"

definition source_span :: "source_file \<Rightarrow> nat \<Rightarrow> nat \<Rightarrow> (span, span_error) result" where
  "source_span f s e =
     (if e < s then Err (Reversed s e)
      else if length (sf_text f) < e then Err (OutOfBounds e (length (sf_text f)))
      else case validate_offset (sf_text f) s of
        Err er \<Rightarrow> Err er
      | Ok _ \<Rightarrow>
          (case validate_offset (sf_text f) e of
             Err er \<Rightarrow> Err er
           | Ok _ \<Rightarrow> Ok \<lparr>span_source_id = sf_id f, span_start = s, span_end = e\<rparr>))"

definition validate_span :: "source_file \<Rightarrow> span \<Rightarrow> (unit, span_error) result" where
  "validate_span f sp =
     (if span_source_id sp \<noteq> sf_id f then Err (WrongSource (sf_id f) (span_source_id sp))
      else if span_end sp < span_start sp then Err (Reversed (span_start sp) (span_end sp))
      else if length (sf_text f) < span_end sp
      then Err (OutOfBounds (span_end sp) (length (sf_text f)))
      else case validate_offset (sf_text f) (span_start sp) of
        Err er \<Rightarrow> Err er
      | Ok _ \<Rightarrow> validate_offset (sf_text f) (span_end sp))"

definition source_slice :: "source_file \<Rightarrow> span \<Rightarrow> (string, span_error) result option" where
  "source_slice f sp =
     (case validate_span f sp of
        Err e \<Rightarrow> Some (Err e)
      | Ok _ \<Rightarrow> map_option Ok (str_slice (sf_text f) (span_start sp) (span_end sp)))"

definition source_location :: "source_file \<Rightarrow> nat \<Rightarrow> (line_column, span_error) result option" where
  "source_location f off = line_index_location (sf_line_index f) (sf_text f) off"

definition source_text_position ::
  "source_file \<Rightarrow> nat \<Rightarrow> position_encoding \<Rightarrow> (text_position, position_error) result option" where
  "source_text_position f off enc =
     line_index_text_position (sf_line_index f) (sf_text f) off enc"

definition source_byte_offset ::
  "source_file \<Rightarrow> text_position \<Rightarrow> position_encoding \<Rightarrow> (nat, position_error) result option" where
  "source_byte_offset f pos enc = line_index_byte_offset (sf_line_index f) (sf_text f) pos enc"

definition source_text_range ::
  "source_file \<Rightarrow> span \<Rightarrow> position_encoding \<Rightarrow> (text_range, position_error) result option" where
  "source_text_range f sp enc =
     (case validate_span f sp of
        Err e \<Rightarrow> Some (Err (InvalidSpan e))
      | Ok _ \<Rightarrow> do {
          a \<leftarrow> source_text_position f (span_start sp) enc;
          case a of
            Err e \<Rightarrow> Some (Err e)
          | Ok p \<Rightarrow> do {
              b \<leftarrow> source_text_position f (span_end sp) enc;
              case b of
                Err e \<Rightarrow> Some (Err e)
              | Ok q \<Rightarrow> Some (Ok \<lparr>range_start = p, range_end = q\<rparr>)
            }
        })"

definition source_line_text :: "source_file \<Rightarrow> nat \<Rightarrow> string option option" where
  "source_line_text f one_based =
     (case index_line (sf_line_index f) one_based of
        None \<Rightarrow> Some None
      | Some l \<Rightarrow> map_option Some (str_slice (sf_text f) (line_start l) (content_end l)))"

definition source_line_start :: "source_file \<Rightarrow> nat \<Rightarrow> nat option" where
  "source_line_start f one_based = map_option line_start (index_line (sf_line_index f) one_based)"

definition source_line_content_end :: "source_file \<Rightarrow> nat \<Rightarrow> nat option" where
  "source_line_content_end f one_based =
     map_option content_end (index_line (sf_line_index f) one_based)"

section \<open>The line index is exact\<close>

text \<open>
  \<open>lines_ok text s ls\<close>: the lines tile the text from \<open>s\<close> on, each content is followed by one
  line ending (\<open>LF\<close> or \<open>CR LF\<close>), and the last line ends with the text.
\<close>

definition line_ending :: "string \<Rightarrow> nat \<Rightarrow> nat \<Rightarrow> bool" where
  "line_ending text e s \<longleftrightarrow>
     s \<le> length text \<and>
     (s = e + 1 \<and> text ! e = LF \<or> s = e + 2 \<and> text ! e = CR \<and> text ! (e + 1) = LF)"

fun lines_ok :: "string \<Rightarrow> nat \<Rightarrow> line list \<Rightarrow> bool" where
  "lines_ok text s [] = False"
| "lines_ok text s [l] \<longleftrightarrow>
     line_start l = s \<and> s \<le> content_end l \<and> content_end l = length text"
| "lines_ok text s (l # m # ls) \<longleftrightarrow>
     line_start l = s \<and> s \<le> content_end l \<and> line_ending text (content_end l) (line_start m)
       \<and> lines_ok text (line_start m) (m # ls)"

lemma lines_ok_Cons:
  assumes "lines_ok text s ls" "s0 \<le> e" "line_ending text e s"
  shows "lines_ok text s0 (\<lparr>line_start = s0, content_end = e\<rparr> # ls)"
proof (cases ls)
  case (Cons m ms)
  with assms(1) have "line_start m = s" by (cases ms) auto
  with assms Cons show ?thesis by simp
qed (use assms in simp)

lemma scan_lines_ok:
  assumes "bs = drop i t" "i \<le> length t" "s \<le> i"
  shows "lines_ok t s (scan_lines t bs i s)"
  using assms
proof (induction t bs i s rule: scan_lines.induct)
  case (1 t i s)
  then show ?case by simp
next
  case (2 t b bs i s)
  note d = Cons_eq_dropD [OF "2.prems"(1)]
  from d have i: "i < length t" and b: "t ! i = b" and bs: "bs = drop (Suc i) t"
    by simp_all
  show ?case
  proof (cases "b = LF")
    case True
    have "lines_ok t (i + 1) (scan_lines t bs (Suc i) (i + 1))"
      using "2.IH"(2) True i bs by simp
    moreover have "line_ending t (if s < i \<and> t ! (i - 1) = CR then i - 1 else i) (i + 1)"
      using i b True by (auto simp: line_ending_def)
    moreover have "s \<le> (if s < i \<and> t ! (i - 1) = CR then i - 1 else i)"
      using "2.prems"(3) by auto
    ultimately show ?thesis using lines_ok_Cons True by simp
  next
    case False
    have "lines_ok t s (scan_lines t bs (Suc i) s)"
      using "2.IH"(1) [OF False bs] i "2.prems"(3) by simp
    with False show ?thesis by simp
  qed
qed

lemma line_index_ok: "lines_ok text 0 (line_index_new text)"
  by (simp add: line_index_new_def scan_lines_ok)

lemma lines_ok_nth:
  assumes "lines_ok t s ls" "i < length ls"
  shows "s \<le> line_start (ls ! i)" "line_start (ls ! i) \<le> content_end (ls ! i)"
    and "content_end (ls ! i) \<le> length t"
    and "Suc i < length ls \<Longrightarrow> line_ending t (content_end (ls ! i)) (line_start (ls ! Suc i))"
    and "Suc i = length ls \<Longrightarrow> content_end (ls ! i) = length t"
    and "i = 0 \<Longrightarrow> line_start (ls ! i) = s"
proof -
  have "s \<le> line_start (ls ! i) \<and> line_start (ls ! i) \<le> content_end (ls ! i) \<and>
      content_end (ls ! i) \<le> length t \<and>
      (Suc i < length ls \<longrightarrow> line_ending t (content_end (ls ! i)) (line_start (ls ! Suc i))) \<and>
      (Suc i = length ls \<longrightarrow> content_end (ls ! i) = length t) \<and>
      (i = 0 \<longrightarrow> line_start (ls ! i) = s)"
    using assms
  proof (induction t s ls arbitrary: i rule: lines_ok.induct)
    case (3 t s l m ls)
    then show ?case
    proof (cases i)
      case 0
      with 3 show ?thesis by (auto simp: line_ending_def)
    next
      case (Suc j)
      from 3 Suc have "s \<le> line_start m" by (auto simp: line_ending_def)
      with "3.IH" [of j] "3.prems" Suc show ?thesis by (auto elim: order_trans)
    qed
  qed simp_all
  then show "s \<le> line_start (ls ! i)" "line_start (ls ! i) \<le> content_end (ls ! i)"
    and "content_end (ls ! i) \<le> length t"
    and "Suc i < length ls \<Longrightarrow> line_ending t (content_end (ls ! i)) (line_start (ls ! Suc i))"
    and "Suc i = length ls \<Longrightarrow> content_end (ls ! i) = length t"
    and "i = 0 \<Longrightarrow> line_start (ls ! i) = s"
    by blast+
qed

lemma line_ending_gt: "line_ending t e s \<Longrightarrow> e < s"
  by (auto simp: line_ending_def)

lemma lines_ok_mono:
  assumes "lines_ok t s ls" "i \<le> j" "j < length ls"
  shows "line_start (ls ! i) \<le> line_start (ls ! j)"
  using assms(2,3)
proof (induction j rule: dec_induct)
  case (step j)
  then have "line_start (ls ! i) \<le> line_start (ls ! j)" by simp
  also have "\<dots> \<le> line_start (ls ! Suc j)"
    using lines_ok_nth(2,4) [OF assms(1), of j] line_ending_gt step.prems by fastforce
  finally show ?case .
qed simp

lemma find_line:
  assumes "lines_ok t s ls" "s \<le> off"
  defines "k \<equiv> partition_point (\<lambda>l. line_start l \<le> off) ls"
  shows "0 < k" "k \<le> length ls" "line_start (ls ! (k - 1)) \<le> off"
    and "k < length ls \<Longrightarrow> off < line_start (ls ! k)"
proof -
  have ne: "ls \<noteq> []" using assms(1) by auto
  then have "line_start (hd ls) \<le> off"
    using lines_ok_nth(6) [OF assms(1), of 0] assms(2) by (simp add: hd_conv_nth)
  with ne show k0: "0 < k" by (cases ls) (auto simp: k_def partition_point_def)
  show "k \<le> length ls" by (simp add: k_def partition_point_def length_takeWhile_le)
  have "takeWhile (\<lambda>l. line_start l \<le> off) ls ! (k - 1) \<in> set (takeWhile (\<lambda>l. line_start l \<le> off) ls)"
    using k0 by (simp add: k_def partition_point_def)
  with k0 show "line_start (ls ! (k - 1)) \<le> off"
    by (simp add: k_def partition_point_def takeWhile_nth) (metis set_takeWhileD)
  show "k < length ls \<Longrightarrow> off < line_start (ls ! k)"
    using nth_length_takeWhile [of "\<lambda>l. line_start l \<le> off" ls]
    by (simp add: k_def partition_point_def)
qed

lemma find_line_unique:
  assumes "lines_ok t s ls" "i < length ls" "line_start (ls ! i) \<le> off" "off \<le> content_end (ls ! i)"
  shows "partition_point (\<lambda>l. line_start l \<le> off) ls = Suc i"
proof -
  have "takeWhile (\<lambda>l. line_start l \<le> off) ls = take (Suc i) ls"
  proof (rule takeWhile_eq_take_P_nth)
    fix j
    assume "j < Suc i" "j < length ls"
    with lines_ok_mono [OF assms(1), of j i] assms show "line_start (ls ! j) \<le> off" by simp
  next
    assume "Suc i < length ls"
    from lines_ok_nth(4) [OF assms(1,2) this] assms(4) show "\<not> line_start (ls ! Suc i) \<le> off"
      by (auto dest: line_ending_gt)
  qed
  with assms(2) show ?thesis by (simp add: partition_point_def)
qed

lemma line_boundaries:
  assumes "valid_utf8 t" "lines_ok t 0 ls" "i < length ls"
  shows "is_char_boundary t (line_start (ls ! i))" "is_char_boundary t (content_end (ls ! i))"
proof -
  show "is_char_boundary t (content_end (ls ! i))"
  proof (cases "Suc i < length ls")
    case True
    from lines_ok_nth(4) [OF assms(2,3) True] show ?thesis
      by (auto simp: line_ending_def intro!: ascii_is_boundary)
  next
    case False
    with assms(3) lines_ok_nth(5) [OF assms(2,3)] show ?thesis by simp
  qed
  show "is_char_boundary t (line_start (ls ! i))"
  proof (cases i)
    case 0
    with lines_ok_nth(6) [OF assms(2,3)] show ?thesis by simp
  next
    case (Suc j)
    with assms(3) lines_ok_nth(4) [OF assms(2), of j]
    have e: "line_ending t (content_end (ls ! j)) (line_start (ls ! i))" by simp
    define p where "p = line_start (ls ! i) - 1"
    from e have p: "line_start (ls ! i) = Suc p" "p < length t" "t ! p = LF"
      by (auto simp: line_ending_def p_def)
    with boundary_ascii [OF assms(1) ascii_is_boundary, of p] show ?thesis by simp
  qed
qed

section \<open>Offsets and positions convert exactly\<close>

abbreviation line_text_of :: "string \<Rightarrow> line \<Rightarrow> string" where
  "line_text_of t l \<equiv> take (content_end l - line_start l) (drop (line_start l) t)"

lemma seek_utf16_hit:
  assumes "valid_utf8 s" "is_char_boundary s k" "content_end l = line_start l + byte + length s"
    and "tp_character pos = units + encoded_len Utf16 (take k s)"
  shows "seek_utf16 l pos (chars s) byte units = Ok (line_start l + byte + k)"
  using assms
proof (induction arbitrary: k byte units rule: valid_utf8_induct)
  case Nil
  then show ?case by (simp add: is_char_boundary_def encoded_len_def split: if_splits)
next
  case (Scalar s cp w)
  note n = Scalar.hyps(1)
  from n Scalar.hyps(2) have v: "valid_utf8 s" by (simp add: valid_utf8_step)
  have w: "w = len_utf8 cp" "w \<le> length s"
    using str_next_decode(2) [OF n] str_next_ScalarD(4) [OF n] by simp_all
  show ?case
  proof (cases "k = 0")
    case True
    with Scalar.prems chars_step [OF n v] show ?thesis by (simp add: encoded_len_def)
  next
    case False
    with scalar_boundary [OF n Scalar.prems(1)] have le: "w \<le> k" by simp
    have t: "encoded_len Utf16 (take k s) = len_utf16 cp + encoded_len Utf16 (take (k - w) (drop w s))"
      using chars_take_step [OF n v Scalar.prems(1) le] by (simp add: encoded_len_def)
    have "0 < len_utf16 cp" by (simp add: len_utf16_def)
    with Scalar.IH [OF boundary_drop [OF le Scalar.prems(1)], of "byte + w" "units + len_utf16 cp"]
      Scalar.prems(2,3) t le w chars_step [OF n v]
    show ?thesis by simp
  qed
qed

lemma seek_utf16_sound:
  assumes "valid_utf8 s" "content_end l = line_start l + byte + length s"
    and "seek_utf16 l pos (chars s) byte units = Ok off"
  shows "\<exists>k. is_char_boundary s k \<and> off = line_start l + byte + k
      \<and> tp_character pos = units + encoded_len Utf16 (take k s)"
  using assms
proof (induction arbitrary: byte units rule: valid_utf8_induct)
  case Nil
  then show ?case by (auto simp: encoded_len_def split: if_splits)
next
  case (Scalar s cp w)
  note n = Scalar.hyps(1)
  from n Scalar.hyps(2) have v: "valid_utf8 s" by (simp add: valid_utf8_step)
  have w: "w = len_utf8 cp" "w \<le> length s"
    using str_next_decode(2) [OF n] str_next_ScalarD(4) [OF n] by simp_all
  show ?case
  proof (cases "units = tp_character pos")
    case True
    with Scalar.prems chars_step [OF n v] show ?thesis
      by (auto intro!: exI [of _ 0] simp: encoded_len_def)
  next
    case False
    with Scalar.prems(2) chars_step [OF n v] w
    have "seek_utf16 l pos (chars (drop w s)) (byte + w) (units + len_utf16 cp) = Ok off"
      by (simp split: if_splits)
    moreover have "content_end l = line_start l + (byte + w) + length (drop w s)"
      using Scalar.prems(1) w by simp
    ultimately obtain k where k: "is_char_boundary (drop w s) k" "off = line_start l + (byte + w) + k"
      "tp_character pos = units + len_utf16 cp + encoded_len Utf16 (take k (drop w s))"
      using Scalar.IH by blast
    have b: "is_char_boundary s (w + k)"
    proof (rule boundary_of_valid_drop)
      show "valid_utf8 (drop (w + k) s)"
        using valid_drop_boundary [OF Scalar.hyps(2) k(1)] by (simp add: add.commute)
      show "w + k \<le> length s" using is_char_boundary_le [OF k(1)] w by simp
    qed
    from chars_take_step [OF n v b] k(3)
    have "tp_character pos = units + encoded_len Utf16 (take (w + k) s)"
      by (simp add: encoded_len_def)
    with b k(2) show ?thesis by (metis add.assoc)
  qed
qed

text \<open>The line an offset falls on, and what the conversions compute from it.\<close>

definition line_at :: "line list \<Rightarrow> nat \<Rightarrow> nat" where
  "line_at ls off = partition_point (\<lambda>l. line_start l \<le> off) ls - 1"

lemma line_at_props:
  assumes "lines_ok t 0 ls"
  shows "line_at ls off < length ls" "line_start (ls ! line_at ls off) \<le> off"
  using find_line [OF assms, of off] by (auto simp: line_at_def)

lemma line_prefix_slice:
  assumes "valid_utf8 t" "lines_ok t 0 ls" "is_char_boundary t off"
  defines "l \<equiv> ls ! line_at ls off"
  shows "line_start l \<le> min off (content_end l)" "is_char_boundary t (min off (content_end l))"
    and "str_slice t (line_start l) (min off (content_end l)) =
      Some (take (min off (content_end l) - line_start l) (drop (line_start l) t))"
proof -
  note i = line_at_props [OF assms(2), of off]
  note b = line_boundaries [OF assms(1,2) i(1)]
  show le: "line_start l \<le> min off (content_end l)"
    using i(2) lines_ok_nth(2) [OF assms(2) i(1)] by (simp add: l_def)
  show bm: "is_char_boundary t (min off (content_end l))"
    using b assms(3) by (simp add: l_def min_def)
  from slice_boundary [OF le _ bm] b
  show "str_slice t (line_start l) (min off (content_end l)) =
      Some (take (min off (content_end l) - line_start l) (drop (line_start l) t))"
    by (simp add: l_def)
qed

lemma text_position_eq:
  assumes "valid_utf8 t" "lines_ok t 0 ls" "is_char_boundary t off"
  defines "l \<equiv> ls ! line_at ls off"
  shows "line_index_text_position ls t off enc =
    Some (Ok \<lparr>tp_line = line_at ls off,
      tp_character = encoded_len enc
        (take (min off (content_end l) - line_start l) (drop (line_start l) t))\<rparr>)"
  using line_prefix_slice [OF assms(1-3)] line_at_props(1) [OF assms(2), of off] assms(3)
    is_char_boundary_le [OF assms(3)]
  by (simp add: line_index_text_position_def l_def line_at_def get_opt_def Let_def)

lemma line_slice:
  assumes "valid_utf8 t" "lines_ok t 0 ls" "i < length ls"
  shows "str_slice t (line_start (ls ! i)) (content_end (ls ! i)) = Some (line_text_of t (ls ! i))"
    and "valid_utf8 (line_text_of t (ls ! i))"
    and "length (line_text_of t (ls ! i)) = content_end (ls ! i) - line_start (ls ! i)"
proof -
  note le = lines_ok_nth(2,3) [OF assms(2,3)]
  note b = line_boundaries [OF assms]
  from slice_boundary [OF le(1) b]
  show "str_slice t (line_start (ls ! i)) (content_end (ls ! i)) = Some (line_text_of t (ls ! i))" .
  from valid_utf8_slice [OF assms(1) le(1) b] show "valid_utf8 (line_text_of t (ls ! i))" .
  from le show "length (line_text_of t (ls ! i)) = content_end (ls ! i) - line_start (ls ! i)"
    by simp
qed

lemma byte_offset_hit:
  assumes "valid_utf8 t" "lines_ok t 0 ls" "i < length ls"
    and "is_char_boundary (line_text_of t (ls ! i)) k"
  shows "line_index_byte_offset ls t
      \<lparr>tp_line = i, tp_character = encoded_len enc (take k (line_text_of t (ls ! i)))\<rparr> enc
    = Some (Ok (line_start (ls ! i) + k))"
proof -
  let ?l = "ls ! i"
  note sl = line_slice [OF assms(1-3)]
  note le = lines_ok_nth(2,3) [OF assms(2,3)]
  have k: "k \<le> content_end ?l - line_start ?l" using is_char_boundary_le [OF assms(4)] sl(3) by simp
  show ?thesis
  proof (cases enc)
    case Utf8
    have "is_char_boundary t (line_start ?l + k)"
      using boundary_slice [OF le(1) line_boundaries [OF assms(1-3)] k] assms(4) by simp
    moreover have "length (take k (line_text_of t ?l)) = k" using k sl(3) by simp
    ultimately show ?thesis
      using Utf8 sl assms(3) k by (simp add: line_index_byte_offset_def encoded_len_def get_opt_def Let_def)
  next
    case Utf16
    have "content_end ?l = line_start ?l + 0 + length (line_text_of t ?l)" using le sl(3) by simp
    from seek_utf16_hit [OF sl(2) assms(4) this] Utf16 sl(1) assms(3) show ?thesis
      by (simp add: line_index_byte_offset_def get_opt_def)
  qed
qed

lemma byte_offset_sound:
  assumes "valid_utf8 t" "lines_ok t 0 ls"
    and "line_index_byte_offset ls t pos enc = Some (Ok off)"
  shows "tp_line pos < length ls \<and> (\<exists>k. is_char_boundary (line_text_of t (ls ! tp_line pos)) k
      \<and> off = line_start (ls ! tp_line pos) + k
      \<and> tp_character pos = encoded_len enc (take k (line_text_of t (ls ! tp_line pos))))"
proof -
  have i: "tp_line pos < length ls"
    using assms(3) by (auto simp: line_index_byte_offset_def get_opt_def split: if_splits)
  let ?l = "ls ! tp_line pos"
  note sl = line_slice [OF assms(1,2) i]
  note le = lines_ok_nth(2,3) [OF assms(2) i]
  have "\<exists>k. is_char_boundary (line_text_of t ?l) k \<and> off = line_start ?l + k
      \<and> tp_character pos = encoded_len enc (take k (line_text_of t ?l))"
  proof (cases enc)
    case Utf8
    with assms(3) i sl(1,3)
    have k: "tp_character pos \<le> content_end ?l - line_start ?l"
      and b: "is_char_boundary t (line_start ?l + tp_character pos)"
      and off: "off = line_start ?l + tp_character pos"
      by (auto simp: line_index_byte_offset_def get_opt_def Let_def split: if_splits)
    from boundary_slice [OF le(1) line_boundaries [OF assms(1,2) i] k] b
    have "is_char_boundary (line_text_of t ?l) (tp_character pos)" by simp
    moreover have "length (take (tp_character pos) (line_text_of t ?l)) = tp_character pos"
      using k sl(3) by simp
    ultimately show ?thesis using Utf8 off by (intro exI [of _ "tp_character pos"])
        (simp add: encoded_len_def)
  next
    case Utf16
    with assms(3) i sl(1) have "seek_utf16 ?l pos (chars (line_text_of t ?l)) 0 0 = Ok off"
      by (simp add: line_index_byte_offset_def get_opt_def)
    moreover have "content_end ?l = line_start ?l + 0 + length (line_text_of t ?l)"
      using le sl(3) by simp
    ultimately show ?thesis using seek_utf16_sound [OF sl(2)] Utf16 by fastforce
  qed
  with i show ?thesis by blast
qed

lemmas source_defs = source_file_new_def source_location_def source_text_position_def
  source_byte_offset_def source_span_def source_slice_def validate_span_def validate_offset_def

lemma scan_lines_clean:
  assumes "bs = drop n t" "s \<le> n" "n \<le> length t" "\<And>j. s \<le> j \<Longrightarrow> j < n \<Longrightarrow> t ! j \<noteq> LF"
    and "l \<in> set (scan_lines t bs n s)" "line_start l \<le> j" "j < content_end l"
  shows "t ! j \<noteq> LF"
  using assms
proof (induction t bs n s rule: scan_lines.induct)
  case (2 t b bs n s)
  note d = Cons_eq_dropD [OF "2.prems"(1)]
  show ?case
  proof (cases "b = LF")
    case True
    then consider "line_start l = s" "content_end l \<le> n" | "l \<in> set (scan_lines t bs (Suc n) (n + 1))"
      using "2.prems"(5) by (auto split: if_splits)
    then show ?thesis
    proof cases
      case 2
      with "2.IH"(2) True d "2.prems"(6,7) show ?thesis by simp
    qed (use "2.prems"(4,6,7) in auto)
  next
    case False
    have "t ! j' \<noteq> LF" if "s \<le> j'" "j' < Suc n" for j'
      using that "2.prems"(4) [of j'] d False by (cases "j' = n") auto
    moreover have "l \<in> set (scan_lines t bs (Suc n) s)" using "2.prems"(5) False by simp
    ultimately show ?thesis using "2.IH"(1) [OF False] d "2.prems"(2,6,7) by simp
  qed
qed simp

lemma scan_lines_ends:
  assumes "bs = drop n t" "l \<in> set (scan_lines t bs n s)" "content_end l < length t" "t ! content_end l = LF"
    "line_start l < content_end l"
  shows "t ! (content_end l - 1) \<noteq> CR"
  using assms
proof (induction t bs n s rule: scan_lines.induct)
  case (2 t b bs n s)
  note d = Cons_eq_dropD [OF "2.prems"(1)]
  show ?case
  proof (cases "b = LF")
    case True
    then consider "content_end l = n" "\<not> (line_start l < n \<and> t ! (n - 1) = CR)" | "t ! content_end l = CR"
      | "l \<in> set (scan_lines t bs (Suc n) (n + 1))"
      using "2.prems"(2) by (auto split: if_splits)
    then show ?thesis
    proof cases
      case 3
      with "2.IH"(2) True d "2.prems"(3-5) show ?thesis by simp
    qed (use "2.prems"(4,5) in auto)
  next
    case False
    moreover from this "2.prems"(2) have "l \<in> set (scan_lines t bs (Suc n) s)" by simp
    ultimately show ?thesis using "2.IH"(1) d "2.prems"(3-5) by simp
  qed
qed simp

text \<open>The begin of the line an offset falls on, and where the offset lands when a line ending is one place.\<close>

definition line_begin :: "string \<Rightarrow> nat \<Rightarrow> nat" where
  "line_begin t off = off - length (takeWhile (\<lambda>b. b \<noteq> LF) (rev (take off t)))"

definition line_landing :: "string \<Rightarrow> nat \<Rightarrow> nat" where
  "line_landing t off =
     (if 0 < off \<and> off < length t \<and> t ! (off - 1) = CR \<and> t ! off = LF then off - 1 else off)"

lemma line_begin_eq:
  assumes "a \<le> off" "off \<le> length t" "\<And>j. a \<le> j \<Longrightarrow> j < off \<Longrightarrow> t ! j \<noteq> LF" "a = 0 \<or> t ! (a - 1) = LF"
  shows "line_begin t off = a"
proof -
  let ?m = "take (off - a) (drop a t)"
  have "take off t = take a t @ ?m" using assms(1) take_add [of a "off - a" t] by simp
  moreover have "takeWhile (\<lambda>b. b \<noteq> LF) (rev (take a t)) = []"
  proof (cases "a = 0")
    case False
    then have "take a t = take (a - 1) t @ [LF]"
      using assms take_Suc_conv_app_nth [of "a - 1" t] by auto
    then show ?thesis by simp
  qed simp
  moreover have "\<forall>x \<in> set (rev ?m). x \<noteq> LF"
    using assms(1-3) by (auto simp: in_set_conv_nth)
  ultimately have "takeWhile (\<lambda>b. b \<noteq> LF) (rev (take off t)) = rev ?m"
    using takeWhile_append2 [of "rev ?m" "\<lambda>b. b \<noteq> LF" "rev (take a t)"] by simp
  with assms(1,2) show ?thesis by (simp add: line_begin_def)
qed

lemma line_starts_count:
  assumes "lines_ok t 0 ls" "i < length ls"
    and "\<And>l j. l \<in> set ls \<Longrightarrow> line_start l \<le> j \<Longrightarrow> j < content_end l \<Longrightarrow> t ! j \<noteq> LF"
  shows "count_list (take (line_start (ls ! i)) t) LF = i"
  using assms(2)
proof (induction i)
  case 0
  with lines_ok_nth(6) [OF assms(1)] show ?case by simp
next
  case (Suc i)
  let ?a = "line_start (ls ! i)" and ?e = "content_end (ls ! i)" and ?b = "line_start (ls ! Suc i)"
  from Suc.prems have i: "i < length ls" by simp
  note le = lines_ok_nth(2,3) [OF assms(1) i]
  have e: "line_ending t ?e ?b" using lines_ok_nth(4) [OF assms(1) i] Suc.prems by simp
  have c: "LF \<notin> set (take (?e - ?a) (drop ?a t))"
    using assms(3) [OF nth_mem [OF i]] le by (auto simp: in_set_conv_nth)
  have "take ?b t = take ?a t @ take (?e - ?a) (drop ?a t) @ take (?b - ?e) (drop ?e t)"
    using le line_ending_gt [OF e] take_add [of ?a "?e - ?a" t] take_add [of ?e "?b - ?e" t] by simp
  moreover have "count_list (take (?b - ?e) (drop ?e t)) LF = 1"
    using e by (auto simp: line_ending_def take_Suc_conv_app_nth numeral_2_eq_2)
  ultimately show ?case using Suc.IH [OF i] c by (simp add: count_notin)
qed

lemma line_at_exact:
  fixes t defines "ls \<equiv> line_index_new t"
  assumes "off \<le> length t"
  shows "line_at ls off = count_list (take off t) LF" "line_start (ls ! line_at ls off) = line_begin t off"
    and "min off (content_end (ls ! line_at ls off)) = line_landing t off"
proof -
  note ok = line_index_ok [of t, folded ls_def]
  have clean: "t ! j \<noteq> LF" if "l \<in> set ls" "line_start l \<le> j" "j < content_end l" for l j
    using scan_lines_clean [of t 0 t 0 l j] that by (simp add: ls_def line_index_new_def)
  let ?i = "line_at ls off"
  let ?l = "ls ! ?i"
  note i = line_at_props [OF ok, of off]
  have next_line: "off < line_start (ls ! Suc ?i)" if "Suc ?i < length ls"
    using find_line(1,4) [OF ok, of off] that by (simp add: line_at_def)
  note le = lines_ok_nth(2,3) [OF ok i(1)]
  have lf: "t ! j \<noteq> LF" if "line_start ?l \<le> j" "j < off" for j
  proof (cases "j < content_end ?l")
    case True
    with clean [OF nth_mem [OF i(1)] that(1)] show ?thesis by simp
  next
    case False
    with that assms(2) lines_ok_nth(5) [OF ok i(1)] i(1) have s: "Suc ?i < length ls"
      by (metis Suc_lessI le_less_trans not_le order_le_less_trans order_less_le_trans)
    from lines_ok_nth(4) [OF ok i(1) s] next_line [OF s] False that
    have "j = content_end ?l \<and> t ! content_end ?l = CR" by (auto simp: line_ending_def)
    then show ?thesis by simp
  qed
  have start: "line_start ?l = 0 \<or> t ! (line_start ?l - 1) = LF"
  proof (cases ?i)
    case 0
    with lines_ok_nth(6) [OF ok i(1)] show ?thesis by simp
  next
    case (Suc h)
    with lines_ok_nth(4) [OF ok, of h] i(1) have "line_ending t (content_end (ls ! h)) (line_start ?l)" by simp
    then show ?thesis by (auto simp: line_ending_def)
  qed
  show b: "line_start ?l = line_begin t off"
    using line_begin_eq [OF i(2) assms(2) lf start] by simp
  have "take off t = take (line_start ?l) t @ take (off - line_start ?l) (drop (line_start ?l) t)"
    using i(2) take_add [of "line_start ?l" "off - line_start ?l" t] by simp
  moreover have "LF \<notin> set (take (off - line_start ?l) (drop (line_start ?l) t))"
    using lf assms(2) by (auto simp: in_set_conv_nth)
  ultimately show "?i = count_list (take off t) LF"
    using line_starts_count [OF ok i(1) clean] by (simp add: count_notin)
  show "min off (content_end ?l) = line_landing t off"
  proof (cases "off \<le> content_end ?l")
    case True
    have "\<not> (0 < off \<and> off < length t \<and> t ! (off - 1) = CR \<and> t ! off = LF)"
    proof
      assume a: "0 < off \<and> off < length t \<and> t ! (off - 1) = CR \<and> t ! off = LF"
      with True clean [OF nth_mem [OF i(1)] i(2)] have e: "off = content_end ?l" by fastforce
      from a start i(2) have "line_start ?l < off" by (cases "line_start ?l = off") auto
      with a e scan_lines_ends [of t 0 t ?l 0] nth_mem [OF i(1)] show False
        by (simp add: ls_def line_index_new_def)
    qed
    with True show ?thesis by (simp only: line_landing_def if_False min_absorb1)
  next
    case False
    with assms(2) lines_ok_nth(5) [OF ok i(1)] i(1) have s: "Suc ?i < length ls"
      by (metis Suc_lessI)
    from lines_ok_nth(4) [OF ok i(1) s] next_line [OF s] False
    have e: "content_end ?l = off - 1" "0 < off" "off < length t" "t ! content_end ?l = CR" "t ! off = LF"
      by (auto simp: line_ending_def le_less_Suc_eq)
    then have "t ! (off - 1) = CR" by simp
    with e show ?thesis by (simp add: line_landing_def)
  qed
qed

text \<open>
  C38: a byte offset, its text position and its location name the same place. For an offset on a character
  boundary the line is the number of line feeds before it, the character and the column count the UTF-8 bytes,
  the UTF-16 units and the characters from the begin of that line up to it, and the position converts back to
  the offset. Only an offset between the two bytes of a CRLF lands before the carriage return.
\<close>

theorem position_roundtrip:
  assumes "valid_utf8 t" "is_char_boundary t off"
  shows "let n = count_list (take off t) LF; a = line_begin t off; e = line_landing t off; s = take (e - a) (drop a t);
      p = \<lparr>tp_line = n, tp_character = encoded_len enc s\<rparr>
    in source_text_position (source_file_new sid name t) off enc = Some (Ok p)
      \<and> source_byte_offset (source_file_new sid name t) p enc = Some (Ok e)
      \<and> source_location (source_file_new sid name t) off
          = Some (Ok \<lparr>lc_line = n + 1, lc_column = length (chars s) + 1\<rparr>)"
proof -
  let ?ls = "line_index_new t"
  let ?i = "line_at ?ls off"
  let ?l = "?ls ! ?i"
  let ?m = "min off (content_end ?l)"
  let ?k = "?m - line_start ?l"
  note ok = line_index_ok [of t]
  note i = line_at_props [OF ok, of off]
  note le = lines_ok_nth(2,3) [OF ok i(1)]
  note pre = line_prefix_slice [OF assms(1) ok assms(2)]
  note b = line_boundaries [OF assms(1) ok i(1)]
  note off = is_char_boundary_le [OF assms(2)]
  have bk: "is_char_boundary (line_text_of t ?l) ?k"
    using boundary_slice [OF le(1) b, of ?k] pre(1,2) by (simp add: diff_le_mono)
  have t: "take ?k (line_text_of t ?l) = take ?k (drop (line_start ?l) t)"
    by (simp add: diff_le_mono min_absorb1)
  have "source_location (source_file_new sid name t) off
    = Some (Ok \<lparr>lc_line = ?i + 1, lc_column = length (chars (take ?k (drop (line_start ?l) t))) + 1\<rparr>)"
    using pre(3) i(1) off assms(2)
    by (simp add: source_defs line_index_location_def get_opt_nth line_at_def Let_def)
  with byte_offset_hit [OF assms(1) ok i(1) bk, of enc] text_position_eq [OF assms(1) ok assms(2)] pre(1) t
  show ?thesis unfolding Let_def line_at_exact [OF off, symmetric] by (simp add: source_defs)
qed

lemma find_line_of_offset:
  assumes "lines_ok t 0 ls" "i < length ls" "k \<le> content_end (ls ! i) - line_start (ls ! i)"
  shows "line_at ls (line_start (ls ! i) + k) = i"
  using find_line_unique [OF assms(1,2), of "line_start (ls ! i) + k"] assms(3)
    lines_ok_nth(2) [OF assms(1,2)]
  by (simp add: line_at_def)

text \<open>
  every text position that converts to a byte offset is the position of that offset, in
  UTF-8 and in UTF-16 units, so distinct positions of a source name distinct offsets.
\<close>

theorem offset_roundtrip:
  assumes "valid_utf8 t"
    and "source_byte_offset (source_file_new sid name t) p enc = Some (Ok off)"
  shows "source_text_position (source_file_new sid name t) off enc = Some (Ok p)"
proof -
  let ?ls = "line_index_new t"
  let ?l = "?ls ! tp_line p"
  note ok = line_index_ok [of t]
  from byte_offset_sound [OF assms(1) ok, of p enc off] assms(2)
  obtain k where i: "tp_line p < length ?ls" and k: "is_char_boundary (line_text_of t ?l) k"
    and off: "off = line_start ?l + k"
    and c: "tp_character p = encoded_len enc (take k (line_text_of t ?l))"
    by (auto simp: source_defs)
  note le = lines_ok_nth(2,3) [OF ok i]
  have kle: "k \<le> content_end ?l - line_start ?l"
    using is_char_boundary_le [OF k] line_slice(3) [OF assms(1) ok i] by simp
  have b: "is_char_boundary t off"
    using boundary_slice [OF le(1) line_boundaries [OF assms(1) ok i] kle] k off by simp
  have at: "line_at ?ls off = tp_line p" using find_line_of_offset [OF ok i kle] off by simp
  have "take (min off (content_end ?l) - line_start ?l) (drop (line_start ?l) t)
      = take k (line_text_of t ?l)"
    using off kle le by (simp add: min_absorb1)
  with text_position_eq [OF assms(1) ok b, of enc] at c show ?thesis
    by (simp add: source_defs)
qed

lemma location_total:
  "valid_utf8 t \<Longrightarrow> source_location (source_file_new sid name t) off \<noteq> None"
  using line_prefix_slice [OF _ line_index_ok, of t off] line_at_props(1) [OF line_index_ok, of t off]
  by (auto simp: source_defs line_index_location_def Let_def line_at_def get_opt_def)

lemma text_position_total:
  "valid_utf8 t \<Longrightarrow> source_text_position (source_file_new sid name t) off enc \<noteq> None"
  using text_position_eq [OF _ line_index_ok, of t off enc]
  by (cases "is_char_boundary t off") (auto simp: source_defs line_index_text_position_def)

lemma byte_offset_total:
  "valid_utf8 t \<Longrightarrow> source_byte_offset (source_file_new sid name t) p enc \<noteq> None"
  using line_slice(1) [OF _ line_index_ok, of t "tp_line p"]
  by (auto simp: source_defs line_index_byte_offset_def get_opt_def Let_def
      split: position_encoding.split)

lemma validate_span_Ok:
  "validate_span f sp = Ok u \<longleftrightarrow> span_source_id sp = sf_id f \<and> span_start sp \<le> span_end sp
     \<and> is_char_boundary (sf_text f) (span_start sp) \<and> is_char_boundary (sf_text f) (span_end sp)"
  by (auto simp: source_defs not_less split: if_splits dest: is_char_boundary_le)

lemma source_slice_total: "source_slice f sp \<noteq> None"
proof (cases "validate_span f sp")
  case (Inr u)
  then show ?thesis using validate_span_Ok [of f sp u] by (simp add: source_slice_def panic_free)
qed (simp add: source_slice_def)

text \<open>
  no operation of a source file panics: for any offset, position, span and line number the
  conversions and the slices return a value or an error, however the arguments relate to the text.
\<close>

theorem source_operations_return:
  assumes "valid_utf8 t"
  shows "source_location (source_file_new sid name t) off \<noteq> None
    \<and> source_text_position (source_file_new sid name t) off enc \<noteq> None
    \<and> source_byte_offset (source_file_new sid name t) p enc \<noteq> None
    \<and> source_slice (source_file_new sid name t) sp \<noteq> None
    \<and> source_text_range (source_file_new sid name t) sp enc \<noteq> None
    \<and> source_line_text (source_file_new sid name t) n \<noteq> None"
proof -
  have "source_text_range (source_file_new sid name t) sp enc \<noteq> None"
    using text_position_total [OF assms, of sid name "span_start sp" enc]
      text_position_total [OF assms, of sid name "span_end sp" enc]
    by (auto simp: source_text_range_def split: sum.split)
  moreover have "source_line_text (source_file_new sid name t) n \<noteq> None"
    using line_slice(1) [OF assms line_index_ok, of "n - 1"]
    by (auto simp: source_line_text_def index_line_def source_file_new_def get_opt_def)
  ultimately show ?thesis
    using assms by (auto simp: location_total text_position_total byte_offset_total source_slice_total
        simp del: not_None_eq)
qed

text \<open>
  \<open>span\<close> accepts exactly the ranges between two character boundaries of the text in order,
  and slicing an accepted span yields exactly the bytes of the range.
\<close>

theorem source_span_exact:
  "case source_span f s e of
     Ok sp \<Rightarrow> s \<le> e \<and> is_char_boundary (sf_text f) s \<and> is_char_boundary (sf_text f) e
       \<and> source_slice f sp = Some (Ok (take (e - s) (drop s (sf_text f))))
   | Err er \<Rightarrow> \<not> (s \<le> e \<and> is_char_boundary (sf_text f) s \<and> is_char_boundary (sf_text f) e)"
  by (auto simp: source_defs panic_free split: if_splits dest: is_char_boundary_le)

text \<open>Witnesses of the conditional properties above, on a text of two lines.\<close>

abbreviation two_lines :: string where
  "two_lines \<equiv> [CHR ''a'', CR, LF, CHR ''b'']"

lemma two_lines_valid: "valid_utf8 two_lines"
  using valid_utf8_ascii [of two_lines] by simp

theorem position_roundtrip_witness:
  "source_text_position (source_file_new 0 [] two_lines) 2 Utf16 = Some (Ok \<lparr>tp_line = 0, tp_character = 1\<rparr>)
    \<and> source_byte_offset (source_file_new 0 [] two_lines) \<lparr>tp_line = 0, tp_character = 1\<rparr> Utf16 = Some (Ok 1)
    \<and> source_location (source_file_new 0 [] two_lines) 2 = Some (Ok \<lparr>lc_line = 1, lc_column = 2\<rparr>)"
proof -
  have "chars (take 1 two_lines) = [97]" by code_simp
  then show ?thesis
    using position_roundtrip [OF two_lines_valid, of 2 Utf16 0 "[]"]
    by (simp add: is_char_boundary_def is_cont_def line_begin_def line_landing_def encoded_len_def len_utf16_def Let_def)
qed

theorem offset_roundtrip_witness:
  "source_text_position (source_file_new 0 [] two_lines) 3 Utf8
     = Some (Ok \<lparr>tp_line = 1, tp_character = 0\<rparr>)"
proof (rule offset_roundtrip [OF two_lines_valid])
  show "source_byte_offset (source_file_new 0 [] two_lines) \<lparr>tp_line = 1, tp_character = 0\<rparr> Utf8
      = Some (Ok 3)"
    by (simp add: source_defs line_index_byte_offset_def line_index_new_def get_opt_def str_slice_def
        is_char_boundary_def is_cont_def)
qed

theorem source_operations_return_witness:
  "source_location (source_file_new 0 [] two_lines) 7 \<noteq> None
    \<and> source_text_position (source_file_new 0 [] two_lines) 7 Utf8 \<noteq> None
    \<and> source_byte_offset (source_file_new 0 [] two_lines) \<lparr>tp_line = 9, tp_character = 0\<rparr> Utf8 \<noteq> None
    \<and> source_slice (source_file_new 0 [] two_lines)
        \<lparr>span_source_id = 1, span_start = 5, span_end = 2\<rparr> \<noteq> None
    \<and> source_text_range (source_file_new 0 [] two_lines)
        \<lparr>span_source_id = 1, span_start = 5, span_end = 2\<rparr> Utf8 \<noteq> None
    \<and> source_line_text (source_file_new 0 [] two_lines) 0 \<noteq> None"
  by (rule source_operations_return [OF two_lines_valid])

end
