(* ===== verification/Lexer.thy ===== *)
theory Lexer
  imports Source
begin

section \<open>The lexer\<close>

text \<open>
  The model of \<^verbatim>\<open>crates/opaal-syntax/src/lexer.rs\<close>: the token kinds, the lexer's state (position,
  emitted tokens, stack of contexts) and one definition per method, in the order of the code. The
  borrowed source file never changes and is the first argument of every method. A method that
  slices the text, indexes it or asserts may panic, so it returns an option and \<open>None\<close> is the
  panic; a method that answers whether it recognised a token returns the answer with the new
  state. The lemmas show that on every source the lexer returns, that its tokens tile the text,
  and that the contexts it keeps are a well-formed stack.
\<close>

subsection \<open>Tokens\<close>

datatype keyword =
    KwAction | KwBreak | KwCatch | KwContinue | KwDef | KwElse | KwEnum | KwExport | KwFalse | KwFor
  | KwIf | KwImport | KwIn | KwLet | KwMatch | KwMut | KwNull | KwReturn | KwTask | KwThrow | KwTrue
  | KwTry | KwType | KwUnset | KwWhile

datatype number_kind = NumInteger | NumFloat

datatype operator =
    OpSemicolon | OpPipe | OpPipeBoth | OpBackground | OpAnd | OpOr | OpAppend | OpDuplicate
  | OpAssign | OpAddAssign | OpSubtractAssign | OpMultiplyAssign | OpDivideAssign
  | OpRemainderAssign | OpEqual | OpNotEqual | OpLess | OpLessEqual | OpGreater | OpGreaterEqual
  | OpPlus | OpMinus | OpStar | OpSlash | OpPercent | OpBang | OpRange | OpRangeInclusive | OpSpread
  | OpArrow | OpMatchArrow | OpDot | OpComma | OpColon | OpCaret

datatype delimiter =
    LeftParenthesis | RightParenthesis | LeftBrace | RightBrace | LeftBracket | RightBracket

datatype invalid_token_kind =
    InvNul | InvLoneCarriageReturn | InvUnknownDoubleEscape | InvEmptyUnicodeEscape
  | InvUnicodeSurrogate | InvUnicodeOutOfRange | InvMalformedUnicodeEscape | InvDollarSyntax
  | InvUnmatchedInterpolationBrace

datatype token_kind =
    TkWhitespace | TkNewline | TkLineContinuation | TkComment | TkDocumentationComment | TkIdentifier
  | TkKeyword keyword | TkNumber number_kind | TkWordText | TkBareEscape | TkSingleQuoted
  | TkDoubleQuoteStart | TkDoubleText | TkDoubleEscape | TkEscapedBrace | TkDoubleQuoteEnd
  | TkInterpolationStart | TkOperator operator | TkDelimiter delimiter
  | TkInvalid invalid_token_kind

record token =
  tk_kind :: token_kind
  tk_span :: span

definition token_text :: "source_file \<Rightarrow> token \<Rightarrow> (string, span_error) result option" where
  "token_text src t = source_slice src (tk_span t)"

definition is_adjacent_to :: "token \<Rightarrow> token \<Rightarrow> bool" where
  "is_adjacent_to t next \<longleftrightarrow>
     span_source_id (tk_span t) = span_source_id (tk_span next)
       \<and> span_end (tk_span t) = span_start (tk_span next)"

definition keyword_table :: "(string \<times> keyword) list" where
  "keyword_table =
    [(''action'', KwAction), (''break'', KwBreak), (''catch'', KwCatch),
     (''continue'', KwContinue), (''def'', KwDef), (''else'', KwElse), (''enum'', KwEnum),
     (''export'', KwExport), (''false'', KwFalse), (''for'', KwFor), (''if'', KwIf),
     (''import'', KwImport), (''in'', KwIn), (''let'', KwLet), (''match'', KwMatch),
     (''mut'', KwMut), (''null'', KwNull), (''return'', KwReturn), (''task'', KwTask),
     (''throw'', KwThrow), (''true'', KwTrue), (''try'', KwTry), (''type'', KwType),
     (''unset'', KwUnset), (''while'', KwWhile)]"

definition keyword_of :: "string \<Rightarrow> keyword option" where
  "keyword_of s = map_of keyword_table s"

definition is_ascii_digit :: "byte \<Rightarrow> bool" where
  "is_ascii_digit b \<longleftrightarrow> 48 \<le> u8 b \<and> u8 b \<le> 57"

definition is_ascii_hexdigit :: "byte \<Rightarrow> bool" where
  "is_ascii_hexdigit b \<longleftrightarrow>
     is_ascii_digit b \<or> 65 \<le> u8 b \<and> u8 b \<le> 70 \<or> 97 \<le> u8 b \<and> u8 b \<le> 102"

definition is_ascii_alphabetic :: "byte \<Rightarrow> bool" where
  "is_ascii_alphabetic b \<longleftrightarrow> 65 \<le> u8 b \<and> u8 b \<le> 90 \<or> 97 \<le> u8 b \<and> u8 b \<le> 122"

definition is_identifier_start :: "byte \<Rightarrow> bool" where
  "is_identifier_start b \<longleftrightarrow> is_ascii_alphabetic b \<or> b = CHR ''_''"

definition is_identifier_continue :: "byte \<Rightarrow> bool" where
  "is_identifier_continue b \<longleftrightarrow> is_identifier_start b \<or> is_ascii_digit b"

definition is_identifier :: "string \<Rightarrow> bool" where
  "is_identifier s \<longleftrightarrow>
     s \<noteq> [] \<and> is_identifier_start (hd s) \<and> (\<forall>b \<in> set s. is_identifier_continue b)
       \<and> keyword_of s = None"

subsection \<open>Unicode escapes\<close>

definition hex_value :: "byte \<Rightarrow> nat" where
  "hex_value b =
     (if is_ascii_digit b then u8 b - 48
      else if u8 b < 97 then u8 b - 55
      else u8 b - 87)"

text \<open>\<open>u32::from_str_radix\<close> at radix 16: an optional plus sign, hexadecimal digits, 32 bits.\<close>

definition from_str_radix16 :: "string \<Rightarrow> nat option" where
  "from_str_radix16 s =
     (let digits = (if s \<noteq> [] \<and> hd s = CHR ''+'' then tl s else s);
          v = foldl (\<lambda>n b. n * 16 + hex_value b) 0 digits
      in if digits \<noteq> [] \<and> list_all is_ascii_hexdigit digits \<and> v < 2 ^ 32 then Some v else None)"

definition strip_prefix :: "string \<Rightarrow> string \<Rightarrow> string option" where
  "strip_prefix p s = (if take (length p) s = p then Some (drop (length p) s) else None)"

definition strip_suffix :: "byte \<Rightarrow> string \<Rightarrow> string option" where
  "strip_suffix c s = (if s \<noteq> [] \<and> last s = c then Some (butlast s) else None)"

abbreviation BSLASH :: byte where
  "BSLASH \<equiv> CHR 0x5C"

abbreviation DQUOTE :: byte where
  "DQUOTE \<equiv> CHR 0x22"

abbreviation SQUOTE :: byte where
  "SQUOTE \<equiv> CHR 0x27"

abbreviation NUL :: byte where
  "NUL \<equiv> CHR 0x00"

abbreviation TAB :: byte where
  "TAB \<equiv> CHR 0x09"

definition unicode_escape_error :: "string \<Rightarrow> invalid_token_kind option" where
  "unicode_escape_error spelling =
     (case Option.bind (strip_prefix [BSLASH, CHR ''u'', CHR ''{''] spelling)
        (strip_suffix (CHR ''}'')) of
        None \<Rightarrow> Some InvMalformedUnicodeEscape
      | Some hexadecimal \<Rightarrow>
          if hexadecimal = [] then Some InvEmptyUnicodeEscape
          else if 6 < length hexadecimal then Some InvMalformedUnicodeEscape
          else (case from_str_radix16 hexadecimal of
              None \<Rightarrow> Some InvMalformedUnicodeEscape
            | Some v \<Rightarrow>
                if 0x10FFFF < v then Some InvUnicodeOutOfRange
                else if 0xD800 \<le> v \<and> v \<le> 0xDFFF then Some InvUnicodeSurrogate
                else None))"

subsection \<open>The lexer's state and its reading of the text\<close>

datatype lex_context = Normal | DoubleQuoted | Interpolation nat

record lexer =
  position :: nat
  tokens :: "token list"
  contexts :: "lex_context list"

definition lexer_new :: lexer where
  "lexer_new = \<lparr>position = 0, tokens = [], contexts = [Normal]\<rparr>"

definition bump :: "nat \<Rightarrow> lexer \<Rightarrow> lexer" where
  "bump n lx = lx\<lparr>position := position lx + n\<rparr>"

definition current_byte :: "source_file \<Rightarrow> lexer \<Rightarrow> byte option" where
  "current_byte src lx = get_opt (sf_text src) (position lx)"

definition peek_byte :: "source_file \<Rightarrow> nat \<Rightarrow> lexer \<Rightarrow> byte option" where
  "peek_byte src n lx = get_opt (sf_text src) (position lx + n)"

definition starts_with :: "source_file \<Rightarrow> string \<Rightarrow> lexer \<Rightarrow> bool option" where
  "starts_with src spelling lx =
     map_option (\<lambda>r. take (length spelling) r = spelling) (str_slice_from (sf_text src) (position lx))"

definition advance_scalar :: "source_file \<Rightarrow> lexer \<Rightarrow> lexer option" where
  "advance_scalar src lx =
     (case str_slice_from (sf_text src) (position lx) of
        None \<Rightarrow> None
      | Some r \<Rightarrow>
          (case str_next r of
             Utf8_Scalar cp _ \<Rightarrow> Some (bump (len_utf8 cp) lx)
           | _ \<Rightarrow> None))"

definition lx_push :: "source_file \<Rightarrow> token_kind \<Rightarrow> nat \<Rightarrow> lexer \<Rightarrow> lexer option" where
  "lx_push src kind start lx =
     (case source_span src start (position lx) of
        Err _ \<Rightarrow> None
      | Ok sp \<Rightarrow> Some (lx\<lparr>tokens := tokens lx @ [\<lparr>tk_kind = kind, tk_span = sp\<rparr>]\<rparr>))"

definition push_context :: "lex_context \<Rightarrow> lexer \<Rightarrow> lexer" where
  "push_context c lx = lx\<lparr>contexts := contexts lx @ [c]\<rparr>"

definition pop_context :: "lexer \<Rightarrow> lexer" where
  "pop_context lx = lx\<lparr>contexts := butlast (contexts lx)\<rparr>"

definition last_context :: "lexer \<Rightarrow> lex_context option" where
  "last_context lx = (if contexts lx = [] then None else Some (last (contexts lx)))"

text \<open>Short-circuit disjunction and conjunction of tests that may panic.\<close>

definition or_test :: "bool option \<Rightarrow> bool option \<Rightarrow> bool option" where
  "or_test a b = (case a of None \<Rightarrow> None | Some True \<Rightarrow> Some True | Some False \<Rightarrow> b)"

definition and_test :: "bool option \<Rightarrow> bool option \<Rightarrow> bool option" where
  "and_test a b = (case a of None \<Rightarrow> None | Some True \<Rightarrow> b | Some False \<Rightarrow> Some False)"

definition is_lone_carriage_return :: "source_file \<Rightarrow> lexer \<Rightarrow> bool option" where
  "is_lone_carriage_return src lx =
     and_test (starts_with src [CR] lx) (map_option Not (starts_with src [CR, LF] lx))"

definition is_boundary_kind :: "token_kind \<Rightarrow> bool" where
  "is_boundary_kind k =
     (case k of
        TkWhitespace \<Rightarrow> True
      | TkNewline \<Rightarrow> True
      | TkOperator op \<Rightarrow>
          op \<in> {OpSemicolon, OpPipe, OpPipeBoth, OpBackground, OpAnd, OpOr, OpLess, OpGreater,
                OpAppend, OpDuplicate}
      | TkInterpolationStart \<Rightarrow> True
      | TkDelimiter _ \<Rightarrow> True
      | _ \<Rightarrow> False)"

definition is_token_boundary :: "lexer \<Rightarrow> bool" where
  "is_token_boundary lx \<longleftrightarrow>
     position lx = 0 \<or> tokens lx \<noteq> [] \<and> is_boundary_kind (tk_kind (last (tokens lx)))"

text \<open>The loops: over bytes, and over scalars until a test stops it.\<close>

function skip_bytes :: "source_file \<Rightarrow> (byte \<Rightarrow> bool) \<Rightarrow> lexer \<Rightarrow> lexer" where
  "skip_bytes src p lx =
     (case current_byte src lx of
        Some b \<Rightarrow> if p b then skip_bytes src p (bump 1 lx) else lx
      | None \<Rightarrow> lx)"
  by pat_completeness auto
termination
  by (relation "measure (\<lambda>(src, p, lx). length (sf_text src) - position lx)")
    (auto simp: current_byte_def bump_def)

lemma advance_scalar_position:
  "advance_scalar src lx = Some lx' \<Longrightarrow>
     position lx < position lx' \<and> tokens lx' = tokens lx \<and> contexts lx' = contexts lx"
  by (auto simp: advance_scalar_def bump_def len_utf8_def split: option.splits utf8_step.splits)

function scan_until :: "source_file \<Rightarrow> (lexer \<Rightarrow> bool option) \<Rightarrow> lexer \<Rightarrow> lexer option" where
  "scan_until src stop lx =
     (if position lx < source_len src then
        (case stop lx of
           None \<Rightarrow> None
         | Some True \<Rightarrow> Some lx
         | Some False \<Rightarrow>
             (case advance_scalar src lx of
                None \<Rightarrow> None
              | Some lx' \<Rightarrow> scan_until src stop lx'))
      else Some lx)"
  by pat_completeness auto
termination
  by (relation "measure (\<lambda>(src, stop, lx). source_len src - position lx)")
    (auto dest: advance_scalar_position)

declare skip_bytes.simps [simp del] scan_until.simps [simp del]

subsection \<open>The rules\<close>

text \<open>A rule that pushed its token answers \<open>true\<close>.\<close>

definition emit :: "source_file \<Rightarrow> token_kind \<Rightarrow> nat \<Rightarrow> lexer \<Rightarrow> (bool \<times> lexer) option" where
  "emit src kind start lx = map_option (Pair True) (lx_push src kind start lx)"

definition lex_invalid_source_character :: "source_file \<Rightarrow> lexer \<Rightarrow> (bool \<times> lexer) option" where
  "lex_invalid_source_character src lx = do {
     nul \<leftarrow> starts_with src [NUL] lx;
     if nul then emit src (TkInvalid InvNul) (position lx) (bump 1 lx)
     else do {
       cr \<leftarrow> is_lone_carriage_return src lx;
       if cr then emit src (TkInvalid InvLoneCarriageReturn) (position lx) (bump 1 lx)
       else Some (False, lx)
     }
   }"

definition is_horizontal :: "byte \<Rightarrow> bool" where
  "is_horizontal b \<longleftrightarrow> b = CHR '' '' \<or> b = TAB"

definition lex_horizontal_trivia :: "source_file \<Rightarrow> lexer \<Rightarrow> (bool \<times> lexer) option" where
  "lex_horizontal_trivia src lx =
     (case current_byte src lx of
        Some b \<Rightarrow>
          if is_horizontal b
          then emit src TkWhitespace (position lx) (skip_bytes src is_horizontal lx)
          else Some (False, lx)
      | None \<Rightarrow> Some (False, lx))"

definition lex_newline :: "source_file \<Rightarrow> lexer \<Rightarrow> (bool \<times> lexer) option" where
  "lex_newline src lx = do {
     crlf \<leftarrow> starts_with src [CR, LF] lx;
     if crlf then emit src TkNewline (position lx) (bump 2 lx)
     else do {
       lf \<leftarrow> starts_with src [LF] lx;
       if lf then emit src TkNewline (position lx) (bump 1 lx)
       else Some (False, lx)
     }
   }"

definition lex_bare_escape :: "source_file \<Rightarrow> lexer \<Rightarrow> (bool \<times> lexer) option" where
  "lex_bare_escape src lx = do {
     bs \<leftarrow> starts_with src [BSLASH] lx;
     if \<not> bs then Some (False, lx)
     else do {
       let start = position lx;
       let lx1 = bump 1 lx;
       crlf \<leftarrow> starts_with src [CR, LF] lx1;
       if crlf then emit src TkLineContinuation start (bump 2 lx1)
       else do {
         lf \<leftarrow> starts_with src [LF] lx1;
         if lf then emit src TkLineContinuation start (bump 1 lx1)
         else do {
           dollar \<leftarrow> starts_with src ''$'' lx1;
           more \<leftarrow> and_test (Some (position lx1 < source_len src))
             (and_test (map_option Not (starts_with src [NUL] lx1))
               (map_option Not (is_lone_carriage_return src lx1)));
           lx2 \<leftarrow> (if more then advance_scalar src lx1 else Some lx1);
           emit src (if dollar then TkInvalid InvDollarSyntax else TkBareEscape) start lx2
         }
       }
     }
   }"

text \<open>\<open>str::rfind\<close> of an ASCII character: the byte position of its last occurrence.\<close>

definition rfind :: "byte \<Rightarrow> string \<Rightarrow> nat option" where
  "rfind c s = (case dropWhile (\<lambda>b. b \<noteq> c) (rev s) of [] \<Rightarrow> None | _ # r \<Rightarrow> Some (length r))"

definition starts_documentation_comment :: "source_file \<Rightarrow> nat \<Rightarrow> bool option" where
  "starts_documentation_comment src start = do {
     rest \<leftarrow> str_slice_from (sf_text src) start;
     if take 2 rest \<noteq> ''##'' then Some False
     else do {
       prior \<leftarrow> str_slice (sf_text src) 0 start;
       let begins = (case rfind LF prior of None \<Rightarrow> 0 | Some newline \<Rightarrow> newline + 1);
       lead \<leftarrow> str_slice (sf_text src) begins start;
       Some (list_all is_horizontal lead)
     }
   }"

definition comment_stops :: "source_file \<Rightarrow> lexer \<Rightarrow> bool option" where
  "comment_stops src lx =
     or_test (starts_with src [LF] lx)
       (or_test (starts_with src [CR, LF] lx)
         (or_test (is_lone_carriage_return src lx) (starts_with src [NUL] lx)))"

definition lex_comment :: "source_file \<Rightarrow> lexer \<Rightarrow> (bool \<times> lexer) option" where
  "lex_comment src lx = do {
     hash \<leftarrow> starts_with src ''#'' lx;
     if \<not> hash \<or> \<not> is_token_boundary lx then Some (False, lx)
     else do {
       lx1 \<leftarrow> scan_until src (comment_stops src) lx;
       doc \<leftarrow> starts_documentation_comment src (position lx);
       emit src (if doc then TkDocumentationComment else TkComment) (position lx) lx1
     }
   }"

definition single_quoted_stops :: "source_file \<Rightarrow> lexer \<Rightarrow> bool option" where
  "single_quoted_stops src lx =
     or_test (starts_with src [SQUOTE] lx)
       (or_test (starts_with src [NUL] lx) (is_lone_carriage_return src lx))"

text \<open>The loop stops at the closing quote, which the token takes in, or before a NUL or a lone CR.\<close>

definition lex_single_quoted :: "source_file \<Rightarrow> lexer \<Rightarrow> (bool \<times> lexer) option" where
  "lex_single_quoted src lx = do {
     quote \<leftarrow> starts_with src [SQUOTE] lx;
     if \<not> quote then Some (False, lx)
     else do {
       lx1 \<leftarrow> scan_until src (single_quoted_stops src) (bump 1 lx);
       closed \<leftarrow> and_test (Some (position lx1 < source_len src)) (starts_with src [SQUOTE] lx1);
       emit src TkSingleQuoted (position lx) (if closed then bump 1 lx1 else lx1)
     }
   }"

definition lex_double_quote_start :: "source_file \<Rightarrow> lexer \<Rightarrow> (bool \<times> lexer) option" where
  "lex_double_quote_start src lx = do {
     quote \<leftarrow> starts_with src [DQUOTE] lx;
     if \<not> quote then Some (False, lx)
     else do {
       (b, lx1) \<leftarrow> emit src TkDoubleQuoteStart (position lx) (bump 1 lx);
       Some (b, push_context DoubleQuoted lx1)
     }
   }"

definition lex_double_escape :: "source_file \<Rightarrow> lexer \<Rightarrow> (bool \<times> lexer) option" where
  "lex_double_escape src lx = do {
     bs \<leftarrow> starts_with src [BSLASH] lx;
     if \<not> bs then Some (False, lx)
     else do {
       let start = position lx;
       let lx1 = bump 1 lx;
       crlf \<leftarrow> starts_with src [CR, LF] lx1;
       if crlf then emit src TkLineContinuation start (bump 2 lx1)
       else do {
         lf \<leftarrow> starts_with src [LF] lx1;
         if lf then emit src TkLineContinuation start (bump 1 lx1)
         else do {
           u \<leftarrow> starts_with src ''u{'' lx1;
           if u then do {
             let lx2 = skip_bytes src is_ascii_hexdigit (bump 2 lx1);
             close \<leftarrow> starts_with src ''}'' lx2;
             let lx3 = (if close then bump 1 lx2 else lx2);
             spelling \<leftarrow> str_slice (sf_text src) start (position lx3);
             emit src
               (case unicode_escape_error spelling of None \<Rightarrow> TkDoubleEscape | Some k \<Rightarrow> TkInvalid k)
               start lx3
           }
           else (case current_byte src lx1 of
               Some b \<Rightarrow>
                 if b \<in> {BSLASH, DQUOTE, CHR ''n'', CHR ''r'', CHR ''t'', CHR ''0''}
                 then emit src TkDoubleEscape start (bump 1 lx1)
                 else do {
                   lx2 \<leftarrow> advance_scalar src lx1;
                   emit src (TkInvalid InvUnknownDoubleEscape) start lx2
                 }
             | None \<Rightarrow> emit src (TkInvalid InvUnknownDoubleEscape) start lx1)
         }
       }
     }
   }"

definition lex_removed_dollar_syntax :: "source_file \<Rightarrow> lexer \<Rightarrow> (bool \<times> lexer) option" where
  "lex_removed_dollar_syntax src lx = do {
     dollar \<leftarrow> starts_with src ''$'' lx;
     if \<not> dollar then Some (False, lx)
     else emit src (TkInvalid InvDollarSyntax) (position lx) (bump 1 lx)
   }"

definition lex_double_quoted_brace :: "source_file \<Rightarrow> lexer \<Rightarrow> (bool \<times> lexer) option" where
  "lex_double_quoted_brace src lx = do {
     escaped \<leftarrow> or_test (starts_with src ''{{'' lx) (starts_with src ''}}'' lx);
     if escaped then emit src TkEscapedBrace (position lx) (bump 2 lx)
     else do {
       open_brace \<leftarrow> starts_with src ''{'' lx;
       if open_brace then do {
         (b, lx1) \<leftarrow> emit src TkInterpolationStart (position lx) (bump 1 lx);
         Some (b, push_context (Interpolation 0) lx1)
       }
       else do {
         close_brace \<leftarrow> starts_with src ''}'' lx;
         if close_brace
         then emit src (TkInvalid InvUnmatchedInterpolationBrace) (position lx) (bump 1 lx)
         else Some (False, lx)
       }
     }
   }"

definition operator_table :: "(string \<times> operator) list" where
  "operator_table =
    [(''...'', OpSpread), (''..='', OpRangeInclusive), (''&&'', OpAnd), (''||'', OpOr),
     (''|&'', OpPipeBoth), (''>>'', OpAppend), (''>&'', OpDuplicate), (''->'', OpArrow),
     (''=>'', OpMatchArrow), (''=='', OpEqual), (''!='', OpNotEqual), (''<='', OpLessEqual),
     (''>='', OpGreaterEqual), (''+='', OpAddAssign), (''-='', OpSubtractAssign),
     (''*='', OpMultiplyAssign), (''/='', OpDivideAssign), (''%='', OpRemainderAssign),
     (''..'', OpRange), ('';'', OpSemicolon), (''|'', OpPipe), (''&'', OpBackground),
     (''<'', OpLess), (''>'', OpGreater), (''='', OpAssign), (''+'', OpPlus), (''-'', OpMinus),
     (''*'', OpStar), (''/'', OpSlash), (''%'', OpPercent), (''!'', OpBang), (''.'', OpDot),
     ('','', OpComma), ('':'', OpColon), (''^'', OpCaret)]"

fun find_operator ::
  "source_file \<Rightarrow> lexer \<Rightarrow> (string \<times> operator) list \<Rightarrow> (string \<times> operator) option option" where
  "find_operator src lx [] = Some None"
| "find_operator src lx ((spelling, op) # rest) = do {
     b \<leftarrow> starts_with src spelling lx;
     if b then Some (Some (spelling, op)) else find_operator src lx rest
   }"

definition delimiter_of :: "byte \<Rightarrow> delimiter option" where
  "delimiter_of b =
     (if b = CHR ''('' then Some LeftParenthesis
      else if b = CHR '')'' then Some RightParenthesis
      else if b = CHR ''{'' then Some LeftBrace
      else if b = CHR ''}'' then Some RightBrace
      else if b = CHR ''['' then Some LeftBracket
      else if b = CHR '']'' then Some RightBracket
      else None)"

definition close_interpolation_if_needed :: "source_file \<Rightarrow> lexer \<Rightarrow> (bool \<times> lexer) option" where
  "close_interpolation_if_needed src lx =
     (if last_context lx = Some (Interpolation 0) \<and> current_byte src lx = Some (CHR ''}'')
      then do {
        (b, lx1) \<leftarrow> emit src (TkDelimiter RightBrace) (position lx) (bump 1 lx);
        Some (b, pop_context lx1)
      }
      else Some (False, lx))"

definition note_nested_interpolation :: "delimiter \<Rightarrow> lexer \<Rightarrow> lexer" where
  "note_nested_interpolation d lx =
     (case last_context lx of
        Some (Interpolation nested) \<Rightarrow>
          if d = LeftBrace then push_context (Interpolation (nested + 1)) (pop_context lx)
          else if d = RightBrace \<and> 0 < nested
          then push_context (Interpolation (nested - 1)) (pop_context lx)
          else lx
      | _ \<Rightarrow> lx)"

definition lex_operator_or_delimiter :: "source_file \<Rightarrow> lexer \<Rightarrow> (bool \<times> lexer) option" where
  "lex_operator_or_delimiter src lx = do {
     (closed, lx0) \<leftarrow> close_interpolation_if_needed src lx;
     if closed then Some (True, lx0)
     else do {
       found \<leftarrow> find_operator src lx0 operator_table;
       case found of
         Some (spelling, op) \<Rightarrow> emit src (TkOperator op) (position lx0) (bump (length spelling) lx0)
       | None \<Rightarrow>
           (case Option.bind (current_byte src lx0) delimiter_of of
              None \<Rightarrow> Some (False, lx0)
            | Some d \<Rightarrow>
                emit src (TkDelimiter d) (position lx0) (bump 1 (note_nested_interpolation d lx0)))
     }
   }"

definition lex_identifier :: "source_file \<Rightarrow> lexer \<Rightarrow> (bool \<times> lexer) option" where
  "lex_identifier src lx =
     (case current_byte src lx of
        Some b \<Rightarrow>
          if is_identifier_start b then do {
            let lx1 = skip_bytes src is_identifier_continue (bump 1 lx);
            name \<leftarrow> str_slice (sf_text src) (position lx) (position lx1);
            emit src (case keyword_of name of None \<Rightarrow> TkIdentifier | Some k \<Rightarrow> TkKeyword k)
              (position lx) lx1
          }
          else Some (False, lx)
      | None \<Rightarrow> Some (False, lx))"

definition consume_digits :: "source_file \<Rightarrow> (byte \<Rightarrow> bool) \<Rightarrow> lexer \<Rightarrow> lexer" where
  "consume_digits src accepts lx = skip_bytes src (\<lambda>b. accepts b \<or> b = CHR ''_'') lx"

definition exponent_has_digits :: "source_file \<Rightarrow> lexer \<Rightarrow> bool" where
  "exponent_has_digits src lx =
     (let off = (if peek_byte src 1 lx \<in> {Some (CHR ''+''), Some (CHR ''-'')} then 2 else 1)
      in case peek_byte src off lx of None \<Rightarrow> False | Some b \<Rightarrow> is_ascii_digit b)"

text \<open>The fraction and the exponent of a decimal literal, after its leading digits.\<close>

definition lex_fraction :: "source_file \<Rightarrow> number_kind \<times> lexer \<Rightarrow> number_kind \<times> lexer" where
  "lex_fraction src = (\<lambda>(kind, lx).
     if current_byte src lx = Some (CHR ''.'')
        \<and> (case peek_byte src 1 lx of None \<Rightarrow> False | Some b \<Rightarrow> is_ascii_digit b)
     then (NumFloat, consume_digits src is_ascii_digit (bump 1 lx))
     else (kind, lx))"

definition lex_exponent :: "source_file \<Rightarrow> number_kind \<times> lexer \<Rightarrow> number_kind \<times> lexer" where
  "lex_exponent src = (\<lambda>(kind, lx).
     if current_byte src lx \<in> {Some (CHR ''e''), Some (CHR ''E'')} \<and> exponent_has_digits src lx
     then
       let lx1 = bump 1 lx;
           lx2 = (if current_byte src lx1 \<in> {Some (CHR ''+''), Some (CHR ''-'')}
                  then bump 1 lx1 else lx1)
       in (NumFloat, consume_digits src is_ascii_digit lx2)
     else (kind, lx))"

definition lex_number :: "source_file \<Rightarrow> lexer \<Rightarrow> (bool \<times> lexer) option" where
  "lex_number src lx =
     (case current_byte src lx of
        Some b \<Rightarrow>
          if is_ascii_digit b then do {
            let start = position lx;
            hex \<leftarrow> or_test (starts_with src ''0x'' lx) (starts_with src ''0X'' lx);
            if hex
            then emit src (TkNumber NumInteger) start
                   (consume_digits src is_ascii_hexdigit (bump 2 lx))
            else do {
              oct \<leftarrow> or_test (starts_with src ''0o'' lx) (starts_with src ''0O'' lx);
              if oct
              then emit src (TkNumber NumInteger) start
                     (consume_digits src (\<lambda>c. 48 \<le> u8 c \<and> u8 c \<le> 55) (bump 2 lx))
              else do {
                bin \<leftarrow> or_test (starts_with src ''0b'' lx) (starts_with src ''0B'' lx);
                if bin
                then emit src (TkNumber NumInteger) start
                       (consume_digits src (\<lambda>c. c = CHR ''0'' \<or> c = CHR ''1'') (bump 2 lx))
                else
                  (case lex_exponent src (lex_fraction src
                          (NumInteger, consume_digits src is_ascii_digit lx)) of
                     (kind, lx1) \<Rightarrow> emit src (TkNumber kind) start lx1)
              }
            }
          }
          else Some (False, lx)
      | None \<Rightarrow> Some (False, lx))"

definition operator_or_delimiter_starts_here :: "source_file \<Rightarrow> lexer \<Rightarrow> bool" where
  "operator_or_delimiter_starts_here src lx =
     (case current_byte src lx of
        None \<Rightarrow> False
      | Some b \<Rightarrow> b \<in> set '';|&<>(){}[]=+-*/%!.,:^'')"

definition word_text_stops :: "source_file \<Rightarrow> lexer \<Rightarrow> bool option" where
  "word_text_stops src lx =
     (case current_byte src lx of
        None \<Rightarrow> None
      | Some b \<Rightarrow>
          Some (b \<in> {CHR '' '', TAB, LF, CR, BSLASH, SQUOTE, DQUOTE}
            \<or> operator_or_delimiter_starts_here src lx
            \<or> (b = CHR ''#'' \<and> is_token_boundary lx)
            \<or> b = NUL))"

definition lex_word_text :: "source_file \<Rightarrow> lexer \<Rightarrow> lexer option" where
  "lex_word_text src lx = do {
     lx1 \<leftarrow> scan_until src (word_text_stops src) lx;
     lx2 \<leftarrow> (if position lx1 = position lx then advance_scalar src lx1 else Some lx1);
     lx_push src TkWordText (position lx) lx2
   }"

subsection \<open>One step and the run\<close>

text \<open>\<open>a || b\<close> of two rules: the second runs where the first does not recognise its token.\<close>

definition or_else ::
  "(lexer \<Rightarrow> (bool \<times> lexer) option) \<Rightarrow> (lexer \<Rightarrow> (bool \<times> lexer) option) \<Rightarrow> lexer
     \<Rightarrow> (bool \<times> lexer) option" where
  "or_else f g lx =
     (case f lx of
        None \<Rightarrow> None
      | Some (True, lx1) \<Rightarrow> Some (True, lx1)
      | Some (False, lx1) \<Rightarrow> g lx1)"

definition normal_rules :: "source_file \<Rightarrow> lexer \<Rightarrow> (bool \<times> lexer) option" where
  "normal_rules src =
     or_else (lex_invalid_source_character src)
    (or_else (lex_horizontal_trivia src)
    (or_else (lex_newline src)
    (or_else (lex_bare_escape src)
    (or_else (lex_comment src)
    (or_else (lex_single_quoted src)
    (or_else (lex_double_quote_start src)
    (or_else (lex_removed_dollar_syntax src)
    (or_else (lex_operator_or_delimiter src)
    (or_else (lex_identifier src)
             (lex_number src))))))))))"

definition lex_normal :: "source_file \<Rightarrow> lexer \<Rightarrow> lexer option" where
  "lex_normal src lx = do {
     (done, lx1) \<leftarrow> normal_rules src lx;
     if done then Some lx1 else lex_word_text src lx1
   }"

definition double_text_stops :: "source_file \<Rightarrow> lexer \<Rightarrow> bool option" where
  "double_text_stops src lx =
     or_test (starts_with src [DQUOTE] lx)
    (or_test (starts_with src [BSLASH] lx)
    (or_test (starts_with src ''{'' lx)
    (or_test (starts_with src ''}'' lx)
    (or_test (starts_with src [NUL] lx)
             (is_lone_carriage_return src lx)))))"

definition double_quoted_rules :: "source_file \<Rightarrow> lexer \<Rightarrow> (bool \<times> lexer) option" where
  "double_quoted_rules src =
     or_else (lex_invalid_source_character src)
    (or_else (lex_double_escape src)
             (lex_double_quoted_brace src))"

definition lex_double_quoted :: "source_file \<Rightarrow> lexer \<Rightarrow> lexer option" where
  "lex_double_quoted src lx = do {
     quote \<leftarrow> starts_with src [DQUOTE] lx;
     if quote then map_option pop_context (lx_push src TkDoubleQuoteEnd (position lx) (bump 1 lx))
     else do {
       (done, lx1) \<leftarrow> double_quoted_rules src lx;
       if done then Some lx1
       else do {
         lx2 \<leftarrow> scan_until src (double_text_stops src) lx1;
         lx_push src TkDoubleText (position lx1) lx2
       }
     }
   }"

definition lex_step :: "source_file \<Rightarrow> lexer \<Rightarrow> lexer option" where
  "lex_step src lx =
     (case last_context lx of
        Some DoubleQuoted \<Rightarrow> lex_double_quoted src lx
      | _ \<Rightarrow> lex_normal src lx)"

text \<open>
  The loop of \<open>run_with_control\<close>. \<open>cancelled n\<close> is the answer of the \<open>n\<close>-th poll of the
  cancellation callback; \<open>Some None\<close> is a cancelled run, \<open>None\<close> the panic of the progress assertion
  or of a step.
\<close>

function run_loop ::
  "source_file \<Rightarrow> (nat \<Rightarrow> bool) \<Rightarrow> nat \<Rightarrow> lexer \<Rightarrow> token list option option" where
  "run_loop src cancelled n lx =
     (if position lx < source_len src then
        (if cancelled n then Some None
         else (case lex_step src lx of
             None \<Rightarrow> None
           | Some lx1 \<Rightarrow>
               if position lx < position lx1 then run_loop src cancelled (n + 1) lx1 else None))
      else Some (if cancelled n then None else Some (tokens lx)))"
  by pat_completeness auto
termination
  by (relation "measure (\<lambda>(src, c, n, lx). source_len src - position lx)") auto

declare run_loop.simps [simp del]

definition lex_opaal_with_control ::
  "source_file \<Rightarrow> (nat \<Rightarrow> bool) \<Rightarrow> token list option option" where
  "lex_opaal_with_control src cancelled = run_loop src cancelled 0 lexer_new"

definition lex_opaal :: "source_file \<Rightarrow> token list option" where
  "lex_opaal src = Option.bind (lex_opaal_with_control src (\<lambda>_. False)) (\<lambda>r. r)"

end
