(* ===== verification/Lexer_Correct.thy ===== *)
theory Lexer_Correct
  imports Lexer
begin

section \<open>The lexer returns and its tokens tile the source\<close>

text \<open>
  The contract every rule of the lexer meets is the locale \<open>lex_rule\<close>: at a character boundary
  before the end of a valid text the rule returns, and either leaves the lexer alone or emits one
  nonempty token that starts where the lexer stood and ends at the boundary where it stands now,
  with the context stack moved as the token's kind says. The rules are composed by \<open>or_else\<close>,
  which keeps the contract, so the two rule lists of the lexer meet it, and with them every step.
\<close>

abbreviation ahead :: "source_file \<Rightarrow> lexer \<Rightarrow> string" where
  "ahead src lx \<equiv> drop (position lx) (sf_text src)"

definition ready :: "source_file \<Rightarrow> lexer \<Rightarrow> bool" where
  "ready src lx \<longleftrightarrow> valid_utf8 (sf_text src) \<and> is_char_boundary (sf_text src) (position lx)"

lemma readyD:
  assumes "ready src lx"
  shows "valid_utf8 (sf_text src)" "is_char_boundary (sf_text src) (position lx)"
    and "position lx \<le> length (sf_text src)"
  using assms is_char_boundary_le by (auto simp: ready_def)

subsection \<open>Reading the text at a boundary\<close>

definition begins :: "string \<Rightarrow> string \<Rightarrow> bool" where
  "begins s t \<longleftrightarrow> take (length s) t = s"

lemma begins_Cons [simp]: "begins (c # s) t \<longleftrightarrow> t \<noteq> [] \<and> hd t = c \<and> begins s (tl t)"
  by (cases t) (auto simp: begins_def)

lemma begins_Nil [simp]: "begins [] t"
  by (simp add: begins_def)

lemma starts_with_ready [panic_free]: "ready src lx \<Longrightarrow> starts_with src s lx = Some (begins s (ahead src lx))"
  by (simp add: starts_with_def readyD panic_free begins_def)

lemma or_test_Some [simp]: "or_test (Some a) (Some b) = Some (a \<or> b)"
  by (cases a) (simp_all add: or_test_def)

lemma and_test_Some [simp]: "and_test (Some a) (Some b) = Some (a \<and> b)"
  by (cases a) (simp_all add: and_test_def)

lemma and_test_False [simp]: "and_test (Some False) b = Some False"
  by (simp add: and_test_def)

definition lone_cr :: "string \<Rightarrow> bool" where
  "lone_cr t \<longleftrightarrow> begins [CR] t \<and> \<not> begins [CR, LF] t"

lemma is_lone_carriage_return_ready [panic_free]:
  "ready src lx \<Longrightarrow> is_lone_carriage_return src lx = Some (lone_cr (ahead src lx))"
  by (auto simp: is_lone_carriage_return_def panic_free lone_cr_def)

lemma current_byte_rest: "current_byte src lx = (case ahead src lx of [] \<Rightarrow> None | b # _ \<Rightarrow> Some b)"
proof (cases "position lx < length (sf_text src)")
  case True
  then show ?thesis by (simp add: current_byte_def get_opt_def Cons_nth_drop_Suc [symmetric])
qed (simp add: current_byte_def get_opt_def)

lemma current_byte_Some: "current_byte src lx = Some b \<longleftrightarrow> ahead src lx \<noteq> [] \<and> hd (ahead src lx) = b"
  by (auto simp: current_byte_rest split: list.splits)

lemma position_bump [simp]: "position (bump n lx) = position lx + n"
  and tokens_bump [simp]: "tokens (bump n lx) = tokens lx"
  and contexts_bump [simp]: "contexts (bump n lx) = contexts lx"
  by (simp_all add: bump_def)

lemma rest_bump: "ahead src (bump n lx) = drop n (ahead src lx)"
  by (simp add: add.commute)

lemma ready_bump1:
  assumes "ready src lx" "ahead src lx \<noteq> []" "u8 (hd (ahead src lx)) < 0x80"
  shows "ready src (bump 1 lx)"
proof -
  from assms(2) have lt: "position lx < length (sf_text src)" by simp
  with assms(3) have "u8 (sf_text src ! position lx) < 0x80" by (simp add: hd_drop_conv_nth)
  from boundary_ascii [OF readyD(1,2) [OF assms(1)] lt this] readyD(1) [OF assms(1)]
  show ?thesis by (simp add: ready_def)
qed

lemma ready_begins:
  assumes "ready src lx" "begins s (ahead src lx)" "list_all (\<lambda>c. u8 c < 0x80) s"
  shows "ready src (bump (length s) lx)"
  using assms
proof (induction s arbitrary: lx)
  case Nil
  then show ?case by (simp add: bump_def)
next
  case (Cons c s)
  then have r: "ready src (bump 1 lx)" by (intro ready_bump1) auto
  have "begins s (ahead src (bump 1 lx))"
    using Cons.prems(2) by (simp add: rest_bump drop_Suc tl_drop)
  from Cons.IH [OF r this] Cons.prems(3) show ?case by (simp add: bump_def)
qed

lemma advance_scalar_ready:
  assumes "ready src lx" "position lx < length (sf_text src)"
  obtains lx' where "advance_scalar src lx = Some lx'" "ready src lx'" "position lx < position lx'"
    "lx' = lx\<lparr>position := position lx'\<rparr>"
proof -
  note r = readyD [OF assms(1)]
  obtain cp w where n: "str_next (ahead src lx) = Utf8_Scalar cp w"
    using boundary_next_scalar [OF r(1,2) assms(2)] by blast
  have w: "w = len_utf8 cp" "1 \<le> w"
    using str_next_decode(2) [OF n] str_next_ScalarD(2) [OF n] by auto
  have "advance_scalar src lx = Some (bump w lx)"
    using n w by (simp add: advance_scalar_def r panic_free)
  moreover have "ready src (bump w lx)"
    using boundary_step [OF r(1,2) n] r(1) by (simp add: ready_def)
  ultimately show thesis using w by (intro that) (auto simp: bump_def)
qed

subsection \<open>The loops\<close>

definition moved :: "source_file \<Rightarrow> lexer \<Rightarrow> lexer \<Rightarrow> bool" where
  "moved src lx lx' \<longleftrightarrow>
     ready src lx' \<and> position lx \<le> position lx' \<and> lx' = lx\<lparr>position := position lx'\<rparr>"

lemma moved_refl: "ready src lx \<Longrightarrow> moved src lx lx"
  by (simp add: moved_def)

lemma moved_trans: "moved src a b \<Longrightarrow> moved src b c \<Longrightarrow> moved src a c"
  unfolding moved_def by (metis (no_types, lifting) lexer.update_convs(1) lexer.surjective order_trans)

lemma moved_bump: "ready src (bump n lx) \<Longrightarrow> moved src lx (bump n lx)"
  by (simp add: moved_def bump_def)

lemma movedD:
  assumes "moved src lx lx'"
  shows "ready src lx'" "position lx \<le> position lx'" "tokens lx' = tokens lx"
    and "contexts lx' = contexts lx"
proof -
  from assms have e: "lx' = lx\<lparr>position := position lx'\<rparr>" by (simp add: moved_def)
  show "tokens lx' = tokens lx" "contexts lx' = contexts lx" by (subst e, simp)+
qed (use assms in \<open>simp_all add: moved_def\<close>)

lemma skip_bytes_moved:
  assumes "ready src lx" "\<And>b. p b \<Longrightarrow> u8 b < 0x80"
  shows "moved src lx (skip_bytes src p lx)"
  using assms
proof (induction src p lx rule: skip_bytes.induct)
  case (1 src p lx)
  show ?case
  proof (cases "\<exists>b. current_byte src lx = Some b \<and> p b")
    case True
    then obtain b where b: "current_byte src lx = Some b" "p b" by blast
    then have r: "ready src (bump 1 lx)"
      using "1.prems" by (intro ready_bump1) (auto simp: current_byte_Some)
    with "1.IH" [OF b] "1.prems"(2) have "moved src (bump 1 lx) (skip_bytes src p (bump 1 lx))" by blast
    with moved_bump [OF r] b show ?thesis
      by (simp add: skip_bytes.simps [of src p lx]) (rule moved_trans)
  next
    case False
    with "1.prems"(1) show ?thesis
      by (subst skip_bytes.simps) (auto intro: moved_refl split: option.splits)
  qed
qed

lemma skip_bytes_progress:
  assumes "ready src lx" "\<And>b. p b \<Longrightarrow> u8 b < 0x80" "current_byte src lx = Some b" "p b"
  shows "position lx < position (skip_bytes src p lx)"
proof -
  have "ready src (bump 1 lx)"
    using assms by (intro ready_bump1) (auto simp: current_byte_Some)
  then have "position (bump 1 lx) \<le> position (skip_bytes src p (bump 1 lx))"
    by (rule movedD(2) [OF skip_bytes_moved]) (rule assms(2))
  with assms(3,4) show ?thesis by (simp add: skip_bytes.simps [of src p lx])
qed

definition total_stop :: "source_file \<Rightarrow> (lexer \<Rightarrow> bool option) \<Rightarrow> bool" where
  "total_stop src stop \<longleftrightarrow>
     (\<forall>lx. ready src lx \<and> position lx < length (sf_text src) \<longrightarrow> stop lx \<noteq> None)"

lemma scan_until_moved:
  assumes "ready src lx" "total_stop src stop"
  shows "\<exists>lx'. scan_until src stop lx = Some lx' \<and> moved src lx lx'
    \<and> (stop lx = Some False \<and> position lx < length (sf_text src) \<longrightarrow> position lx < position lx')"
  using assms
proof (induction src stop lx rule: scan_until.induct)
  case (1 src stop lx)
  show ?case
  proof (cases "position lx < length (sf_text src)")
    case False
    with "1.prems"(1) show ?thesis
      by (simp add: scan_until.simps [of src stop lx] source_len_def moved_refl)
  next
    case True
    with "1.prems" obtain b where b: "stop lx = Some b" by (auto simp: total_stop_def)
    show ?thesis
    proof (cases "b")
      case True
      with b "1.prems"(1) show ?thesis
        by (simp add: scan_until.simps [of src stop lx] moved_refl)
    next
      case False
      from advance_scalar_ready [OF "1.prems"(1) True]
      obtain lx1 where a: "advance_scalar src lx = Some lx1" "ready src lx1"
        "position lx < position lx1" "lx1 = lx\<lparr>position := position lx1\<rparr>" .
      from "1.IH" [OF _ b _ a(1) a(2) "1.prems"(2)] True False
      obtain lx' where i: "scan_until src stop lx1 = Some lx'" "moved src lx1 lx'"
        by (auto simp: source_len_def)
      have "moved src lx lx1" using a by (simp add: moved_def)
      from moved_trans [OF this i(2)] movedD(2) [OF i(2)] i(1) a b False True show ?thesis
        by (simp add: scan_until.simps [of src stop lx] source_len_def)
    qed
  qed
qed

subsection \<open>The contract of a rule\<close>

text \<open>How the kind of a token moves the context stack.\<close>

definition ctx_next :: "token_kind \<Rightarrow> lex_context list \<Rightarrow> lex_context list" where
  "ctx_next k cs =
     (case k of
        TkDoubleQuoteStart \<Rightarrow> cs @ [DoubleQuoted]
      | TkDoubleQuoteEnd \<Rightarrow> butlast cs
      | TkInterpolationStart \<Rightarrow> cs @ [Interpolation 0]
      | TkDelimiter d \<Rightarrow>
          (if cs = [] then cs
           else case last cs of
             Interpolation n \<Rightarrow>
               if d = LeftBrace then butlast cs @ [Interpolation (n + 1)]
               else if d = RightBrace
               then (if n = 0 then butlast cs else butlast cs @ [Interpolation (n - 1)])
               else cs
           | _ \<Rightarrow> cs)
      | _ \<Rightarrow> cs)"

definition quoted_kind :: "token_kind \<Rightarrow> bool" where
  "quoted_kind k =
     (case k of
        TkDoubleQuoteEnd \<Rightarrow> True
      | TkInvalid _ \<Rightarrow> True
      | TkLineContinuation \<Rightarrow> True
      | TkDoubleEscape \<Rightarrow> True
      | TkEscapedBrace \<Rightarrow> True
      | TkInterpolationStart \<Rightarrow> True
      | TkDoubleText \<Rightarrow> True
      | _ \<Rightarrow> False)"

definition normal_kind :: "token_kind \<Rightarrow> bool" where
  "normal_kind k =
     (case k of
        TkDoubleQuoteEnd \<Rightarrow> False
      | TkDoubleEscape \<Rightarrow> False
      | TkEscapedBrace \<Rightarrow> False
      | TkInterpolationStart \<Rightarrow> False
      | TkDoubleText \<Rightarrow> False
      | _ \<Rightarrow> True)"

definition emits :: "source_file \<Rightarrow> (token_kind \<Rightarrow> bool) \<Rightarrow> lexer \<Rightarrow> lexer \<Rightarrow> bool" where
  "emits src K lx lx' \<longleftrightarrow>
     ready src lx' \<and> position lx < position lx' \<and>
     (\<exists>k. K k \<and> contexts lx' = ctx_next k (contexts lx) \<and>
       tokens lx' = tokens lx @
         [\<lparr>tk_kind = k,
           tk_span = \<lparr>span_source_id = sf_id src, span_start = position lx,
                      span_end = position lx'\<rparr>\<rparr>])"

definition outcome ::
  "source_file \<Rightarrow> (token_kind \<Rightarrow> bool) \<Rightarrow> lexer \<Rightarrow> (bool \<times> lexer) option \<Rightarrow> bool" where
  "outcome src K lx r \<longleftrightarrow>
     (\<exists>b lx'. r = Some (b, lx') \<and> (if b then emits src K lx lx' else lx' = lx))"

locale lex_rule =
  fixes src :: source_file
    and rule :: "lexer \<Rightarrow> (bool \<times> lexer) option"
    and kinds :: "token_kind \<Rightarrow> bool"
  assumes rule_outcome:
    "ready src lx \<Longrightarrow> position lx < length (sf_text src) \<Longrightarrow> outcome src kinds lx (rule lx)"
begin

lemma rule_cases:
  assumes "ready src lx" "position lx < length (sf_text src)"
  obtains (token) lx' where "rule lx = Some (True, lx')" "emits src kinds lx lx'"
    | (none) "rule lx = Some (False, lx)"
  using rule_outcome [OF assms] by (auto simp: outcome_def split: if_splits)

lemma rule_returns:
  "ready src lx \<Longrightarrow> position lx < length (sf_text src) \<Longrightarrow> rule lx \<noteq> None"
  by (rule rule_cases) auto

end

lemma outcome_token: "emits src K lx lx' \<Longrightarrow> outcome src K lx (Some (True, lx'))"
  unfolding outcome_def by (intro exI [of _ True] exI [of _ lx']) simp

lemma or_else_rule:
  assumes "lex_rule src f K" "lex_rule src g K"
  shows "lex_rule src (or_else f g) K"
proof
  fix lx
  assume r: "ready src lx" "position lx < length (sf_text src)"
  show "outcome src K lx (or_else f g lx)"
  proof (rule lex_rule.rule_cases [OF assms(1) r])
    fix lx'
    assume "f lx = Some (True, lx')" "emits src K lx lx'"
    then show ?thesis by (simp add: or_else_def outcome_token)
  next
    assume "f lx = Some (False, lx)"
    with lex_rule.rule_outcome [OF assms(2) r] show ?thesis by (simp add: or_else_def)
  qed
qed

lemma outcome_none [simp, intro]: "outcome src K lx (Some (False, lx))"
  unfolding outcome_def by (intro exI [of _ False] exI [of _ lx]) simp

lemma outcome_if [intro!]:
  "(P \<Longrightarrow> outcome src K lx a) \<Longrightarrow> (\<not> P \<Longrightarrow> outcome src K lx b) \<Longrightarrow>
     outcome src K lx (if P then a else b)"
  by simp

lemma emit_eq:
  assumes "is_char_boundary (sf_text src) st" "ready src lx" "st \<le> position lx"
  shows "emit src k st lx = Some (True, lx\<lparr>tokens := tokens lx @
    [\<lparr>tk_kind = k,
      tk_span = \<lparr>span_source_id = sf_id src, span_start = st, span_end = position lx\<rparr>\<rparr>]\<rparr>)"
  using assms(1,3) readyD [OF assms(2)] is_char_boundary_le [OF assms(1)]
  by (simp add: emit_def lx_push_def source_span_def validate_offset_def)

definition plain_kind :: "token_kind \<Rightarrow> bool" where
  "plain_kind k \<longleftrightarrow> (\<forall>cs. ctx_next k cs = cs)"

lemma outcome_emit:
  assumes "ready src lx" "moved src lx lx1" "position lx < position lx1" "K k" "plain_kind k"
  shows "outcome src K lx (emit src k (position lx) lx1)"
  using emit_eq [OF readyD(2) [OF assms(1)], of lx1 k] movedD [OF assms(2)] assms
  by (auto simp: outcome_def emits_def plain_kind_def ready_def)

lemma moved_begins:
  assumes "ready src lx" "begins s (ahead src lx)" "list_all (\<lambda>c. u8 c < 0x80) s" "length s = n"
  shows "moved src lx (bump n lx)"
  using moved_bump [OF ready_begins [OF assms(1-3)]] assms(4) by simp

lemma outcome_emit_begins:
  assumes "ready src lx" "begins s (ahead src lx)" "list_all (\<lambda>c. u8 c < 0x80) s" "length s = n"
    and "0 < n" "K k" "plain_kind k"
  shows "outcome src K lx (emit src k (position lx) (bump n lx))"
  using outcome_emit [OF assms(1) moved_begins [OF assms(1-4)]] assms by simp

lemma plain_kinds [simp]:
  "plain_kind TkWhitespace" "plain_kind TkNewline" "plain_kind TkLineContinuation"
  "plain_kind TkComment" "plain_kind TkDocumentationComment" "plain_kind TkIdentifier"
  "plain_kind (TkKeyword w)" "plain_kind (TkNumber n)" "plain_kind TkWordText"
  "plain_kind TkBareEscape" "plain_kind TkSingleQuoted" "plain_kind TkDoubleText"
  "plain_kind TkDoubleEscape" "plain_kind TkEscapedBrace" "plain_kind (TkOperator op)"
  "plain_kind (TkInvalid i)"
  by (simp_all add: plain_kind_def ctx_next_def)

lemma normal_kinds [simp]:
  "normal_kind TkWhitespace" "normal_kind TkNewline" "normal_kind TkLineContinuation"
  "normal_kind TkComment" "normal_kind TkDocumentationComment" "normal_kind TkIdentifier"
  "normal_kind (TkKeyword w)" "normal_kind (TkNumber n)" "normal_kind TkWordText"
  "normal_kind TkBareEscape" "normal_kind TkSingleQuoted" "normal_kind TkDoubleQuoteStart"
  "normal_kind (TkOperator op)" "normal_kind (TkDelimiter d)" "normal_kind (TkInvalid i)"
  by (simp_all add: normal_kind_def)

lemma quoted_kinds [simp]:
  "quoted_kind TkDoubleQuoteEnd" "quoted_kind (TkInvalid i)" "quoted_kind TkLineContinuation"
  "quoted_kind TkDoubleEscape" "quoted_kind TkEscapedBrace" "quoted_kind TkInterpolationStart"
  "quoted_kind TkDoubleText"
  by (simp_all add: quoted_kind_def)

subsection \<open>Every rule meets the contract\<close>

lemma lone_cr_begins: "lone_cr t \<Longrightarrow> begins [CR] t"
  by (simp add: lone_cr_def)

lemma lex_invalid_source_character_rule:
  assumes "\<And>i. K (TkInvalid i)"
  shows "lex_rule src (lex_invalid_source_character src) K"
proof
  fix lx
  assume r: "ready src lx"
  show "outcome src K lx (lex_invalid_source_character src lx)"
    unfolding lex_invalid_source_character_def
    by (simp add: panic_free r assms outcome_emit_begins [OF r] outcome_emit_begins [OF r lone_cr_begins]
        del: begins_Cons)
qed

lemma lex_horizontal_trivia_rule: "lex_rule src (lex_horizontal_trivia src) normal_kind"
proof
  fix lx
  assume r: "ready src lx"
  have a: "\<And>b. is_horizontal b \<Longrightarrow> u8 b < 0x80" by (auto simp: is_horizontal_def)
  show "outcome src normal_kind lx (lex_horizontal_trivia src lx)"
    by (auto simp: lex_horizontal_trivia_def skip_bytes_progress [OF r a]
        intro!: outcome_emit [OF r skip_bytes_moved [OF r a]] split: option.split)
qed

lemma lex_newline_rule: "lex_rule src (lex_newline src) normal_kind"
proof
  fix lx
  assume r: "ready src lx"
  show "outcome src normal_kind lx (lex_newline src lx)"
    unfolding lex_newline_def
    by (simp add: panic_free r outcome_emit_begins [OF r] del: begins_Cons)
qed

lemma lex_removed_dollar_syntax_rule: "lex_rule src (lex_removed_dollar_syntax src) normal_kind"
proof
  fix lx
  assume r: "ready src lx"
  show "outcome src normal_kind lx (lex_removed_dollar_syntax src lx)"
    unfolding lex_removed_dollar_syntax_def
    by (simp add: panic_free r outcome_emit_begins [OF r] del: begins_Cons)
qed

lemma ready_first: "ready src lx \<Longrightarrow> begins [c] (ahead src lx) \<Longrightarrow> u8 c < 0x80 \<Longrightarrow> ready src (bump 1 lx)"
  using ready_begins [of src lx "[c]"] by simp

lemma outcome_emit2:
  assumes "ready src lx" "begins [c] (ahead src lx)" "u8 c < 0x80" "moved src (bump 1 lx) lx2"
    and "K k" "plain_kind k"
  shows "outcome src K lx (emit src k (position lx) lx2)"
proof (rule outcome_emit [OF assms(1)])
  show "moved src lx lx2"
    using moved_trans [OF moved_bump assms(4)] ready_first [OF assms(1-3)] by simp
  show "position lx < position lx2" using movedD(2) [OF assms(4)] by simp
qed (use assms in auto)

lemma outcome_advance:
  assumes "ready src lx" "begins [c] (ahead src lx)" "u8 c < 0x80"
    and "position (bump 1 lx) < length (sf_text src)" "K k" "plain_kind k"
  shows "outcome src K lx (Option.bind (advance_scalar src (bump 1 lx)) (emit src k (position lx)))"
proof -
  have r1: "ready src (bump 1 lx)" using ready_first [OF assms(1-3)] .
  from advance_scalar_ready [OF r1] assms(4)
  obtain lx2 where "advance_scalar src (bump 1 lx) = Some lx2" "moved src (bump 1 lx) lx2"
    by (metis moved_def less_imp_le)
  with outcome_emit2 [OF assms(1-3)] assms(5,6) show ?thesis by simp
qed

lemma lex_bare_escape_rule: "lex_rule src (lex_bare_escape src) normal_kind"
proof
  fix lx
  assume r: "ready src lx"
  let ?lx1 = "bump 1 lx"
  show "outcome src normal_kind lx (lex_bare_escape src lx)"
  proof (cases "begins [BSLASH] (ahead src lx)")
    case True
    have r1: "ready src ?lx1" using ready_first [OF r True] by simp
    show ?thesis
      unfolding lex_bare_escape_def
      using True
      by (simp add: panic_free r r1 Let_def outcome_emit2 [OF r True] moved_begins [OF r1]
          moved_refl [OF r1] outcome_advance [OF r True] source_len_def if_distrib [of "Option.bind _"]
          del: begins_Cons One_nat_def position_bump split: if_split)
  next
    case False
    then show ?thesis by (simp add: lex_bare_escape_def panic_free r del: begins_Cons)
  qed
qed

lemma rfind_Some:
  assumes "rfind c s = Some i"
  shows "i < length s" "s ! i = c"
proof -
  obtain x r where d: "dropWhile (\<lambda>b. b \<noteq> c) (rev s) = x # r" and i: "i = length r"
    using assms by (auto simp: rfind_def split: list.splits)
  have x: "x = c" using hd_dropWhile [of "\<lambda>b. b \<noteq> c" "rev s"] d by auto
  have "rev s = takeWhile (\<lambda>b. b \<noteq> c) (rev s) @ x # r" using d by (metis takeWhile_dropWhile_id)
  then have "s = rev r @ x # rev (takeWhile (\<lambda>b. b \<noteq> c) (rev s))"
    by (metis append.assoc append_Cons append_Nil rev.simps(2) rev_append rev_rev_ident)
  then have "length (rev r) < length s \<and> s ! length (rev r) = x"
    by (metis add_Suc_right length_Cons length_append less_add_Suc1 nth_append_length)
  with i x show "i < length s" "s ! i = c" by simp_all
qed

lemma starts_documentation_comment_returns:
  assumes "ready src lx"
  shows "starts_documentation_comment src (position lx) \<noteq> None"
proof -
  note r = readyD [OF assms]
  define st where "st = (case rfind LF (take (position lx) (sf_text src)) of None \<Rightarrow> 0
      | Some newline \<Rightarrow> newline + 1)"
  have st: "st \<le> position lx \<and> is_char_boundary (sf_text src) st"
  proof (cases "rfind LF (take (position lx) (sf_text src))")
    case (Some i)
    from rfind_Some [OF this] r(3) have i: "i < position lx" "sf_text src ! i = LF" "i < length (sf_text src)"
      by auto
    have "is_char_boundary (sf_text src) (Suc i)"
      using boundary_ascii [OF r(1) ascii_is_boundary] i by simp
    with Some i show ?thesis by (simp add: st_def)
  qed (simp add: st_def)
  with r have "str_slice (sf_text src) st (position lx) \<noteq> None"
    by (simp add: panic_free del: not_None_eq)
  moreover have "str_slice (sf_text src) 0 (position lx) = Some (take (position lx) (sf_text src))"
    and "str_slice_from (sf_text src) (position lx) = Some (ahead src lx)"
    using r by (simp_all add: panic_free)
  ultimately show ?thesis
    by (auto simp: starts_documentation_comment_def Let_def st_def)
qed

lemma comment_stops_ready [panic_free]:
  "ready src lx \<Longrightarrow> comment_stops src lx =
     Some (begins [LF] (ahead src lx) \<or> begins [CR, LF] (ahead src lx) \<or> lone_cr (ahead src lx)
       \<or> begins [NUL] (ahead src lx))"
  by (simp add: comment_stops_def panic_free del: begins_Cons)

lemma lex_comment_rule: "lex_rule src (lex_comment src) normal_kind"
proof
  fix lx
  assume r: "ready src lx" and lt: "position lx < length (sf_text src)"
  show "outcome src normal_kind lx (lex_comment src lx)"
  proof (cases "begins ''#'' (ahead src lx) \<and> is_token_boundary lx")
    case True
    have t: "total_stop src (comment_stops src)" by (simp add: total_stop_def panic_free)
    have "comment_stops src lx = Some False"
      using True by (auto simp: comment_stops_ready [OF r] lone_cr_def)
    with scan_until_moved [OF r t] lt
    obtain lx1 where sc: "scan_until src (comment_stops src) lx = Some lx1" "moved src lx lx1"
      "position lx < position lx1" by auto
    obtain d where "starts_documentation_comment src (position lx) = Some d"
      using starts_documentation_comment_returns [OF r] by auto
    with True sc outcome_emit [OF r sc(2,3)] show ?thesis
      by (simp add: lex_comment_def panic_free r del: begins_Cons)
  next
    case False
    then show ?thesis by (auto simp: lex_comment_def panic_free r simp del: begins_Cons)
  qed
qed

lemma single_quoted_stops_ready [panic_free]:
  "ready src lx \<Longrightarrow> single_quoted_stops src lx =
     Some (begins [SQUOTE] (ahead src lx) \<or> begins [NUL] (ahead src lx) \<or> lone_cr (ahead src lx))"
  by (simp add: single_quoted_stops_def panic_free del: begins_Cons)

lemma lex_single_quoted_rule: "lex_rule src (lex_single_quoted src) normal_kind"
proof
  fix lx
  assume r: "ready src lx"
  show "outcome src normal_kind lx (lex_single_quoted src lx)"
  proof (cases "begins [SQUOTE] (ahead src lx)")
    case True
    have r1: "ready src (bump 1 lx)" using ready_first [OF r True] by simp
    have t: "total_stop src (single_quoted_stops src)" by (simp add: total_stop_def panic_free)
    from scan_until_moved [OF r1 t] obtain lx1
      where sc: "scan_until src (single_quoted_stops src) (bump 1 lx) = Some lx1"
        and m: "moved src (bump 1 lx) lx1" by blast
    note r2 = movedD(1) [OF m]
    have "begins [SQUOTE] (ahead src lx1) \<Longrightarrow> moved src (bump 1 lx) (bump 1 lx1)"
      using moved_trans [OF m moved_bump] ready_first [OF r2] by simp
    with m sc True show ?thesis
      by (simp add: lex_single_quoted_def panic_free r r2 outcome_emit2 [OF r True]
          del: begins_Cons One_nat_def)
  next
    case False
    then show ?thesis by (simp add: lex_single_quoted_def panic_free r del: begins_Cons)
  qed
qed

lemma emits_push:
  assumes "ready src lx" "begins [c] (ahead src lx)" "u8 c < 0x80" "K k"
    and "\<And>lx1. contexts (f lx1) = ctx_next k (contexts lx1)"
    and "\<And>lx1. tokens (f lx1) = tokens lx1" "\<And>lx1. position (f lx1) = position lx1"
  shows "outcome src K lx (Option.bind (emit src k (position lx) (bump 1 lx)) (\<lambda>(b, lx1). Some (b, f lx1)))"
  using emit_eq [OF readyD(2) [OF assms(1)] ready_first [OF assms(1-3)], of k]
    ready_first [OF assms(1-3)] assms(4-7)
  by (auto simp: emits_def ready_def intro!: outcome_token)

lemma lex_double_quote_start_rule: "lex_rule src (lex_double_quote_start src) normal_kind"
proof
  fix lx
  assume r: "ready src lx"
  show "outcome src normal_kind lx (lex_double_quote_start src lx)"
    using emits_push [OF r, of DQUOTE normal_kind TkDoubleQuoteStart "push_context DoubleQuoted"]
    by (simp add: lex_double_quote_start_def panic_free r push_context_def ctx_next_def del: begins_Cons)
qed

lemma hexdigit_ascii: "is_ascii_hexdigit b \<Longrightarrow> u8 b < 0x80"
  and digit_ascii: "is_ascii_digit b \<Longrightarrow> u8 b < 0x80"
  and identifier_ascii: "is_identifier_continue b \<Longrightarrow> u8 b < 0x80"
  by (auto simp: is_ascii_hexdigit_def is_ascii_digit_def is_identifier_continue_def
      is_identifier_start_def is_ascii_alphabetic_def)

lemma lex_double_escape_rule: "lex_rule src (lex_double_escape src) quoted_kind"
proof
  fix lx
  assume r: "ready src lx"
  let ?lx1 = "bump 1 lx"
  show "outcome src quoted_kind lx (lex_double_escape src lx)"
  proof (cases "begins [BSLASH] (ahead src lx)")
    case True
    have r1: "ready src ?lx1" using ready_first [OF r True] by simp
    note e = outcome_emit2 [OF r True]
    have byte: "outcome src quoted_kind lx
        (case current_byte src ?lx1 of
           None \<Rightarrow> emit src (TkInvalid InvUnknownDoubleEscape) (position lx) ?lx1
         | Some b \<Rightarrow>
             if b \<in> {BSLASH, DQUOTE, CHR ''n'', CHR ''r'', CHR ''t'', CHR ''0''}
             then emit src TkDoubleEscape (position lx) (bump 1 ?lx1)
             else Option.bind (advance_scalar src ?lx1)
                    (emit src (TkInvalid InvUnknownDoubleEscape) (position lx)))"
    proof (cases "current_byte src ?lx1")
      case None
      then show ?thesis by (simp add: e moved_refl [OF r1] del: One_nat_def)
    next
      case (Some b)
      then have b: "begins [b] (ahead src ?lx1)" by (simp add: current_byte_Some)
      have lt: "position ?lx1 < length (sf_text src)" using Some by (simp add: current_byte_def)
      have "b \<in> {BSLASH, DQUOTE, CHR ''n'', CHR ''r'', CHR ''t'', CHR ''0''} \<Longrightarrow> moved src ?lx1 (bump 1 ?lx1)"
        using b by (intro moved_begins [OF r1, of "[b]"]) auto
      with Some lt show ?thesis
        by (simp add: e outcome_advance [OF r True] del: One_nat_def position_bump)
    qed
    have uni: "outcome src quoted_kind lx
        (Option.bind (starts_with src ''}'' lx2) (\<lambda>close.
           Option.bind (str_slice (sf_text src) (position lx) (position (if close then bump 1 lx2 else lx2)))
             (\<lambda>spelling. emit src
               (case unicode_escape_error spelling of None \<Rightarrow> TkDoubleEscape | Some k \<Rightarrow> TkInvalid k)
               (position lx) (if close then bump 1 lx2 else lx2))))"
      if m: "moved src ?lx1 lx2" for lx2
    proof -
      define lx3 where "lx3 = (if begins ''}'' (ahead src lx2) then bump 1 lx2 else lx2)"
      have m3: "moved src ?lx1 lx3"
        using moved_trans [OF m moved_bump] ready_first [OF movedD(1) [OF m]] m by (simp add: lx3_def)
      have "position lx \<le> position lx3" using movedD(2) [OF m3] by simp
      then have "str_slice (sf_text src) (position lx) (position lx3)
          = Some (take (position lx3 - position lx) (ahead src lx))"
        using readyD(2) [OF r] readyD(2) [OF movedD(1) [OF m3]] by (simp add: panic_free)
      moreover have "starts_with src ''}'' lx2 = Some (begins ''}'' (ahead src lx2))"
        by (rule starts_with_ready [OF movedD(1) [OF m]])
      ultimately show ?thesis
        by (simp add: lx3_def [symmetric] e m3 del: begins_Cons One_nat_def split: option.split)
    qed
    have "begins ''u{'' (ahead src ?lx1) \<Longrightarrow> moved src ?lx1 (skip_bytes src is_ascii_hexdigit (bump 2 ?lx1))"
      using moved_trans [OF moved_begins [OF r1, of "''u{''" 2] skip_bytes_moved]
        ready_begins [OF r1, of "''u{''"] hexdigit_ascii by (simp add: numeral_2_eq_2)
    with uni byte True show ?thesis
      unfolding lex_double_escape_def
      by (simp add: panic_free r r1 Let_def e moved_begins [OF r1] del: begins_Cons One_nat_def)
  next
    case False
    then show ?thesis by (simp add: lex_double_escape_def panic_free r del: begins_Cons)
  qed
qed

lemma lex_double_quoted_brace_rule: "lex_rule src (lex_double_quoted_brace src) quoted_kind"
proof
  fix lx
  assume r: "ready src lx"
  show "outcome src quoted_kind lx (lex_double_quoted_brace src lx)"
    using emits_push [OF r, of "CHR ''{''" quoted_kind TkInterpolationStart "push_context (Interpolation 0)"]
    unfolding lex_double_quoted_brace_def
    by (auto simp: panic_free r push_context_def ctx_next_def outcome_emit_begins [OF r]
        simp del: begins_Cons)
qed


lemma find_operator_ready [panic_free]:
  "ready src lx \<Longrightarrow> find_operator src lx tbl = Some (find (\<lambda>(s, op). begins s (ahead src lx)) tbl)"
  by (induction tbl) (auto simp: panic_free)

lemma operator_spelling: "(s, op) \<in> set operator_table \<Longrightarrow> s \<noteq> [] \<and> list_all (\<lambda>c. u8 c < 0x80) s"
  by (auto simp: operator_table_def)

lemma find_operator_found:
  assumes "find (\<lambda>(s, op). begins s t) operator_table = Some (s, op)"
  shows "begins s t" "s \<noteq> []" "list_all (\<lambda>c. u8 c < 0x80) s"
proof -
  from assms have "(s, op) \<in> set operator_table \<and> begins s t"
    by (auto simp: find_Some_iff) (metis nth_mem)
  with operator_spelling show "begins s t" "s \<noteq> []" "list_all (\<lambda>c. u8 c < 0x80) s" by blast+
qed

lemma delimiter_byte: "delimiter_of b = Some d \<Longrightarrow> u8 b < 0x80"
  by (auto simp: delimiter_of_def split: if_splits)

lemma delimiter_right_brace: "delimiter_of b = Some RightBrace \<longleftrightarrow> b = CHR ''}''"
  by (auto simp: delimiter_of_def)

lemma outcome_emit_ctx:
  assumes "ready src lx" "begins [c] (ahead src lx)" "u8 c < 0x80" "K k"
    and "position lx1 = position lx + 1" "tokens lx1 = tokens lx"
    and "contexts lx1 = ctx_next k (contexts lx)"
  shows "outcome src K lx (emit src k (position lx) lx1)"
proof -
  have r1: "ready src lx1"
    using ready_first [OF assms(1-3)] assms(5) by (simp add: ready_def)
  show ?thesis
    using emit_eq [OF readyD(2) [OF assms(1)] r1, of k] r1 assms
    by (auto simp: emits_def ready_def intro!: outcome_token)
qed

lemma note_nested_next:
  assumes "d = RightBrace \<Longrightarrow> last_context lx \<noteq> Some (Interpolation 0)"
  shows "contexts (note_nested_interpolation d lx) = ctx_next (TkDelimiter d) (contexts lx)"
    and "position (note_nested_interpolation d lx) = position lx"
    and "tokens (note_nested_interpolation d lx) = tokens lx"
  using assms
  by (auto simp: note_nested_interpolation_def ctx_next_def last_context_def push_context_def
      pop_context_def split: lex_context.splits)

lemma lex_operator_or_delimiter_rule: "lex_rule src (lex_operator_or_delimiter src) normal_kind"
proof
  fix lx
  assume r: "ready src lx"
  show "outcome src normal_kind lx (lex_operator_or_delimiter src lx)"
  proof (cases "last_context lx = Some (Interpolation 0) \<and> current_byte src lx = Some (CHR ''}'')")
    case True
    then have b: "begins ''}'' (ahead src lx)" by (auto simp: current_byte_Some)
    have "contexts (pop_context lx1) = ctx_next (TkDelimiter RightBrace) (contexts lx1)"
      if "contexts lx1 = contexts lx" for lx1 :: lexer
      using True that by (auto simp: pop_context_def ctx_next_def last_context_def split: if_splits)
    with emit_eq [OF readyD(2) [OF r] ready_first [OF r b], of "TkDelimiter RightBrace"]
      ready_first [OF r b] True show ?thesis
      by (auto simp: lex_operator_or_delimiter_def close_interpolation_if_needed_def emits_def
          ready_def pop_context_def intro!: outcome_token)
  next
    case False
    then have c: "close_interpolation_if_needed src lx = Some (False, lx)"
      by (auto simp: close_interpolation_if_needed_def)
    have op: "outcome src normal_kind lx (emit src (TkOperator op) (position lx) (bump (length s) lx))"
      if "find (\<lambda>(s, op). begins s (ahead src lx)) operator_table = Some (s, op)" for s op
      using find_operator_found [OF that] by (intro outcome_emit_begins [OF r]) auto
    have de: "outcome src normal_kind lx
        (emit src (TkDelimiter d) (position lx) (bump 1 (note_nested_interpolation d lx)))"
      if "current_byte src lx = Some b" "delimiter_of b = Some d" for b d
    proof -
      have "d = RightBrace \<Longrightarrow> last_context lx \<noteq> Some (Interpolation 0)"
        using False that by (auto simp: delimiter_right_brace)
      from note_nested_next [OF this] that delimiter_byte [OF that(2)] show ?thesis
        by (intro outcome_emit_ctx [OF r, of b]) (auto simp: current_byte_Some)
    qed
    show ?thesis
      by (auto simp: lex_operator_or_delimiter_def c panic_free r op de bind_eq_Some_conv
          simp del: One_nat_def split: option.split)
  qed
qed

lemma str_slice_moved:
  assumes "ready src lx" "moved src lx lx1"
  shows "str_slice (sf_text src) (position lx) (position lx1)
    = Some (take (position lx1 - position lx) (ahead src lx))"
  using readyD(2) [OF assms(1)] readyD(2) [OF movedD(1) [OF assms(2)]] movedD(2) [OF assms(2)]
  by (simp add: panic_free)

lemma lex_identifier_rule: "lex_rule src (lex_identifier src) normal_kind"
proof
  fix lx
  assume r: "ready src lx"
  show "outcome src normal_kind lx (lex_identifier src lx)"
  proof (cases "\<exists>b. current_byte src lx = Some b \<and> is_identifier_start b")
    case True
    then obtain b where b: "current_byte src lx = Some b" "is_identifier_start b" by blast
    then have f: "begins [b] (ahead src lx)" "u8 b < 0x80"
      using identifier_ascii [of b] by (auto simp: current_byte_Some is_identifier_continue_def)
    have m: "moved src (bump 1 lx) (skip_bytes src is_identifier_continue (bump 1 lx))"
      by (rule skip_bytes_moved [OF ready_first [OF r f] identifier_ascii])
    from moved_trans [OF moved_bump this] ready_first [OF r f]
    have "moved src lx (skip_bytes src is_identifier_continue (bump 1 lx))" by simp
    from str_slice_moved [OF r this] b outcome_emit2 [OF r f m] show ?thesis
      by (simp add: lex_identifier_def Let_def del: One_nat_def split: option.split)
  next
    case False
    then show ?thesis by (auto simp: lex_identifier_def split: option.split)
  qed
qed

lemma consume_digits_moved:
  assumes "ready src lx" "\<And>b. p b \<Longrightarrow> u8 b < 0x80"
  shows "moved src lx (consume_digits src p lx)"
  unfolding consume_digits_def using assms by (intro skip_bytes_moved) auto

lemma lex_fraction_moved: "ready src lx \<Longrightarrow> moved src lx (snd (lex_fraction src (k, lx)))"
  using moved_trans [OF moved_bump consume_digits_moved [OF _ digit_ascii]] ready_first [of src lx "CHR ''.''"]
  by (auto simp: lex_fraction_def moved_refl current_byte_Some)

lemma lex_exponent_moved:
  assumes "ready src lx"
  shows "moved src lx (snd (lex_exponent src (k, lx)))"
proof (cases "current_byte src lx \<in> {Some (CHR ''e''), Some (CHR ''E'')} \<and> exponent_has_digits src lx")
  case True
  let ?lx1 = "bump 1 lx"
  let ?lx2 = "if current_byte src ?lx1 \<in> {Some (CHR ''+''), Some (CHR ''-'')} then bump 1 ?lx1 else ?lx1"
  have r1: "ready src ?lx1"
    using True assms by (intro ready_bump1) (auto simp: current_byte_Some)
  have r2: "ready src ?lx2"
    using r1 ready_bump1 [OF r1] by (auto simp: current_byte_Some)
  have m2: "moved src ?lx1 ?lx2"
    using r1 r2 by (auto intro: moved_refl moved_bump)
  have "moved src lx (consume_digits src is_ascii_digit ?lx2)"
    by (rule moved_trans [OF moved_bump [OF r1] moved_trans [OF m2 consume_digits_moved [OF r2 digit_ascii]]])
  with True show ?thesis by (simp add: lex_exponent_def Let_def del: One_nat_def)
next
  case False
  with assms show ?thesis by (auto simp: lex_exponent_def moved_refl)
qed

lemma lex_number_rule: "lex_rule src (lex_number src) normal_kind"
proof
  fix lx
  assume r: "ready src lx"
  let ?d = "consume_digits src is_ascii_digit lx"
  have radix: "outcome src normal_kind lx
      (emit src (TkNumber NumInteger) (position lx) (consume_digits src p (bump 2 lx)))"
    if "begins [a, b] (ahead src lx)" "u8 a < 0x80" "u8 b < 0x80" "\<And>b. p b \<Longrightarrow> u8 b < 0x80" for a b p
  proof (rule outcome_emit [OF r])
    have r2: "ready src (bump 2 lx)" using ready_begins [OF r that(1)] that(2,3) by (simp add: numeral_2_eq_2)
    have m: "moved src (bump 2 lx) (consume_digits src p (bump 2 lx))"
      by (rule consume_digits_moved [OF r2 that(4)])
    show "moved src lx (consume_digits src p (bump 2 lx))" by (rule moved_trans [OF moved_bump [OF r2] m])
    show "position lx < position (consume_digits src p (bump 2 lx))" using movedD(2) [OF m] by simp
  qed simp_all
  have decimal: "outcome src normal_kind lx
      (case lex_exponent src (lex_fraction src (NumInteger, ?d)) of
         (kind, lx1) \<Rightarrow> emit src (TkNumber kind) (position lx) lx1)"
    if b: "current_byte src lx = Some b" "is_ascii_digit b" for b
  proof -
    obtain k1 lx1 where f: "lex_fraction src (NumInteger, ?d) = (k1, lx1)" by fastforce
    obtain k2 lx2 where e: "lex_exponent src (k1, lx1) = (k2, lx2)" by fastforce
    have m0: "moved src lx ?d" by (rule consume_digits_moved [OF r digit_ascii])
    have m1: "moved src ?d lx1" using lex_fraction_moved [OF movedD(1) [OF m0], of NumInteger] f by simp
    have m2: "moved src lx1 lx2" using lex_exponent_moved [OF movedD(1) [OF m1], of k1] e by simp
    have "position lx < position ?d"
      unfolding consume_digits_def using b digit_ascii by (intro skip_bytes_progress [OF r]) auto
    then have "position lx < position lx2" using movedD(2) [OF m1] movedD(2) [OF m2] by simp
    with outcome_emit [OF r moved_trans [OF m0 moved_trans [OF m1 m2]]] show ?thesis by (simp add: f e)
  qed
  show "outcome src normal_kind lx (lex_number src lx)"
  proof (cases "\<exists>b. current_byte src lx = Some b \<and> is_ascii_digit b")
    case True
    then obtain b where b: "current_byte src lx = Some b" "is_ascii_digit b" by blast
    have bits: "\<And>c. c = CHR ''0'' \<or> c = CHR ''1'' \<Longrightarrow> u8 c < 0x80" by auto
    have "begins ''0x'' (ahead src lx) \<or> begins ''0X'' (ahead src lx) \<Longrightarrow> outcome src normal_kind lx
        (emit src (TkNumber NumInteger) (position lx) (consume_digits src is_ascii_hexdigit (bump 2 lx)))"
      using radix [of "CHR ''0''" "CHR ''x''"] radix [of "CHR ''0''" "CHR ''X''"] hexdigit_ascii by auto
    moreover have "begins ''0o'' (ahead src lx) \<or> begins ''0O'' (ahead src lx) \<Longrightarrow> outcome src normal_kind lx
        (emit src (TkNumber NumInteger) (position lx)
          (consume_digits src (\<lambda>c. 48 \<le> u8 c \<and> u8 c \<le> 55) (bump 2 lx)))"
      using radix [of "CHR ''0''" "CHR ''o''" "\<lambda>c. 48 \<le> u8 c \<and> u8 c \<le> 55"]
        radix [of "CHR ''0''" "CHR ''O''" "\<lambda>c. 48 \<le> u8 c \<and> u8 c \<le> 55"] by auto
    moreover have "begins ''0b'' (ahead src lx) \<or> begins ''0B'' (ahead src lx) \<Longrightarrow> outcome src normal_kind lx
        (emit src (TkNumber NumInteger) (position lx)
          (consume_digits src (\<lambda>c. c = CHR ''0'' \<or> c = CHR ''1'') (bump 2 lx)))"
      using radix [OF _ _ _ bits, of "CHR ''0''" "CHR ''b''"] radix [OF _ _ _ bits, of "CHR ''0''" "CHR ''B''"]
      by auto
    ultimately show ?thesis
      using decimal [OF b] by (simp add: lex_number_def b panic_free r Let_def del: begins_Cons)
  next
    case False
    then show ?thesis by (auto simp: lex_number_def split: option.split)
  qed
qed

subsection \<open>The two rule lists and one step\<close>

lemma normal_rules_rule: "lex_rule src (normal_rules src) normal_kind"
  unfolding normal_rules_def
  by (intro or_else_rule lex_invalid_source_character_rule lex_horizontal_trivia_rule lex_newline_rule
      lex_bare_escape_rule lex_comment_rule lex_single_quoted_rule lex_double_quote_start_rule
      lex_removed_dollar_syntax_rule lex_operator_or_delimiter_rule lex_identifier_rule
      lex_number_rule normal_kinds)

lemma double_quoted_rules_rule: "lex_rule src (double_quoted_rules src) quoted_kind"
  unfolding double_quoted_rules_def
  by (intro or_else_rule lex_invalid_source_character_rule lex_double_escape_rule
      lex_double_quoted_brace_rule quoted_kinds)

interpretation normal: lex_rule src "normal_rules src" normal_kind for src
  by (rule normal_rules_rule)

interpretation quoted: lex_rule src "double_quoted_rules src" quoted_kind for src
  by (rule double_quoted_rules_rule)

lemma emit_answers_True: "emit src k st lx = Some (b, lx') \<Longrightarrow> b"
  by (auto simp: emit_def)

lemma bind_emit_True: "Option.bind (emit src k st lx) (\<lambda>(b, lx1). Some (b, f lx1)) = Some (b, lx') \<Longrightarrow> b"
  by (auto simp: emit_def bind_eq_Some_conv)

lemma double_text_progress:
  assumes r: "ready src lx" "\<not> begins [DQUOTE] (ahead src lx)"
    and n: "double_quoted_rules src lx = Some (False, lx1)"
    and lt: "position lx < length (sf_text src)"
  shows "double_text_stops src lx = Some False"
proof -
  have inv: "lex_invalid_source_character src lx = Some (False, lx)"
    and esc: "lex_double_escape src lx = Some (False, lx)"
    and br: "lex_double_quoted_brace src lx = Some (False, lx)"
    using n lex_rule.rule_outcome [OF lex_invalid_source_character_rule r(1) lt, of quoted_kind]
      lex_rule.rule_outcome [OF lex_double_escape_rule r(1) lt]
      lex_rule.rule_outcome [OF lex_double_quoted_brace_rule r(1) lt]
    by (auto simp: double_quoted_rules_def or_else_def outcome_def split: option.splits bool.splits if_splits)
  have "\<not> begins [NUL] (ahead src lx) \<and> \<not> lone_cr (ahead src lx)"
    using inv r(1)
    by (auto simp: lex_invalid_source_character_def panic_free simp del: begins_Cons
        dest: emit_answers_True split: if_splits)
  moreover have "\<not> begins [BSLASH] (ahead src lx)"
  proof
    assume b: "begins [BSLASH] (ahead src lx)"
    with ready_first [OF r(1)] have "ready src (bump 1 lx)" by simp
    with b esc r(1) show False
      by (auto simp: lex_double_escape_def panic_free bind_eq_Some_conv Let_def simp del: begins_Cons One_nat_def
          dest: emit_answers_True split: if_splits option.splits)
  qed
  moreover have "\<not> begins ''{'' (ahead src lx) \<and> \<not> begins ''}'' (ahead src lx)"
    using br r(1)
    by (auto simp: lex_double_quoted_brace_def panic_free simp del: begins_Cons
        dest: emit_answers_True bind_emit_True split: if_splits)
  ultimately show ?thesis
    using r by (simp add: double_text_stops_def panic_free del: begins_Cons)
qed

lemma lx_push_emits:
  assumes "ready src lx" "moved src lx lx1" "position lx < position lx1" "K k" "plain_kind k"
  obtains lx' where "lx_push src k (position lx) lx1 = Some lx'" "emits src K lx lx'"
  using outcome_emit [where K = K and k = k, OF assms]
  by (auto simp: outcome_def emit_def split: if_splits)

lemma lex_word_text_emits:
  assumes r: "ready src lx" and lt: "position lx < length (sf_text src)"
  obtains lx' where "lex_word_text src lx = Some lx'" "emits src normal_kind lx lx'"
proof -
  have "total_stop src (word_text_stops src)"
    by (auto simp: total_stop_def word_text_stops_def current_byte_def split: option.splits)
  from scan_until_moved [OF r this] obtain lx1
    where sc: "scan_until src (word_text_stops src) lx = Some lx1" and m: "moved src lx lx1" by blast
  show thesis
  proof (cases "position lx1 = position lx")
    case False
    with movedD(2) [OF m] have "position lx < position lx1" by simp
    from lx_push_emits [OF r m this, of normal_kind TkWordText] sc False that show ?thesis
      by (auto simp: lex_word_text_def)
  next
    case True
    with m have "lx1 = lx" by (simp add: moved_def)
    moreover obtain lx2 where a: "advance_scalar src lx = Some lx2" "moved src lx lx2" "position lx < position lx2"
      by (rule advance_scalar_ready [OF r lt]) (auto simp: moved_def)
    ultimately show ?thesis
      using lx_push_emits [OF r a(2,3), of normal_kind TkWordText] sc that by (auto simp: lex_word_text_def)
  qed
qed

lemma lex_normal_emits:
  assumes r: "ready src lx" and lt: "position lx < length (sf_text src)"
  obtains lx' where "lex_normal src lx = Some lx'" "emits src normal_kind lx lx'"
proof (rule normal.rule_cases [OF assms])
  fix lx'
  assume "normal_rules src lx = Some (True, lx')" "emits src normal_kind lx lx'"
  with that show thesis by (simp add: lex_normal_def)
next
  assume "normal_rules src lx = Some (False, lx)"
  with lex_word_text_emits [OF assms] that show thesis by (auto simp: lex_normal_def)
qed

lemma double_text_stops_total: "total_stop src (double_text_stops src)"
  by (simp add: total_stop_def double_text_stops_def panic_free)

lemma lex_double_quoted_emits:
  assumes r: "ready src lx" and lt: "position lx < length (sf_text src)"
  obtains lx' where "lex_double_quoted src lx = Some lx'" "emits src quoted_kind lx lx'"
proof (cases "begins [DQUOTE] (ahead src lx)")
  case True
  have "outcome src quoted_kind lx
      (Option.bind (emit src TkDoubleQuoteEnd (position lx) (bump 1 lx)) (\<lambda>(b, lx1). Some (b, pop_context lx1)))"
    by (rule emits_push [OF r True]) (simp_all add: pop_context_def ctx_next_def)
  with True that show thesis
    by (auto simp: lex_double_quoted_def panic_free r outcome_def emit_def bind_eq_Some_conv
        simp del: begins_Cons One_nat_def split: if_splits)
next
  case False
  show thesis
  proof (rule quoted.rule_cases [OF assms])
    fix lx'
    assume "double_quoted_rules src lx = Some (True, lx')" "emits src quoted_kind lx lx'"
    with False that show thesis by (simp add: lex_double_quoted_def panic_free r del: begins_Cons)
  next
    assume n: "double_quoted_rules src lx = Some (False, lx)"
    with scan_until_moved [OF r double_text_stops_total] double_text_progress [OF r False n lt] lt
    obtain lx2 where s: "scan_until src (double_text_stops src) lx = Some lx2" "moved src lx lx2"
      "position lx < position lx2" by auto
    from lx_push_emits [OF r s(2,3), of quoted_kind TkDoubleText] obtain lx3
      where "lx_push src TkDoubleText (position lx) lx2 = Some lx3" "emits src quoted_kind lx lx3" by auto
    with that s False n show thesis by (simp add: lex_double_quoted_def panic_free r del: begins_Cons)
  qed
qed

text \<open>The kinds a context admits.\<close>

definition admits :: "lex_context list \<Rightarrow> token_kind \<Rightarrow> bool" where
  "admits cs k \<longleftrightarrow> (if cs \<noteq> [] \<and> last cs = DoubleQuoted then quoted_kind k else normal_kind k)"

lemma lex_step_emits:
  assumes "ready src lx" "position lx < length (sf_text src)"
  obtains lx' where "lex_step src lx = Some lx'" "emits src (admits (contexts lx)) lx lx'"
proof (cases "last_context lx = Some DoubleQuoted")
  case True
  then have "admits (contexts lx) = quoted_kind"
    by (auto simp: admits_def last_context_def fun_eq_iff split: if_splits)
  with True that lex_double_quoted_emits [OF assms] show thesis by (auto simp: lex_step_def)
next
  case False
  then have "admits (contexts lx) = normal_kind"
    by (auto simp: admits_def last_context_def fun_eq_iff split: if_splits)
  moreover have "lex_step src lx = lex_normal src lx"
    using False by (auto simp: lex_step_def split: option.split lex_context.split)
  ultimately show thesis using that lex_normal_emits [OF assms] by auto
qed

subsection \<open>Token streams\<close>

text \<open>
  A token stream tiles the bytes from \<open>a\<close> to \<open>b\<close> when its spans are nonempty, lie in the source
  and follow each other without a gap. A context stack is well formed when it starts with
  \<open>Normal\<close> and then alternates between string literals and interpolations. A stream is lawful when
  the context reached by the tokens before it admits each token.
\<close>

fun tiles :: "source_id \<Rightarrow> nat \<Rightarrow> token list \<Rightarrow> nat \<Rightarrow> bool" where
  "tiles sid a [] b \<longleftrightarrow> a = b"
| "tiles sid a (t # ts) b \<longleftrightarrow>
     span_source_id (tk_span t) = sid \<and> span_start (tk_span t) = a \<and> a < span_end (tk_span t)
       \<and> tiles sid (span_end (tk_span t)) ts b"

definition stack_slot :: "nat \<Rightarrow> lex_context \<Rightarrow> bool" where
  "stack_slot i c \<longleftrightarrow>
     (if i = 0 then c = Normal else if odd i then c = DoubleQuoted
      else c \<noteq> Normal \<and> c \<noteq> DoubleQuoted)"

definition wf_stack :: "lex_context list \<Rightarrow> bool" where
  "wf_stack cs \<longleftrightarrow> cs \<noteq> [] \<and> (\<forall>i < length cs. stack_slot i (cs ! i))"

fun lawful :: "lex_context list \<Rightarrow> token list \<Rightarrow> bool" where
  "lawful cs [] \<longleftrightarrow> True"
| "lawful cs (t # ts) \<longleftrightarrow> admits cs (tk_kind t) \<and> lawful (ctx_next (tk_kind t) cs) ts"

definition stack_after :: "lex_context list \<Rightarrow> token list \<Rightarrow> lex_context list" where
  "stack_after cs ts = foldl (\<lambda>cs t. ctx_next (tk_kind t) cs) cs ts"

lemma stack_after_simps [simp]:
  "stack_after cs [] = cs" "stack_after cs (t # ts) = stack_after (ctx_next (tk_kind t) cs) ts"
  "stack_after cs (us @ ts) = stack_after (stack_after cs us) ts"
  by (simp_all add: stack_after_def)

lemma tiles_append: "tiles sid a (us @ ts) b \<longleftrightarrow> (\<exists>m. tiles sid a us m \<and> tiles sid m ts b)"
  by (induction us arbitrary: a) auto

lemma tiles_le: "tiles sid a ts b \<Longrightarrow> a \<le> b"
  by (induction ts arbitrary: a) fastforce+

lemma lawful_append: "lawful cs (us @ ts) \<longleftrightarrow> lawful cs us \<and> lawful (stack_after cs us) ts"
  by (induction us arbitrary: cs) auto

lemma wf_stack_snoc:
  "wf_stack (cs @ [c]) \<longleftrightarrow> (cs = [] \<or> wf_stack cs) \<and> stack_slot (length cs) c"
  by (auto simp: wf_stack_def nth_append less_Suc_eq)

lemma wf_stack_snoc2: "wf_stack (us @ [a, b]) \<longleftrightarrow> wf_stack (us @ [a]) \<and> stack_slot (Suc (length us)) b"
  using wf_stack_snoc [of "us @ [a]" b] by simp

lemma wf_stack_next:
  assumes "wf_stack cs" "admits cs k"
  shows "wf_stack (ctx_next k cs)"
proof -
  from assms(1) obtain us c where cs: "cs = us @ [c]" by (cases cs rule: rev_cases) (auto simp: wf_stack_def)
  with assms have w: "us = [] \<or> wf_stack us" "stack_slot (length us) c" "admits (us @ [c]) k"
    by (simp_all add: wf_stack_snoc)
  then show ?thesis
    by (cases k; cases c)
      (auto simp: cs ctx_next_def wf_stack_snoc wf_stack_snoc [of "[]", simplified]
        wf_stack_snoc2 wf_stack_snoc2 [of "[]", simplified] admits_def stack_slot_def quoted_kind_def normal_kind_def
        split: if_splits)
qed

lemma wf_stack_after: "wf_stack cs \<Longrightarrow> lawful cs ts \<Longrightarrow> wf_stack (stack_after cs ts)"
  by (induction ts arbitrary: cs) (auto simp: wf_stack_next)

text \<open>The lexer's invariant, and the stream a run still has to emit from a state.\<close>

definition lexer_inv :: "source_file \<Rightarrow> lexer \<Rightarrow> bool" where
  "lexer_inv src lx \<longleftrightarrow>
     ready src lx \<and> tiles (sf_id src) 0 (tokens lx) (position lx) \<and> lawful [Normal] (tokens lx)
       \<and> contexts lx = stack_after [Normal] (tokens lx)
       \<and> (\<forall>t \<in> set (tokens lx). is_char_boundary (sf_text src) (span_start (tk_span t))
           \<and> is_char_boundary (sf_text src) (span_end (tk_span t)))"

lemma lexer_inv_step:
  assumes "lexer_inv src lx" "emits src (admits (contexts lx)) lx lx'"
  shows "lexer_inv src lx'" "length (tokens lx') = length (tokens lx) + 1"
    "position lx < position lx'" "\<exists>t. tokens lx' = tokens lx @ [t]"
  using assms by (auto simp: lexer_inv_def emits_def ready_def tiles_append lawful_append)

lemma lexer_inv_new: "valid_utf8 (sf_text src) \<Longrightarrow> lexer_inv src lexer_new"
  by (simp add: lexer_inv_def lexer_new_def ready_def)

lemma ex_le_Suc: "(\<exists>i \<le> Suc m. P i) \<longleftrightarrow> P 0 \<or> (\<exists>i \<le> m. P (Suc i))"
  by (metis Suc_le_mono le0 not0_implies_Suc)

lemma run_loop_total:
  assumes "lexer_inv src lx"
  shows "\<exists>lx'. lexer_inv src lx' \<and> position lx' = source_len src
    \<and> length (tokens lx) \<le> length (tokens lx')
    \<and> (\<forall>c n. run_loop src c n lx
      = Some (if \<exists>i \<le> length (tokens lx') - length (tokens lx). c (n + i) then None else Some (tokens lx')))"
  using assms
proof (induction "source_len src - position lx" arbitrary: lx rule: less_induct)
  case less
  note r = less.prems [unfolded lexer_inv_def]
  show ?case
  proof (cases "position lx < source_len src")
    case False
    then have "position lx = source_len src"
      using r readyD(3) [of src lx] by (simp add: source_len_def)
    with less.prems show ?thesis by (intro exI [of _ lx]) (simp add: run_loop.simps [of src _ _ lx])
  next
    case True
    then have "position lx < length (sf_text src)" by (simp add: source_len_def)
    with r obtain lx1 where s: "lex_step src lx = Some lx1" and e: "emits src (admits (contexts lx)) lx lx1"
      using lex_step_emits [of src lx] by blast
    note i = lexer_inv_step [OF less.prems e]
    have "source_len src - position lx1 < source_len src - position lx" using i(3) True by simp
    from less.hyps [OF this i(1)]
    obtain lx' where l: "lexer_inv src lx'" "position lx' = source_len src"
      "length (tokens lx1) \<le> length (tokens lx')"
      and run: "\<And>c n. run_loop src c n lx1
        = Some (if \<exists>i \<le> length (tokens lx') - length (tokens lx1). c (n + i) then None
                else Some (tokens lx'))"
      by blast
    have len: "length (tokens lx') - length (tokens lx) = Suc (length (tokens lx') - length (tokens lx1))"
      using l(3) i(2) by simp
    have "run_loop src c n lx
        = Some (if \<exists>i \<le> length (tokens lx') - length (tokens lx). c (n + i) then None
                else Some (tokens lx'))" for c n
      unfolding len ex_le_Suc using run s i(3) True by (simp add: run_loop.simps [of src c n lx])
    with l i(2) show ?thesis by (intro exI [of _ lx']) simp
  qed
qed

lemma lex_opaal_run:
  assumes "valid_utf8 (sf_text src)"
  obtains lx where "lex_opaal src = Some (tokens lx)" "lexer_inv src lx" "position lx = source_len src"
    and "\<And>c. lex_opaal_with_control src c
      = Some (if \<exists>n \<le> length (tokens lx). c n then None else Some (tokens lx))"
proof -
  have z: "length (tokens lexer_new) = 0" by (simp add: lexer_new_def)
  from run_loop_total [OF lexer_inv_new [OF assms]] z
  obtain lx where l: "lexer_inv src lx" "position lx = source_len src"
    and f: "\<And>c n. run_loop src c n lexer_new
      = Some (if \<exists>i \<le> length (tokens lx). c (n + i) then None else Some (tokens lx))"
    by (metis diff_zero)
  then show thesis by (intro that) (auto simp: lex_opaal_def lex_opaal_with_control_def)
qed

definition lexeme :: "source_file \<Rightarrow> token \<Rightarrow> string" where
  "lexeme src t =
     take (span_end (tk_span t) - span_start (tk_span t)) (drop (span_start (tk_span t)) (sf_text src))"

lemma tiles_span:
  "tiles sid a ts b \<Longrightarrow> t \<in> set ts \<Longrightarrow>
     span_source_id (tk_span t) = sid \<and> span_start (tk_span t) < span_end (tk_span t)
       \<and> span_end (tk_span t) \<le> b"
  by (induction ts arbitrary: a) (auto dest: tiles_le)

lemma concat_lexemes:
  "tiles sid a ts b \<Longrightarrow> b \<le> length (sf_text src) \<Longrightarrow>
     concat (map (lexeme src) ts) = take (b - a) (drop a (sf_text src))"
proof (induction ts arbitrary: a)
  case (Cons t ts)
  let ?m = "span_end (tk_span t)"
  from Cons.prems have m: "a < ?m" "?m \<le> b" using tiles_le by auto
  have "lexeme src t = take (?m - a) (drop a (sf_text src))"
    using Cons.prems(1) by (auto simp: lexeme_def)
  with Cons m show ?case
    using take_add [of "?m - a" "b - ?m" "drop a (sf_text src)"] by simp
qed simp

lemma tiles_adjacent:
  assumes "tiles sid a ts b" "Suc i < length ts"
  shows "is_adjacent_to (ts ! i) (ts ! Suc i)"
  using assms
proof (induction ts arbitrary: a i)
  case (Cons t ts)
  then show ?case by (cases i; cases ts) (auto simp: is_adjacent_to_def)
qed simp

lemma lexer_inv_texts:
  assumes "lexer_inv src lx" "t \<in> set (tokens lx)"
  shows "token_text src t = Some (Ok (lexeme src t))" "lexeme src t \<noteq> []"
proof -
  have sp: "span_source_id (tk_span t) = sf_id src" "span_start (tk_span t) < span_end (tk_span t)"
    "span_end (tk_span t) \<le> length (sf_text src)"
    using tiles_span [of "sf_id src" 0 "tokens lx" "position lx" t] assms readyD(3) [of src lx]
    by (auto simp: lexer_inv_def)
  have b: "is_char_boundary (sf_text src) (span_start (tk_span t))"
    "is_char_boundary (sf_text src) (span_end (tk_span t))"
    using assms by (auto simp: lexer_inv_def)
  from sp b show "token_text src t = Some (Ok (lexeme src t))"
    by (simp add: token_text_def source_slice_def validate_span_def validate_offset_def lexeme_def panic_free)
  from sp show "lexeme src t \<noteq> []" by (simp add: lexeme_def)
qed

subsection \<open>Properties\<close>

text \<open>
  C1: Lexing never panics and loses nothing. On every valid UTF-8 source the lexer returns tokens;
  the text of each token can be sliced out of the source and is nonempty, and the texts joined
  together are the source text.
\<close>

theorem lex_opaal_lossless:
  assumes "valid_utf8 (sf_text src)"
  shows "\<exists>ts texts. lex_opaal src = Some ts
    \<and> map (token_text src) ts = map (\<lambda>s. Some (Ok s)) texts
    \<and> concat texts = sf_text src \<and> [] \<notin> set texts"
proof -
  obtain lx where l: "lex_opaal src = Some (tokens lx)" "lexer_inv src lx" "position lx = source_len src"
    by (rule lex_opaal_run [OF assms])
  have "concat (map (lexeme src) (tokens lx)) = sf_text src"
    using concat_lexemes [of "sf_id src" 0 "tokens lx" "position lx" src] l
    by (simp add: lexer_inv_def source_len_def)
  with l(1) lexer_inv_texts [OF l(2)] show ?thesis
    by (intro exI [of _ "tokens lx"] exI [of _ "map (lexeme src) (tokens lx)"]) (auto, metis)
qed

text \<open>
  The spans of the token stream tile the source: they belong to it, start at 0, are nonempty,
  follow each other without gap or overlap and end at the source's length; neighbouring tokens are
  adjacent in the sense of \<open>Token::is_adjacent_to\<close>.
\<close>

theorem lex_opaal_tiles:
  assumes "valid_utf8 (sf_text src)"
  shows "\<exists>ts. lex_opaal src = Some ts \<and> tiles (sf_id src) 0 ts (source_len src)
    \<and> (\<forall>i. Suc i < length ts \<longrightarrow> is_adjacent_to (ts ! i) (ts ! Suc i))"
proof -
  obtain lx where l: "lex_opaal src = Some (tokens lx)" "lexer_inv src lx" "position lx = source_len src"
    by (rule lex_opaal_run [OF assms])
  have t: "tiles (sf_id src) 0 (tokens lx) (source_len src)" using l by (simp add: lexer_inv_def)
  with l(1) tiles_adjacent [OF t] show ?thesis by blast
qed

text \<open>
  C28: String literals and interpolations nest. Along the token stream the context stack is the one
  the token kinds alone determine, it always starts with the normal context and then alternates
  between string literals and interpolations, and each token is of a kind its context admits: text,
  escapes, the closing quote and the opening of an interpolation appear only inside a string.
\<close>

theorem lex_opaal_contexts:
  assumes "valid_utf8 (sf_text src)"
  shows "\<exists>ts. lex_opaal src = Some ts \<and> lawful [Normal] ts
    \<and> (\<forall>n. wf_stack (stack_after [Normal] (take n ts)))"
proof -
  obtain lx where l: "lex_opaal src = Some (tokens lx)" "lexer_inv src lx"
    by (rule lex_opaal_run [OF assms])
  have w: "lawful [Normal] (tokens lx)" using l by (simp add: lexer_inv_def)
  have "lawful [Normal] (take n (tokens lx))" for n
    using w lawful_append [of "[Normal]" "take n (tokens lx)" "drop n (tokens lx)"] by simp
  then have "wf_stack (stack_after [Normal] (take n (tokens lx)))" for n
    by (intro wf_stack_after) (simp_all add: wf_stack_def stack_slot_def)
  with w l(1) show ?thesis by blast
qed

text \<open>
  Cancellation is polled once before every token and once at the end, and a cancelled run gives
  no tokens: lexing under a cancellation callback returns nothing exactly when one of the polls that
  precede the end of the uncancelled run says so, and the uncancelled tokens otherwise.
\<close>

theorem lex_opaal_cancellation:
  assumes "valid_utf8 (sf_text src)"
  shows "\<exists>ts. lex_opaal src = Some ts \<and> lex_opaal_with_control src cancelled
    = Some (if \<exists>n \<le> length ts. cancelled n then None else Some ts)"
  by (rule lex_opaal_run [OF assms]) blast

subsection \<open>Witnesses\<close>

definition greeting :: source_file where
  "greeting = source_file_new 7 ''hi'' ([DQUOTE] @ ''a{b}'' @ [DQUOTE, LF])"

lemma greeting_text: "sf_text greeting = [DQUOTE] @ ''a{b}'' @ [DQUOTE, LF]"
  by (simp add: greeting_def source_file_new_def)

lemma greeting_valid: "valid_utf8 (sf_text greeting)"
  using valid_utf8_ascii [of "sf_text greeting"] by (simp add: greeting_text)

lemma greeting_tokens:
  "map_option (map tk_kind) (lex_opaal greeting) = Some
     [TkDoubleQuoteStart, TkDoubleText, TkInterpolationStart, TkIdentifier, TkDelimiter RightBrace,
      TkDoubleQuoteEnd, TkNewline]"
  by code_simp

lemma greeting_count: "lex_opaal greeting = Some ts \<Longrightarrow> length ts = 7"
  using greeting_tokens by (auto dest: arg_cong [of _ _ length])

theorem lex_opaal_lossless_witness:
  "\<exists>ts texts. lex_opaal greeting = Some ts \<and> map (token_text greeting) ts = map (\<lambda>s. Some (Ok s)) texts
    \<and> length ts = 7 \<and> concat texts = [DQUOTE] @ ''a{b}'' @ [DQUOTE, LF] \<and> [] \<notin> set texts"
  using lex_opaal_lossless [OF greeting_valid] greeting_count unfolding greeting_text by blast

theorem lex_opaal_tiles_witness:
  "\<exists>ts. lex_opaal greeting = Some ts \<and> length ts = 7 \<and> tiles 7 0 ts 7
    \<and> is_adjacent_to (ts ! 2) (ts ! 3)"
proof -
  have s: "sf_id greeting = 7" "source_len greeting = 7"
    by (simp_all add: greeting_def source_file_new_def source_len_def)
  obtain ts where l: "lex_opaal greeting = Some ts" and t: "tiles 7 0 ts 7"
    and a: "\<And>i. Suc i < length ts \<Longrightarrow> is_adjacent_to (ts ! i) (ts ! Suc i)"
    using lex_opaal_tiles [OF greeting_valid] s by auto
  with greeting_count [OF l] t a [of 2] show ?thesis by simp
qed

theorem lex_opaal_contexts_witness:
  "\<exists>ts. lex_opaal greeting = Some ts \<and> lawful [Normal] ts
    \<and> stack_after [Normal] (take 4 ts) = [Normal, DoubleQuoted, Interpolation 0]
    \<and> wf_stack (stack_after [Normal] (take 4 ts))"
proof -
  have "map_option (\<lambda>ts. stack_after [Normal] (take 4 ts)) (lex_opaal greeting)
      = Some [Normal, DoubleQuoted, Interpolation 0]" by code_simp
  with lex_opaal_contexts [OF greeting_valid] show ?thesis by auto
qed

theorem lex_opaal_cancellation_witness:
  "lex_opaal_with_control greeting (\<lambda>n. n = 7) = Some None
    \<and> lex_opaal_with_control greeting (\<lambda>n. n = 8) = Some (lex_opaal greeting)"
  using lex_opaal_cancellation [OF greeting_valid, of "\<lambda>n. n = 7"]
    lex_opaal_cancellation [OF greeting_valid, of "\<lambda>n. n = 8"] greeting_count by auto

end
