(* ===== verification/Classification.thy ===== *)
theory Classification
  imports Lexer_Correct
begin

section \<open>Structural classification of a token stream\<close>

text \<open>
  The model of \<^verbatim>\<open>crates/opaal-syntax/src/classification.rs\<close>, with the diagnostic values of
  \<^verbatim>\<open>diagnostic.rs\<close> it builds. \<open>classify_opaal_tokens\<close> decides whether source text is complete, needs
  more input or is invalid, by one pass with a stack of open frames. Its specification here is a
  grammar of balanced streams: a complete stream is balanced, an incomplete one can be continued to
  a balanced one, and one rejected for an unexpected closer cannot. The outer option of a result is
  a panic (\<open>None\<close>), the inner sum the code's \<open>Result\<close>.
\<close>

subsection \<open>Diagnostics\<close>

datatype severity = SevError | SevWarning | SevNote

datatype label_style = StylePrimary | StyleSecondary

record label =
  lb_style :: label_style
  lb_span :: span
  lb_message :: string

record diagnostic =
  dg_severity :: severity
  dg_code :: string
  dg_message :: string
  dg_labels :: "label list"
  dg_notes :: "string list"

definition diagnostic_new :: "severity \<Rightarrow> string \<Rightarrow> string \<Rightarrow> diagnostic" where
  "diagnostic_new sev code message =
     \<lparr>dg_severity = sev, dg_code = code, dg_message = message, dg_labels = [], dg_notes = []\<rparr>"

definition with_primary :: "span \<Rightarrow> string \<Rightarrow> diagnostic \<Rightarrow> diagnostic" where
  "with_primary sp message d =
     d\<lparr>dg_labels := dg_labels d @ [\<lparr>lb_style = StylePrimary, lb_span = sp, lb_message = message\<rparr>]\<rparr>"

definition with_secondary :: "span \<Rightarrow> string \<Rightarrow> diagnostic \<Rightarrow> diagnostic" where
  "with_secondary sp message d =
     d\<lparr>dg_labels := dg_labels d @ [\<lparr>lb_style = StyleSecondary, lb_span = sp, lb_message = message\<rparr>]\<rparr>"

definition with_note :: "string \<Rightarrow> diagnostic \<Rightarrow> diagnostic" where
  "with_note note d = d\<lparr>dg_notes := dg_notes d @ [note]\<rparr>"

subsection \<open>Classifications\<close>

datatype incomplete_reason =
    UnmatchedSingleQuote | UnmatchedDoubleQuote | TrailingBackslash | UnmatchedInterpolation
  | PipelineStage | RedirectionTarget | FunctionBlock | ClosureBody | RsnCall | RsnParenthesis
  | RsnBracket | RsnBrace | RsnExpression | TypeReference | ConditionalOperand

definition incomplete_message :: "incomplete_reason \<Rightarrow> string" where
  "incomplete_message r =
     (case r of
        UnmatchedSingleQuote \<Rightarrow> ''unmatched single quote''
      | UnmatchedDoubleQuote \<Rightarrow> ''unmatched double quote''
      | TrailingBackslash \<Rightarrow> ''explicit continuation requires more source''
      | UnmatchedInterpolation \<Rightarrow> ''unmatched interpolation''
      | PipelineStage \<Rightarrow> ''pipeline operator requires another stage''
      | RedirectionTarget \<Rightarrow> ''redirection operator requires one target word''
      | FunctionBlock \<Rightarrow> ''function block requires a closing brace''
      | ClosureBody \<Rightarrow> ''closure requires a body and closing brace''
      | RsnCall \<Rightarrow> ''call requires a closing parenthesis''
      | RsnParenthesis \<Rightarrow> ''opening parenthesis requires a closing parenthesis''
      | RsnBracket \<Rightarrow> ''opening bracket requires a closing bracket''
      | RsnBrace \<Rightarrow> ''opening brace requires a closing brace''
      | RsnExpression \<Rightarrow> ''expression requires another operand''
      | TypeReference \<Rightarrow> ''type annotation requires a type''
      | ConditionalOperand \<Rightarrow> ''conditional operator requires another pipeline'')"

record incomplete_input =
  ii_reason :: incomplete_reason
  ii_span :: span

datatype syntax_classification =
    Complete | Incomplete incomplete_input | Invalid diagnostic

datatype frame_kind =
    FrDoubleQuote | FrInterpolation | FrParenthesis bool | FrBracket | FrBrace bool bool

record frame =
  fr_kind :: frame_kind
  fr_span :: span

definition incomplete :: "incomplete_reason \<Rightarrow> span \<Rightarrow> syntax_classification" where
  "incomplete reason sp = Incomplete \<lparr>ii_reason = reason, ii_span = sp\<rparr>"

definition unexpected_closer :: "span \<Rightarrow> syntax_classification" where
  "unexpected_closer sp =
     (let message = ''unexpected closing delimiter''
      in Invalid (with_primary sp message (diagnostic_new SevError ''OP0002'' message)))"

definition invalid_token_message :: "invalid_token_kind \<Rightarrow> string" where
  "invalid_token_message k =
     (case k of
        InvNul \<Rightarrow> ''NUL byte is not valid source''
      | InvLoneCarriageReturn \<Rightarrow> ''lone carriage return is not a valid line ending''
      | InvUnknownDoubleEscape \<Rightarrow> ''unknown double-quoted escape''
      | InvEmptyUnicodeEscape \<Rightarrow> ''Unicode escape requires hexadecimal digits''
      | InvUnicodeSurrogate \<Rightarrow> ''Unicode escape cannot encode a surrogate''
      | InvUnicodeOutOfRange \<Rightarrow> ''Unicode escape exceeds the scalar range''
      | InvMalformedUnicodeEscape \<Rightarrow> ''malformed Unicode escape''
      | InvDollarSyntax \<Rightarrow>
          ''dollar syntax is unsupported; use a bare name or `{expression}` interpolation''
      | InvUnmatchedInterpolationBrace \<Rightarrow>
          ''unmatched interpolation brace; use `}}` for a literal brace'')"

definition invalid_token_diagnostic :: "token \<Rightarrow> invalid_token_kind \<Rightarrow> diagnostic" where
  "invalid_token_diagnostic t k =
     with_primary (tk_span t) (invalid_token_message k)
       (diagnostic_new SevError ''OP0001'' (invalid_token_message k))"

definition frame_reason :: "frame_kind \<Rightarrow> incomplete_reason" where
  "frame_reason k =
     (case k of
        FrDoubleQuote \<Rightarrow> UnmatchedDoubleQuote
      | FrInterpolation \<Rightarrow> UnmatchedInterpolation
      | FrParenthesis call \<Rightarrow> if call then RsnCall else RsnParenthesis
      | FrBracket \<Rightarrow> RsnBracket
      | FrBrace closure function \<Rightarrow>
          if closure then ClosureBody else if function then FunctionBlock else RsnBrace)"

definition is_significant :: "token_kind \<Rightarrow> bool" where
  "is_significant k \<longleftrightarrow> k \<notin> {TkWhitespace, TkNewline, TkComment, TkDocumentationComment}"

definition can_end_callee :: "token_kind \<Rightarrow> bool" where
  "can_end_callee k \<longleftrightarrow>
     k \<in> {TkIdentifier, TkDelimiter RightParenthesis, TkDelimiter RightBracket}"

definition statement_contains_keyword :: "token list \<Rightarrow> nat \<Rightarrow> keyword \<Rightarrow> bool" where
  "statement_contains_keyword ts count kw \<longleftrightarrow>
     list_ex (\<lambda>t. tk_kind t = TkKeyword kw)
       (takeWhile (\<lambda>t. tk_kind t \<noteq> TkNewline \<and> tk_kind t \<noteq> TkOperator OpSemicolon)
         (rev (take count ts)))"

definition pop_where :: "(frame_kind \<Rightarrow> bool) \<Rightarrow> frame list \<Rightarrow> bool \<times> frame list" where
  "pop_where p frames =
     (if frames \<noteq> [] \<and> p (fr_kind (last frames)) then (True, butlast frames) else (False, frames))"

definition pop_matching :: "frame_kind \<Rightarrow> frame list \<Rightarrow> bool \<times> frame list" where
  "pop_matching expected = pop_where (\<lambda>k. k = expected)"

definition is_parenthesis :: "frame_kind \<Rightarrow> bool" where
  "is_parenthesis k = (case k of FrParenthesis _ \<Rightarrow> True | _ \<Rightarrow> False)"

definition is_brace_or_interpolation :: "frame_kind \<Rightarrow> bool" where
  "is_brace_or_interpolation k =
     (case k of FrBrace _ _ \<Rightarrow> True | FrInterpolation \<Rightarrow> True | _ \<Rightarrow> False)"

text \<open>
  A closing delimiter either pops its frame or ends the classification. The token at an index is
  read with \<open>get_opt\<close>, whose \<open>None\<close> is the panic of an index out of range.
\<close>

definition close_with ::
  "span \<Rightarrow> bool \<times> frame list \<Rightarrow> syntax_classification option \<times> frame list" where
  "close_with sp r = (if fst r then (None, snd r) else (Some (unexpected_closer sp), snd r))"

definition classify_delimiter ::
  "token list \<Rightarrow> nat \<Rightarrow> delimiter \<Rightarrow> nat option \<Rightarrow> frame list
     \<Rightarrow> (syntax_classification option \<times> frame list) option" where
  "classify_delimiter ts index d previous frames = do {
     t \<leftarrow> get_opt ts index;
     case d of
       LeftParenthesis \<Rightarrow> do {
         call \<leftarrow> (case previous of
             None \<Rightarrow> Some False
           | Some p \<Rightarrow> map_option (\<lambda>q. can_end_callee (tk_kind q)) (get_opt ts p));
         Some (None, frames @ [\<lparr>fr_kind = FrParenthesis call, fr_span = tk_span t\<rparr>])
       }
     | LeftBracket \<Rightarrow> Some (None, frames @ [\<lparr>fr_kind = FrBracket, fr_span = tk_span t\<rparr>])
     | LeftBrace \<Rightarrow>
         let closure = (case get_opt ts (index + 1) of
                 None \<Rightarrow> False
               | Some next \<Rightarrow>
                   is_adjacent_to t next
                     \<and> tk_kind next \<in> {TkOperator OpPipe, TkOperator OpOr});
             function = statement_contains_keyword ts index KwDef
         in Some (None, frames @ [\<lparr>fr_kind = FrBrace closure function, fr_span = tk_span t\<rparr>])
     | RightParenthesis \<Rightarrow> Some (close_with (tk_span t) (pop_where is_parenthesis frames))
     | RightBracket \<Rightarrow> Some (close_with (tk_span t) (pop_matching FrBracket frames))
     | RightBrace \<Rightarrow> Some (close_with (tk_span t) (pop_where is_brace_or_interpolation frames))
   }"

text \<open>\<open>text_result\<close> runs the rest of a computation on the text of a token, the code's \<open>?\<close>.\<close>

definition text_result ::
  "source_file \<Rightarrow> token \<Rightarrow> (string \<Rightarrow> ('a, span_error) result option)
     \<Rightarrow> ('a, span_error) result option" where
  "text_result src t k =
     (case token_text src t of
        None \<Rightarrow> None
      | Some (Err e) \<Rightarrow> Some (Err e)
      | Some (Ok s) \<Rightarrow> k s)"

definition trailing_requirement ::
  "source_file \<Rightarrow> token \<Rightarrow> (incomplete_reason option, span_error) result option" where
  "trailing_requirement src t =
     (case tk_kind t of
        TkBareEscape \<Rightarrow>
          text_result src t (\<lambda>s. Some (Ok (if s = [BSLASH] then Some TrailingBackslash else None)))
      | TkLineContinuation \<Rightarrow>
          Some (Ok (if span_end (tk_span t) = source_len src then Some TrailingBackslash else None))
      | TkOperator op \<Rightarrow>
          Some (Ok (if op \<in> {OpPipe, OpPipeBoth} then Some PipelineStage
                    else if op \<in> {OpLess, OpGreater, OpAppend, OpDuplicate}
                    then Some RedirectionTarget
                    else None))
      | _ \<Rightarrow> Some (Ok None))"

definition single_quote_closed :: "string \<Rightarrow> bool" where
  "single_quote_closed s \<longleftrightarrow> \<not> (length s < 2 \<or> s = [] \<or> last s \<noteq> SQUOTE)"

text \<open>What follows the loop: the innermost open frame, then the last significant token.\<close>

definition classify_end ::
  "source_file \<Rightarrow> token list \<Rightarrow> nat option \<Rightarrow> frame list
     \<Rightarrow> (syntax_classification, span_error) result option" where
  "classify_end src ts previous frames =
     (if frames \<noteq> [] then Some (Ok (incomplete (frame_reason (fr_kind (last frames))) (fr_span (last frames))))
      else case previous of
          None \<Rightarrow> Some (Ok Complete)
        | Some p \<Rightarrow>
            (case get_opt ts p of
               None \<Rightarrow> None
             | Some t \<Rightarrow>
                 (case trailing_requirement src t of
                    None \<Rightarrow> None
                  | Some (Err e) \<Rightarrow> Some (Err e)
                  | Some (Ok None) \<Rightarrow> Some (Ok Complete)
                  | Some (Ok (Some reason)) \<Rightarrow> Some (Ok (incomplete reason (tk_span t))))))"

text \<open>
  The second loop, over the tokens that remain, at \<open>index\<close>. One iteration either returns a
  classification or goes on with the frames.
\<close>

definition classify_token ::
  "source_file \<Rightarrow> token list \<Rightarrow> nat \<Rightarrow> token \<Rightarrow> nat option \<Rightarrow> frame list
     \<Rightarrow> (syntax_classification option \<times> frame list, span_error) result option" where
  "classify_token src ts index t previous frames =
     (case tk_kind t of
        TkSingleQuoted \<Rightarrow>
          text_result src t (\<lambda>s.
            if single_quote_closed s then Some (Ok (None, frames))
            else Some (Ok (Some (incomplete UnmatchedSingleQuote (tk_span t)), frames)))
      | TkDoubleQuoteStart \<Rightarrow>
          Some (Ok (None, frames @ [\<lparr>fr_kind = FrDoubleQuote, fr_span = tk_span t\<rparr>]))
      | TkDoubleQuoteEnd \<Rightarrow> Some (Ok (close_with (tk_span t) (pop_matching FrDoubleQuote frames)))
      | TkInterpolationStart \<Rightarrow>
          Some (Ok (None, frames @ [\<lparr>fr_kind = FrInterpolation, fr_span = tk_span t\<rparr>]))
      | TkDelimiter d \<Rightarrow> map_option Inr (classify_delimiter ts index d previous frames)
      | _ \<Rightarrow> Some (Ok (None, frames)))"

fun classify_loop ::
  "source_file \<Rightarrow> token list \<Rightarrow> nat \<Rightarrow> token list \<Rightarrow> nat option \<Rightarrow> frame list
     \<Rightarrow> (syntax_classification, span_error) result option" where
  "classify_loop src ts index [] previous frames = classify_end src ts previous frames"
| "classify_loop src ts index (t # rest) previous frames =
     (case classify_token src ts index t previous frames of
        None \<Rightarrow> None
      | Some (Err e) \<Rightarrow> Some (Err e)
      | Some (Ok (Some c, _)) \<Rightarrow> Some (Ok c)
      | Some (Ok (None, frames')) \<Rightarrow>
          classify_loop src ts (index + 1) rest
            (if is_significant (tk_kind t) then Some index else previous) frames')"

text \<open>The first loop: the first token whose text cannot be read, or that is invalid.\<close>

fun reject_invalid ::
  "source_file \<Rightarrow> token list \<Rightarrow> (diagnostic option, span_error) result option" where
  "reject_invalid src [] = Some (Ok None)"
| "reject_invalid src (t # ts) =
     text_result src t (\<lambda>_.
       case tk_kind t of
         TkInvalid k \<Rightarrow> Some (Ok (Some (invalid_token_diagnostic t k)))
       | _ \<Rightarrow> reject_invalid src ts)"

definition classify_opaal_tokens ::
  "source_file \<Rightarrow> token list \<Rightarrow> (syntax_classification, span_error) result option" where
  "classify_opaal_tokens src ts =
     (case reject_invalid src ts of
        None \<Rightarrow> None
      | Some (Err e) \<Rightarrow> Some (Err e)
      | Some (Ok (Some d)) \<Rightarrow> Some (Ok (Invalid d))
      | Some (Ok None) \<Rightarrow> classify_loop src ts 0 ts None [])"

subsection \<open>Balanced streams\<close>

text \<open>
  What a stack of frames recognises, said twice: as an automaton over the kinds of the tokens
  (\<open>feed\<close>), and as a grammar (\<open>balanced\<close>) with one production for a bracket pair. The two agree.
\<close>

datatype shape = ShQuote | ShInterpolation | ShParenthesis | ShBracket | ShBrace

definition opens :: "token_kind \<Rightarrow> shape option" where
  "opens k =
     (case k of
        TkDoubleQuoteStart \<Rightarrow> Some ShQuote
      | TkInterpolationStart \<Rightarrow> Some ShInterpolation
      | TkDelimiter LeftParenthesis \<Rightarrow> Some ShParenthesis
      | TkDelimiter LeftBracket \<Rightarrow> Some ShBracket
      | TkDelimiter LeftBrace \<Rightarrow> Some ShBrace
      | _ \<Rightarrow> None)"

definition closes :: "token_kind \<Rightarrow> shape list" where
  "closes k =
     (case k of
        TkDoubleQuoteEnd \<Rightarrow> [ShQuote]
      | TkDelimiter RightParenthesis \<Rightarrow> [ShParenthesis]
      | TkDelimiter RightBracket \<Rightarrow> [ShBracket]
      | TkDelimiter RightBrace \<Rightarrow> [ShBrace, ShInterpolation]
      | _ \<Rightarrow> [])"

inductive balanced :: "token_kind list \<Rightarrow> bool" where
  Nil: "balanced []"
| Skip: "opens k = None \<Longrightarrow> closes k = [] \<Longrightarrow> balanced ks \<Longrightarrow> balanced (k # ks)"
| Pair: "opens k = Some s \<Longrightarrow> s \<in> set (closes c) \<Longrightarrow> balanced us \<Longrightarrow> balanced vs \<Longrightarrow>
    balanced (k # us @ c # vs)"

fun feed :: "token_kind list \<Rightarrow> shape list \<Rightarrow> shape list option" where
  "feed [] st = Some st"
| "feed (k # ks) st =
     (case opens k of
        Some s \<Rightarrow> feed ks (s # st)
      | None \<Rightarrow>
          if closes k = [] then feed ks st
          else (case st of
              [] \<Rightarrow> None
            | s # st' \<Rightarrow> if s \<in> set (closes k) then feed ks st' else None))"

lemma feed_append: "feed (us @ vs) st = Option.bind (feed us st) (feed vs)"
  by (induction us arbitrary: st) (auto split: option.split list.split)

lemma closer_not_opener: "s \<in> set (closes c) \<Longrightarrow> opens c = None"
  by (auto simp: closes_def opens_def split: token_kind.splits delimiter.splits)

lemma feed_balanced: "balanced us \<Longrightarrow> feed (us @ vs) st = feed vs st"
proof (induction arbitrary: vs st rule: balanced.induct)
  case (Pair k s c us ws)
  then show ?case by (auto simp: closer_not_opener split: list.splits)
qed auto

fun unwinds :: "shape list \<Rightarrow> token_kind list \<Rightarrow> bool" where
  "unwinds [] ks \<longleftrightarrow> balanced ks"
| "unwinds (s # st) ks \<longleftrightarrow>
     (\<exists>us c vs. ks = us @ c # vs \<and> balanced us \<and> s \<in> set (closes c) \<and> unwinds st vs)"

lemma unwinds_balanced:
  assumes "unwinds st ks" "\<And>us. balanced us \<Longrightarrow> balanced (p @ us)"
  shows "unwinds st (p @ ks)"
  using assms by (cases st) (auto, metis append.assoc)

lemma feed_unwinds: "feed ks st = Some [] \<Longrightarrow> unwinds st ks"
proof (induction ks arbitrary: st)
  case (Cons k ks)
  show ?case
  proof (cases "opens k")
    case (Some s)
    with Cons obtain us c vs where u: "ks = us @ c # vs" "balanced us" "s \<in> set (closes c)" "unwinds st vs"
      by fastforce
    from unwinds_balanced [OF u(4), of "k # us @ [c]"] balanced.Pair [OF Some u(3,2)] u(1)
    show ?thesis by simp
  next
    case None
    note o = this
    show ?thesis
    proof (cases "closes k = []")
      case True
      with o Cons have "unwinds st ks" by simp
      from unwinds_balanced [OF this, of "[k]"] balanced.Skip [OF o True] show ?thesis by simp
    next
      case False
      with o Cons.prems obtain s st' where "st = s # st'" "s \<in> set (closes k)" "feed ks st' = Some []"
        by (auto split: list.splits if_splits)
      with Cons.IH [of st'] show ?thesis by (auto intro!: exI [of _ "[]"] balanced.Nil)
    qed
  qed
qed (simp add: balanced.Nil)

theorem feed_iff_balanced: "feed ks [] = Some [] \<longleftrightarrow> balanced ks"
  using feed_unwinds [of ks "[]"] feed_balanced [of ks "[]" "[]"] by auto

text \<open>Every stack can be closed.\<close>

definition closer_of :: "shape \<Rightarrow> token_kind" where
  "closer_of s =
     (case s of
        ShQuote \<Rightarrow> TkDoubleQuoteEnd
      | ShInterpolation \<Rightarrow> TkDelimiter RightBrace
      | ShParenthesis \<Rightarrow> TkDelimiter RightParenthesis
      | ShBracket \<Rightarrow> TkDelimiter RightBracket
      | ShBrace \<Rightarrow> TkDelimiter RightBrace)"

lemma feed_closers: "feed (map closer_of st) st = Some []"
proof (induction st)
  case (Cons s st)
  then show ?case by (cases s) (simp_all add: closer_of_def opens_def closes_def)
qed simp

subsection \<open>The frames of the code are the stack of shapes\<close>

definition shape_of :: "frame_kind \<Rightarrow> shape" where
  "shape_of k =
     (case k of
        FrDoubleQuote \<Rightarrow> ShQuote
      | FrInterpolation \<Rightarrow> ShInterpolation
      | FrParenthesis _ \<Rightarrow> ShParenthesis
      | FrBracket \<Rightarrow> ShBracket
      | FrBrace _ _ \<Rightarrow> ShBrace)"

definition shapes :: "frame list \<Rightarrow> shape list" where
  "shapes frames = map (\<lambda>f. shape_of (fr_kind f)) (rev frames)"

lemma shapes_simps [simp]:
  "shapes [] = []" "shapes (fs @ [f]) = shape_of (fr_kind f) # shapes fs" "shapes fs = [] \<longleftrightarrow> fs = []"
  by (simp_all add: shapes_def)

definition readable :: "source_file \<Rightarrow> token list \<Rightarrow> bool" where
  "readable src ts \<longleftrightarrow> (\<forall>t \<in> set ts. \<exists>s. token_text src t = Some (Ok s))"

definition quote_open :: "source_file \<Rightarrow> token \<Rightarrow> bool" where
  "quote_open src t \<longleftrightarrow>
     tk_kind t = TkSingleQuoted
       \<and> (case token_text src t of Some (Ok s) \<Rightarrow> \<not> single_quote_closed s | _ \<Rightarrow> True)"

lemma pop_where_shapes:
  assumes "\<And>k. p k \<longleftrightarrow> shape_of k \<in> set S"
  shows "(case shapes frames of
      [] \<Rightarrow> pop_where p frames = (False, frames)
    | s # st \<Rightarrow> if s \<in> set S then \<exists>fs. pop_where p frames = (True, fs) \<and> shapes fs = st
        else pop_where p frames = (False, frames))"
  using assms by (cases frames rule: rev_cases) (auto simp: pop_where_def)

lemma pop_tests:
  "k = FrDoubleQuote \<longleftrightarrow> shape_of k \<in> set [ShQuote]"
  "k = FrBracket \<longleftrightarrow> shape_of k \<in> set [ShBracket]"
  "is_parenthesis k \<longleftrightarrow> shape_of k \<in> set [ShParenthesis]"
  "is_brace_or_interpolation k \<longleftrightarrow> shape_of k \<in> set [ShBrace, ShInterpolation]"
  by (cases k; simp add: shape_of_def is_parenthesis_def is_brace_or_interpolation_def)+

text \<open>
  One iteration is one step of \<open>feed\<close>, unless the token is a single-quoted word without its
  closing quote.
\<close>

lemma classify_token_step:
  assumes "token_text src t = Some (Ok s)" "get_opt ts i = Some t" "\<not> quote_open src t"
    and "case prev of None \<Rightarrow> True | Some p \<Rightarrow> p < length ts"
  shows "(case feed [tk_kind t] (shapes frames) of
      Some st \<Rightarrow> \<exists>fs. classify_token src ts i t prev frames = Some (Ok (None, fs)) \<and> shapes fs = st
    | None \<Rightarrow> \<exists>fs. classify_token src ts i t prev frames
        = Some (Ok (Some (unexpected_closer (tk_span t)), fs)))"
proof -
  have p: "\<exists>call. (case prev of None \<Rightarrow> Some False
      | Some p \<Rightarrow> map_option (\<lambda>q. can_end_callee (tk_kind q)) (get_opt ts p)) = Some call"
    using assms(4) by (auto simp: get_opt_def split: option.split)
  note defs = classify_token_def classify_delimiter_def opens_def closes_def close_with_def
    pop_matching_def shape_of_def text_result_def
  show ?thesis
  proof (cases "tk_kind t")
    case TkSingleQuoted
    with assms show ?thesis by (simp add: defs quote_open_def)
  next
    case TkDoubleQuoteEnd
    with pop_where_shapes [OF pop_tests(1), of frames] show ?thesis
      by (auto simp: defs split: list.splits if_splits)
  next
    case (TkDelimiter d)
    note de = defs TkDelimiter assms(2)
    show ?thesis
    proof (cases d)
      case RightParenthesis
      with pop_where_shapes [OF pop_tests(3), of frames] show ?thesis
        by (auto simp: de simp del: get_opt_Some split: list.splits if_splits)
    next
      case RightBracket
      with pop_where_shapes [OF pop_tests(2), of frames] show ?thesis
        by (auto simp: de simp del: get_opt_Some split: list.splits if_splits)
    next
      case RightBrace
      with pop_where_shapes [OF pop_tests(4), of frames] show ?thesis
        by (auto simp: de simp del: get_opt_Some split: list.splits if_splits)
    qed (use p in \<open>auto simp: de Let_def simp del: get_opt_Some\<close>)
  qed (simp_all add: defs)
qed

abbreviation significant :: "token list \<Rightarrow> token list" where
  "significant ts \<equiv> filter (\<lambda>t. is_significant (tk_kind t)) ts"

definition previous_ok :: "token list \<Rightarrow> nat \<Rightarrow> nat option \<Rightarrow> bool" where
  "previous_ok ts i prev \<longleftrightarrow>
     (case prev of
        None \<Rightarrow> significant (take i ts) = []
      | Some p \<Rightarrow>
          p < length ts \<and> significant (take i ts) \<noteq> [] \<and> ts ! p = last (significant (take i ts)))"

definition wants_more :: "source_file \<Rightarrow> token list \<Rightarrow> bool" where
  "wants_more src ts \<longleftrightarrow>
     significant ts \<noteq> [] \<and> trailing_requirement src (last (significant ts)) \<noteq> Some (Ok None)"

lemma previous_ok_step:
  assumes "previous_ok ts i prev" "i < length ts"
  shows "previous_ok ts (i + 1) (if is_significant (tk_kind (ts ! i)) then Some i else prev)"
  using assms by (auto simp: previous_ok_def take_Suc_conv_app_nth split: option.splits)

lemma trailing_returns:
  "token_text src t = Some (Ok s) \<Longrightarrow> \<exists>r. trailing_requirement src t = Some (Ok r)"
  by (auto simp: trailing_requirement_def text_result_def split: token_kind.split)

definition verdict :: "source_file \<Rightarrow> token list \<Rightarrow> token list \<Rightarrow> shape list \<Rightarrow> syntax_classification \<Rightarrow> bool" where
  "verdict src ts us st c \<longleftrightarrow>
     (case c of
        Complete \<Rightarrow>
          feed (map tk_kind us) st = Some [] \<and> list_all (\<lambda>t. \<not> quote_open src t) us
            \<and> \<not> wants_more src ts
      | Incomplete inp \<Rightarrow>
          list_ex (\<lambda>t. quote_open src t \<and> ii_span inp = tk_span t) us
            \<or> list_all (\<lambda>t. \<not> quote_open src t) us
              \<and> feed (map tk_kind us) st \<noteq> None
              \<and> (feed (map tk_kind us) st = Some [] \<longrightarrow> wants_more src ts)
      | Invalid d \<Rightarrow>
          feed (map tk_kind us) st = None \<and> dg_code d = ''OP0002'')"

lemma classify_end_verdict:
  assumes "readable src ts" "previous_ok ts (length ts) prev"
  shows "\<exists>c. classify_end src ts prev frames = Some (Ok c) \<and> verdict src ts [] (shapes frames) c"
proof (cases "frames = [] \<and> prev \<noteq> None")
  case True
  then obtain p where p: "prev = Some p" by auto
  with assms(2) have lt: "p < length ts" and ne: "significant ts \<noteq> []" "ts ! p = last (significant ts)"
    by (auto simp: previous_ok_def)
  from lt have "ts ! p \<in> set ts" by simp
  with assms(1) have "\<exists>s. token_text src (ts ! p) = Some (Ok s)" unfolding readable_def by blast
  with trailing_returns obtain r where r: "trailing_requirement src (ts ! p) = Some (Ok r)" by metis
  with True p lt ne show ?thesis
    by (cases r) (auto simp: classify_end_def get_opt_nth verdict_def wants_more_def incomplete_def)
next
  case False
  then show ?thesis
    using assms(2) by (auto simp: classify_end_def verdict_def incomplete_def wants_more_def previous_ok_def)
qed

lemma classify_loop_verdict:
  assumes "readable src ts" "previous_ok ts i prev" "us = drop i ts" "i \<le> length ts"
  shows "\<exists>c. classify_loop src ts i us prev frames = Some (Ok c) \<and> verdict src ts us (shapes frames) c"
  using assms
proof (induction us arbitrary: i prev frames)
  case Nil
  then have "i = length ts" by simp
  with classify_end_verdict [of src ts prev frames] Nil show ?case by simp
next
  case (Cons t us)
  then have i: "i < length ts" "ts ! i = t" "us = drop (i + 1) ts"
    by (auto dest: Cons_eq_dropD)
  then have t: "t \<in> set ts" by auto
  with Cons.prems(1) obtain s where s: "token_text src t = Some (Ok s)" by (auto simp: readable_def)
  show ?case
  proof (cases "quote_open src t")
    case True
    with s have "classify_token src ts i t prev frames
        = Some (Ok (Some (incomplete UnmatchedSingleQuote (tk_span t)), frames))"
      by (simp add: quote_open_def classify_token_def text_result_def)
    with True show ?thesis by (simp add: verdict_def incomplete_def)
  next
    case False
    have p: "case prev of None \<Rightarrow> True | Some p \<Rightarrow> p < length ts"
      using Cons.prems(2) by (auto simp: previous_ok_def split: option.splits)
    note st = classify_token_step [OF s _ False p, of i frames]
    have fd: "feed (map tk_kind (t # us)) (shapes frames)
        = Option.bind (feed [tk_kind t] (shapes frames)) (feed (map tk_kind us))"
      using feed_append [of "[tk_kind t]" "map tk_kind us" "shapes frames"] by (simp del: feed.simps)
    show ?thesis
    proof (cases "feed [tk_kind t] (shapes frames)")
      case None
      with fd have "feed (map tk_kind (t # us)) (shapes frames) = None" by (simp del: feed.simps)
      with None st i show ?thesis
        by (auto simp: verdict_def unexpected_closer_def Let_def with_primary_def diagnostic_new_def
            simp del: feed.simps)
    next
      case (Some st1)
      with st i obtain fs where f: "classify_token src ts i t prev frames = Some (Ok (None, fs))" "shapes fs = st1"
        by auto
      from Cons.IH [OF Cons.prems(1) previous_ok_step [OF Cons.prems(2) i(1)] i(3), of fs] i
      obtain c where "classify_loop src ts (i + 1) us
          (if is_significant (tk_kind t) then Some i else prev) fs = Some (Ok c)"
        "verdict src ts us (shapes fs) c" by auto
      moreover have "feed (map tk_kind (t # us)) (shapes frames) = feed (map tk_kind us) (shapes fs)"
        using fd Some f(2) by (simp del: feed.simps)
      ultimately show ?thesis
        using f False
        by (intro exI [of _ c])
          (auto simp: verdict_def simp del: feed.simps split: syntax_classification.splits)
    qed
  qed
qed

lemma reject_invalid_readable:
  "readable src ts \<Longrightarrow> reject_invalid src ts
    = Some (Ok (case filter (\<lambda>t. \<exists>k. tk_kind t = TkInvalid k) ts of
        [] \<Rightarrow> None
      | t # _ \<Rightarrow> (case tk_kind t of TkInvalid k \<Rightarrow> Some (invalid_token_diagnostic t k) | _ \<Rightarrow> None)))"
proof (induction ts)
  case (Cons t ts)
  then show ?case by (auto simp: readable_def text_result_def split: token_kind.split)
qed simp

definition no_invalid :: "token list \<Rightarrow> bool" where
  "no_invalid ts \<longleftrightarrow> list_all (\<lambda>t. case tk_kind t of TkInvalid _ \<Rightarrow> False | _ \<Rightarrow> True) ts"

lemma classify_verdict:
  assumes "readable src ts"
  shows "if no_invalid ts
    then \<exists>c. classify_opaal_tokens src ts = Some (Ok c) \<and> verdict src ts ts [] c
    else \<exists>t k. t \<in> set ts \<and> tk_kind t = TkInvalid k
      \<and> classify_opaal_tokens src ts = Some (Ok (Invalid (invalid_token_diagnostic t k)))"
proof (cases "filter (\<lambda>t. \<exists>k. tk_kind t = TkInvalid k) ts")
  case Nil
  then have "no_invalid ts"
    by (auto simp: no_invalid_def list_all_iff filter_empty_conv split: token_kind.split)
  with reject_invalid_readable [OF assms] classify_loop_verdict [OF assms, of 0 None ts "[]"] Nil
  show ?thesis by (simp add: classify_opaal_tokens_def previous_ok_def)
next
  case (Cons t us)
  then have "t \<in> set (filter (\<lambda>t. \<exists>k. tk_kind t = TkInvalid k) ts)" by simp
  then obtain k where t: "t \<in> set ts" "tk_kind t = TkInvalid k" by auto
  then have "\<not> no_invalid ts" by (auto simp: no_invalid_def list_all_iff intro!: bexI [of _ t])
  with t reject_invalid_readable [OF assms] Cons show ?thesis
    by (auto simp: classify_opaal_tokens_def)
qed

lemma lexed_readable:
  assumes "valid_utf8 (sf_text src)" "lex_opaal src = Some ts"
  shows "readable src ts"
proof -
  obtain lx where "lex_opaal src = Some (tokens lx)" "lexer_inv src lx"
    by (rule lex_opaal_run [OF assms(1)])
  with lexer_inv_texts(1) assms(2) show ?thesis by (fastforce simp: readable_def)
qed

subsection \<open>Properties\<close>

text \<open>
  C5: Complete input is exactly balanced input. Classifying the tokens the lexer gives for a valid
  source never fails, and answers \<open>Complete\<close> if and only if no token is invalid, quotes,
  interpolations and delimiters are balanced, every single-quoted word is closed, and the last
  significant token does not ask for more (a trailing backslash, pipe or redirection).
\<close>

theorem classify_complete_iff:
  assumes "valid_utf8 (sf_text src)" "lex_opaal src = Some ts"
  shows "(\<exists>c. classify_opaal_tokens src ts = Some (Ok c))
    \<and> (classify_opaal_tokens src ts = Some (Ok Complete) \<longleftrightarrow>
        no_invalid ts \<and> balanced (map tk_kind ts) \<and> list_all (\<lambda>t. \<not> quote_open src t) ts
          \<and> \<not> wants_more src ts)"
proof (cases "no_invalid ts")
  case True
  with classify_verdict [OF lexed_readable [OF assms]]
  obtain c where c: "classify_opaal_tokens src ts = Some (Ok c)" "verdict src ts ts [] c" by auto
  have "\<not> list_all (\<lambda>t. \<not> quote_open src t) ts \<or> feed (map tk_kind ts) [] \<noteq> Some [] \<or> wants_more src ts"
    if "c \<noteq> Complete"
    using c(2) that
    by (cases c) (auto simp: verdict_def list_ex_iff list_all_iff)
  with c True show ?thesis
    by (auto simp: feed_iff_balanced [symmetric] verdict_def)
next
  case False
  with classify_verdict [OF lexed_readable [OF assms]] show ?thesis by auto
qed

text \<open>
  Incomplete input can be completed. When the tokens of a source are classified as incomplete,
  either a single-quoted word at the reported span lacks its closing quote, or some sequence of
  closing tokens appended to the stream makes it balanced.
\<close>

theorem classify_incomplete_closable:
  assumes "valid_utf8 (sf_text src)" "lex_opaal src = Some ts"
    and "classify_opaal_tokens src ts = Some (Ok (Incomplete inp))"
  shows "(\<exists>t \<in> set ts. quote_open src t \<and> ii_span inp = tk_span t)
    \<or> (\<exists>cs. balanced (map tk_kind ts @ cs) \<and> list_all (\<lambda>k. closes k \<noteq> []) cs)"
proof -
  have "verdict src ts ts [] (Incomplete inp)"
    using classify_verdict [OF lexed_readable [OF assms(1,2)]] assms(3) by (auto split: if_splits)
  then consider "\<exists>t \<in> set ts. quote_open src t \<and> ii_span inp = tk_span t"
    | st where "feed (map tk_kind ts) [] = Some st"
    by (auto simp: verdict_def list_ex_iff)
  then show ?thesis
  proof cases
    case 2
    then have "balanced (map tk_kind ts @ map closer_of st)"
      by (simp add: feed_iff_balanced [symmetric] feed_append feed_closers)
    moreover have "list_all (\<lambda>k. closes k \<noteq> []) (map closer_of st)"
      by (auto simp: list_all_iff closer_of_def closes_def split: shape.split)
    ultimately show ?thesis by blast
  qed simp
qed

text \<open>
  C29: Invalid input is beyond repair. When the tokens of a source are classified as invalid, either
  one of them is an invalid token and the diagnostic is its own, or the stream has an unexpected
  closer and no continuation makes it balanced.
\<close>

theorem classify_invalid_hopeless:
  assumes "valid_utf8 (sf_text src)" "lex_opaal src = Some ts"
    and "classify_opaal_tokens src ts = Some (Ok (Invalid d))"
  shows "(\<exists>t \<in> set ts. \<exists>k. tk_kind t = TkInvalid k \<and> d = invalid_token_diagnostic t k)
    \<or> dg_code d = ''OP0002'' \<and> (\<forall>ks. \<not> balanced (map tk_kind ts @ ks))"
proof (cases "no_invalid ts")
  case True
  then have "verdict src ts ts [] (Invalid d)"
    using classify_verdict [OF lexed_readable [OF assms(1,2)]] assms(3) by auto
  then show ?thesis by (auto simp: verdict_def feed_iff_balanced [symmetric] feed_append)
next
  case False
  then show ?thesis
    using classify_verdict [OF lexed_readable [OF assms(1,2)]] assms(3) by auto
qed

subsection \<open>Witnesses\<close>

definition demo_source :: "string \<Rightarrow> source_file" where
  "demo_source s = source_file_new 1 ''demo'' s"

definition demo_tokens :: "string \<Rightarrow> token list" where
  "demo_tokens s = (case lex_opaal (demo_source s) of Some ts \<Rightarrow> ts | None \<Rightarrow> [])"

lemma demo_valid: "list_all (\<lambda>c. u8 c < 0x80) s \<Longrightarrow> valid_utf8 (sf_text (demo_source s))"
  using valid_utf8_ascii [of s] by (simp add: demo_source_def source_file_new_def list_all_iff)

lemma demo_lexed: "list_all (\<lambda>c. u8 c < 0x80) s \<Longrightarrow> lex_opaal (demo_source s) = Some (demo_tokens s)"
  by (rule lex_opaal_run [OF demo_valid], assumption) (simp add: demo_tokens_def)

lemma classify_demo_complete:
  "classify_opaal_tokens (demo_source ''f(x)'') (demo_tokens ''f(x)'') = Some (Ok Complete)"
  by code_simp

lemma classify_demo_open:
  "classify_opaal_tokens (demo_source ''f(x'') (demo_tokens ''f(x'')
     = Some (Ok (incomplete RsnCall \<lparr>span_source_id = 1, span_start = 1, span_end = 2\<rparr>))"
  by code_simp

lemma classify_demo_closer:
  "classify_opaal_tokens (demo_source ''(]'') (demo_tokens ''(]'')
     = Some (Ok (unexpected_closer \<lparr>span_source_id = 1, span_start = 1, span_end = 2\<rparr>))"
  by code_simp

theorem classify_complete_iff_witness:
  "balanced (map tk_kind (demo_tokens ''f(x)''))"
  using classify_complete_iff [OF demo_valid demo_lexed, of "''f(x)''"] classify_demo_complete by simp

theorem classify_incomplete_closable_witness:
  "\<exists>cs. balanced (map tk_kind (demo_tokens ''f(x'') @ cs)"
proof -
  have "list_all (\<lambda>t. \<not> quote_open (demo_source ''f(x'') t) (demo_tokens ''f(x'')" by code_simp
  with classify_incomplete_closable [OF demo_valid demo_lexed classify_demo_open [unfolded incomplete_def]]
  show ?thesis by (auto simp: list_all_iff)
qed

theorem classify_invalid_hopeless_witness:
  "\<not> balanced (map tk_kind (demo_tokens ''(]'') @ [TkDelimiter RightParenthesis])"
proof -
  have "no_invalid (demo_tokens ''(]'')" by code_simp
  with classify_invalid_hopeless
    [OF demo_valid demo_lexed classify_demo_closer [unfolded unexpected_closer_def Let_def]]
  show ?thesis by (fastforce simp: no_invalid_def list_all_iff)
qed

end
