(* ===== verification/Value.thy ===== *)
theory Value
  imports Prelude
begin

section \<open>Runtime values and their types\<close>

text \<open>
  The model of \<^verbatim>\<open>crates/opaal-runtime/src/value.rs\<close> and of the value types of \<^verbatim>\<open>module.rs\<close>: finite
  floats as their 64 bits, ranges, records, tables, signals and statuses with the checks of their
  constructors, the value datatype with its equality, the writers of the quoted forms, and the
  acceptance, substitution and unification of value types. \<open>i64\<close> and \<open>i128\<close> are words read with
  \<open>sint\<close>. The type parameter of a value is the runtime error a \<open>Value::Error\<close> holds, whose
  equality is an argument of the equality of values. A callable is its address, which
  \<open>Arc::ptr_eq\<close> compares, and its family.
\<close>

subsection \<open>Decimal and hexadecimal text\<close>

definition show_int :: "int \<Rightarrow> string" where
  "show_int i = (if i < 0 then ''-'' @ show_nat (nat (- i)) else show_nat (nat i))"

definition hex_digit :: "nat \<Rightarrow> byte" where
  "hex_digit n = char_of (if n < 10 then 48 + n else 55 + n)"

fun show_hex :: "nat \<Rightarrow> string" where
  "show_hex n = (if n < 16 then [hex_digit n] else show_hex (n div 16) @ [hex_digit (n mod 16)])"

declare show_hex.simps [simp del]

subsection \<open>Finite floats\<close>

definition f64_exponent :: "64 word \<Rightarrow> nat" where
  "f64_exponent b = (unat b div 2 ^ 52) mod 2 ^ 11"

definition f64_fraction :: "64 word \<Rightarrow> nat" where
  "f64_fraction b = unat b mod 2 ^ 52"

definition f64_negative :: "64 word \<Rightarrow> bool" where
  "f64_negative b \<longleftrightarrow> 2 ^ 63 \<le> unat b"

definition f64_is_finite :: "64 word \<Rightarrow> bool" where
  "f64_is_finite b \<longleftrightarrow> f64_exponent b \<noteq> 2047"

text \<open>A finite float is \<open>mantissa * 2 ^ (scale - 1075)\<close>, with its sign.\<close>

definition f64_mantissa :: "64 word \<Rightarrow> nat" where
  "f64_mantissa b = (if f64_exponent b = 0 then f64_fraction b else 2 ^ 52 + f64_fraction b)"

definition f64_scale :: "64 word \<Rightarrow> nat" where
  "f64_scale b = max 1 (f64_exponent b)"

definition f64_is_zero :: "64 word \<Rightarrow> bool" where
  "f64_is_zero b \<longleftrightarrow> b = 0 \<or> b = 2 ^ 63"

text \<open>\<open>fract() == 0.0\<close>, and the conversion to \<open>i128\<close>, which truncates and saturates.\<close>

definition f64_is_integral :: "64 word \<Rightarrow> bool" where
  "f64_is_integral b \<longleftrightarrow> f64_mantissa b * 2 ^ f64_scale b mod 2 ^ 1075 = 0"

definition f64_to_i128 :: "64 word \<Rightarrow> int" where
  "f64_to_i128 b =
     (let m = int (f64_mantissa b * 2 ^ f64_scale b div 2 ^ 1075);
          v = (if f64_negative b then - m else m)
      in max (- (2 ^ 127)) (min (2 ^ 127 - 1) v))"

datatype finite_float = FiniteFloat (float_bits: "64 word")

datatype non_finite_float = NonFiniteFloat

definition finite_float_new :: "64 word \<Rightarrow> (finite_float, non_finite_float) result" where
  "finite_float_new v =
     (if \<not> f64_is_finite v then Err NonFiniteFloat
      else Ok (FiniteFloat (if f64_is_zero v then 0 else v)))"

definition int_float_equal :: "64 word \<Rightarrow> finite_float \<Rightarrow> bool" where
  "int_float_equal i f \<longleftrightarrow>
     f64_is_integral (float_bits f) \<and> f64_to_i128 (float_bits f) = sint i"

subsection \<open>Durations, sizes, ranges and paths\<close>

datatype duration = Duration (as_nanos: "128 word")

datatype byte_size = ByteSize (size_bytes: "64 word")

definition duration_display :: "duration \<Rightarrow> string" where
  "duration_display d = show_int (sint (as_nanos d)) @ ''ns''"

definition byte_size_display :: "byte_size \<Rightarrow> string" where
  "byte_size_display s = show_nat (unat (size_bytes s)) @ ''b''"

record range =
  rg_start :: "64 word"
  rg_end :: "64 word"
  inclusive_end :: bool

definition range_contains :: "range \<Rightarrow> 64 word \<Rightarrow> bool" where
  "range_contains r v \<longleftrightarrow>
     sint (rg_start r) \<le> sint v
       \<and> (if inclusive_end r then sint v \<le> sint (rg_end r) else sint v < sint (rg_end r))"

definition range_is_empty :: "range \<Rightarrow> bool" where
  "range_is_empty r \<longleftrightarrow>
     (if inclusive_end r then sint (rg_end r) < sint (rg_start r)
      else sint (rg_end r) \<le> sint (rg_start r))"

definition range_display :: "range \<Rightarrow> string" where
  "range_display r =
     show_int (sint (rg_start r)) @ (if inclusive_end r then ''..='' else ''..'')
       @ show_int (sint (rg_end r))"

datatype native_path = NativePath (path_bytes: string)

subsection \<open>Signals and statuses\<close>

record signal =
  sg_number :: "64 word option"
  sg_name :: "string option"

datatype missing_signal_identity = MissingSignalIdentity

definition signal_new ::
  "64 word option \<Rightarrow> string option \<Rightarrow> (signal, missing_signal_identity) result" where
  "signal_new number name =
     (if number = None \<and> name = None then Err MissingSignalIdentity
      else Ok \<lparr>sg_number = number, sg_name = name\<rparr>)"

datatype status =
  Status (st_code: "64 word option") (st_signal: "signal option") (st_stages: "status list")
    (st_duration: duration)

datatype invalid_status =
    NegativeDuration
  | EmptyAggregate
  | SelectedStageOutOfBounds nat nat
  | NestedAggregate

definition invalid_status_display :: "invalid_status \<Rightarrow> string" where
  "invalid_status_display e =
     (case e of
        NegativeDuration \<Rightarrow> ''status duration cannot be negative''
      | EmptyAggregate \<Rightarrow> ''aggregate status requires stages''
      | SelectedStageOutOfBounds selected stages \<Rightarrow>
          ''selected stage '' @ show_nat selected @ '' is outside '' @ show_nat stages
            @ '' aggregate stages''
      | NestedAggregate \<Rightarrow> ''aggregate status stages must all be leaves'')"

definition validate_status_duration :: "duration \<Rightarrow> (unit, invalid_status) result" where
  "validate_status_duration d = (if sint (as_nanos d) < 0 then Err NegativeDuration else Ok ())"

definition status_exit :: "64 word \<Rightarrow> duration \<Rightarrow> (status, invalid_status) result" where
  "status_exit code d =
     (case validate_status_duration d of
        Err e \<Rightarrow> Err e
      | Ok _ \<Rightarrow> Ok (Status (Some code) None [] d))"

definition status_signaled :: "signal \<Rightarrow> duration \<Rightarrow> (status, invalid_status) result" where
  "status_signaled sg d =
     (case validate_status_duration d of
        Err e \<Rightarrow> Err e
      | Ok _ \<Rightarrow> Ok (Status None (Some sg) [] d))"

definition status_aggregate ::
  "status list \<Rightarrow> nat \<Rightarrow> duration \<Rightarrow> (status, invalid_status) result" where
  "status_aggregate stages selected_stage d =
     (case validate_status_duration d of
        Err e \<Rightarrow> Err e
      | Ok _ \<Rightarrow>
          if stages = [] then Err EmptyAggregate
          else (case get_opt stages selected_stage of
              None \<Rightarrow> Err (SelectedStageOutOfBounds selected_stage (length stages))
            | Some selected \<Rightarrow>
                if list_ex (\<lambda>s. st_stages s \<noteq> []) stages then Err NestedAggregate
                else Ok (Status (st_code selected) (st_signal selected) stages d)))"

definition status_is_ok :: "status \<Rightarrow> bool" where
  "status_is_ok s \<longleftrightarrow> st_code s = Some 0"

text \<open>\<open>None\<close> is an \<open>unreachable!\<close> of the code.\<close>

definition status_display :: "status \<Rightarrow> string option" where
  "status_display s =
     (case (st_code s, st_signal s) of
        (Some c, None) \<Rightarrow>
          Some (if c = 0 then ''success'' else ''exit '' @ show_int (sint c))
      | (None, Some sg) \<Rightarrow>
          (case (sg_name sg, sg_number sg) of
             (Some name, Some number) \<Rightarrow>
               Some (''signal '' @ name @ '' ('' @ show_int (sint number) @ '')'')
           | (Some name, None) \<Rightarrow> Some (''signal '' @ name)
           | (None, Some number) \<Rightarrow> Some (''signal '' @ show_int (sint number))
           | (None, None) \<Rightarrow> None)
      | _ \<Rightarrow> None)"

subsection \<open>Types and values\<close>

datatype module_origin = OriginLocal | OriginStandard string string

text \<open>A path is compared by its components.\<close>

record module_id =
  mi_path :: "string list"
  mi_origin :: module_origin

record nominal_type_id =
  nt_module :: module_id
  nt_name :: string

datatype value_type =
    TyAny | TyNull | TyBool | TyInt | TyFloat | TyString | TyBytes | TyPath | TyDuration | TyByteSize
  | TyList value_type
  | TyRecord | TyTable | TyRange | TyStatus | TyError | TyFunction | TyClosure
  | TyParameter string
  | TyNominal nominal_type_id "value_type list"

datatype callable = Callable (cl_address: nat) (cl_family: string)

datatype 'e opaal_value =
    VNull
  | VBool bool
  | VInt "64 word"
  | VFloat finite_float
  | VString string
  | VBytes string
  | VPath native_path
  | VDuration duration
  | VByteSize byte_size
  | VList "'e opaal_value list"
  | VRecord "(string \<times> 'e opaal_value) list"
  | VNominalRecord nominal_type_id "value_type list" "(string \<times> 'e opaal_value) list"
  | VVariant nominal_type_id "value_type list" string "'e opaal_value list"
  | VTable "string list" "'e opaal_value list list"
  | VRange range
  | VStatus status
  | VError 'e
  | VCallable callable

definition family_name :: "'e opaal_value \<Rightarrow> string" where
  "family_name v =
     (case v of
        VNull \<Rightarrow> ''null''
      | VBool _ \<Rightarrow> ''bool''
      | VInt _ \<Rightarrow> ''int''
      | VFloat _ \<Rightarrow> ''float''
      | VString _ \<Rightarrow> ''string''
      | VBytes _ \<Rightarrow> ''bytes''
      | VPath _ \<Rightarrow> ''path''
      | VDuration _ \<Rightarrow> ''duration''
      | VByteSize _ \<Rightarrow> ''byte size''
      | VList _ \<Rightarrow> ''list''
      | VRecord _ \<Rightarrow> ''record''
      | VNominalRecord _ _ _ \<Rightarrow> ''nominal record''
      | VVariant _ _ _ _ \<Rightarrow> ''variant''
      | VTable _ _ \<Rightarrow> ''table''
      | VRange _ \<Rightarrow> ''range''
      | VStatus _ \<Rightarrow> ''status''
      | VError _ \<Rightarrow> ''error''
      | VCallable c \<Rightarrow> cl_family c)"

definition as_list :: "'e opaal_value \<Rightarrow> 'e opaal_value list option" where
  "as_list v = (case v of VList vs \<Rightarrow> Some vs | _ \<Rightarrow> None)"

subsection \<open>Equality of values\<close>

definition entry_eq :: "('v \<Rightarrow> 'v \<Rightarrow> bool) \<Rightarrow> string \<times> 'v \<Rightarrow> string \<times> 'v \<Rightarrow> bool" where
  "entry_eq eq a b \<longleftrightarrow> fst a = fst b \<and> eq (snd a) (snd b)"

lemma entry_eq_cong [fundef_cong]:
  assumes "a = a'" "b = b'" "\<And>x y. x = snd a' \<Longrightarrow> y = snd b' \<Longrightarrow> f x y = g x y"
  shows "entry_eq f a b = entry_eq g a' b'"
  using assms by (simp add: entry_eq_def)

lemma size_entry:
  "(k, v) \<in> set xs \<Longrightarrow> size v < Suc (size_list (size_prod (\<lambda>_. 0) size) xs)"
  by (induction xs) auto

lemma size_entry_snd:
  "p \<in> set xs \<Longrightarrow> size (snd p) < Suc (size_list (size_prod (\<lambda>_. 0) size) xs)"
  by (cases p) (auto dest: size_entry)

lemma size_cell:
  "row \<in> set rows \<Longrightarrow> c \<in> set row \<Longrightarrow> size c < Suc (size_list (size_list size) rows)"
proof (induction rows)
  case (Cons r rows)
  then show ?case using size_list_estimation' [of c r "size c" size] by auto
qed simp

function value_eq :: "('e \<Rightarrow> 'e \<Rightarrow> bool) \<Rightarrow> 'e opaal_value \<Rightarrow> 'e opaal_value \<Rightarrow> bool" where
  "value_eq err_eq a b =
     (case a of
        VNull \<Rightarrow> (case b of VNull \<Rightarrow> True | _ \<Rightarrow> False)
      | VBool x \<Rightarrow> (case b of VBool y \<Rightarrow> x = y | _ \<Rightarrow> False)
      | VInt x \<Rightarrow> (case b of VInt y \<Rightarrow> x = y | VFloat y \<Rightarrow> int_float_equal x y | _ \<Rightarrow> False)
      | VFloat x \<Rightarrow> (case b of VFloat y \<Rightarrow> x = y | VInt y \<Rightarrow> int_float_equal y x | _ \<Rightarrow> False)
      | VString x \<Rightarrow> (case b of VString y \<Rightarrow> x = y | _ \<Rightarrow> False)
      | VBytes x \<Rightarrow> (case b of VBytes y \<Rightarrow> x = y | _ \<Rightarrow> False)
      | VPath x \<Rightarrow> (case b of VPath y \<Rightarrow> x = y | _ \<Rightarrow> False)
      | VDuration x \<Rightarrow> (case b of VDuration y \<Rightarrow> x = y | _ \<Rightarrow> False)
      | VByteSize x \<Rightarrow> (case b of VByteSize y \<Rightarrow> x = y | _ \<Rightarrow> False)
      | VList xs \<Rightarrow> (case b of VList ys \<Rightarrow> list_all2 (value_eq err_eq) xs ys | _ \<Rightarrow> False)
      | VRecord xs \<Rightarrow>
          (case b of VRecord ys \<Rightarrow> list_all2 (entry_eq (value_eq err_eq)) xs ys | _ \<Rightarrow> False)
      | VNominalRecord i ts xs \<Rightarrow>
          (case b of
             VNominalRecord j us ys \<Rightarrow>
               i = j \<and> ts = us \<and> list_all2 (entry_eq (value_eq err_eq)) xs ys
           | _ \<Rightarrow> False)
      | VVariant i ts c xs \<Rightarrow>
          (case b of
             VVariant j us d ys \<Rightarrow>
               i = j \<and> ts = us \<and> c = d \<and> list_all2 (value_eq err_eq) xs ys
           | _ \<Rightarrow> False)
      | VTable cs xs \<Rightarrow>
          (case b of
             VTable ds ys \<Rightarrow> cs = ds \<and> list_all2 (list_all2 (value_eq err_eq)) xs ys
           | _ \<Rightarrow> False)
      | VRange x \<Rightarrow> (case b of VRange y \<Rightarrow> x = y | _ \<Rightarrow> False)
      | VStatus x \<Rightarrow> (case b of VStatus y \<Rightarrow> x = y | _ \<Rightarrow> False)
      | VError x \<Rightarrow> (case b of VError y \<Rightarrow> err_eq x y | _ \<Rightarrow> False)
      | VCallable x \<Rightarrow> (case b of VCallable y \<Rightarrow> cl_address x = cl_address y | _ \<Rightarrow> False))"
  by pat_completeness auto

termination
  by (relation "measure (\<lambda>(e, a, b). size a)")
    (auto dest: size_entry_snd size_cell size_list_estimation' [of _ _ _ size, OF _ order_refl]
      simp: less_Suc_eq_le)

declare value_eq.simps [simp del]

subsection \<open>Records\<close>

record duplicate_record_key =
  dk_key :: string
  dk_index :: nat

fun record_check ::
  "nat \<Rightarrow> (string \<times> 'v) list \<Rightarrow> (string \<times> 'v) list
     \<Rightarrow> ((string \<times> 'v) list, duplicate_record_key) result" where
  "record_check index checked [] = Ok checked"
| "record_check index checked ((key, v) # entries) =
     (if list_ex (\<lambda>(existing, _). existing = key) checked
      then Err \<lparr>dk_key = key, dk_index = index\<rparr>
      else record_check (index + 1) (checked @ [(key, v)]) entries)"

definition record_new ::
  "(string \<times> 'v) list \<Rightarrow> ((string \<times> 'v) list, duplicate_record_key) result" where
  "record_new entries = record_check 0 [] entries"

text \<open>\<open>Record::get\<close> and \<open>NominalRecordValue::get\<close> find the first entry of the name.\<close>

fun record_get :: "(string \<times> 'v) list \<Rightarrow> string \<Rightarrow> 'v option" where
  "record_get [] key = None"
| "record_get ((candidate, v) # entries) key =
     (if candidate = key then Some v else record_get entries key)"

subsection \<open>Tables\<close>

datatype table_error = DuplicateColumn string nat | RowWidth nat nat nat

record 'v table =
  tb_columns :: "string list"
  tb_rows :: "'v list list"

fun column_check :: "nat \<Rightarrow> string list \<Rightarrow> string list \<Rightarrow> (string list, table_error) result" where
  "column_check index checked [] = Ok checked"
| "column_check index checked (column # columns) =
     (if column \<in> set checked then Err (DuplicateColumn column index)
      else column_check (index + 1) (checked @ [column]) columns)"

fun row_check :: "nat \<Rightarrow> nat \<Rightarrow> 'v list list \<Rightarrow> (unit, table_error) result" where
  "row_check width row [] = Ok ()"
| "row_check width row (cells # rows) =
     (if length cells \<noteq> width then Err (RowWidth row width (length cells))
      else row_check width (row + 1) rows)"

definition table_new :: "string list \<Rightarrow> 'v list list \<Rightarrow> ('v table, table_error) result" where
  "table_new columns rows =
     (case column_check 0 [] columns of
        Err e \<Rightarrow> Err e
      | Ok checked \<Rightarrow>
          (case row_check (length checked) 0 rows of
             Err e \<Rightarrow> Err e
           | Ok _ \<Rightarrow> Ok \<lparr>tb_columns = checked, tb_rows = rows\<rparr>))"

definition add_columns :: "string list \<Rightarrow> (string \<times> 'v) list \<Rightarrow> string list" where
  "add_columns columns record =
     foldl (\<lambda>cs (key, _). if key \<in> set cs then cs else cs @ [key]) columns record"

definition table_from_records :: "(string \<times> 'e opaal_value) list list \<Rightarrow> 'e opaal_value table" where
  "table_from_records records =
     (let columns = foldl add_columns [] records
      in \<lparr>tb_columns = columns,
          tb_rows = map (\<lambda>r. map (\<lambda>c. case record_get r c of Some v \<Rightarrow> v | None \<Rightarrow> VNull) columns)
            records\<rparr>)"

fun position_of :: "'a \<Rightarrow> 'a list \<Rightarrow> nat option" where
  "position_of x [] = None"
| "position_of x (y # ys) = (if y = x then Some 0 else map_option Suc (position_of x ys))"

definition column_index :: "'v table \<Rightarrow> string \<Rightarrow> nat option" where
  "column_index t column = position_of column (tb_columns t)"

text \<open>The outer option is the panic of \<open>cells[index]\<close>.\<close>

definition table_get :: "'v table \<Rightarrow> nat \<Rightarrow> string \<Rightarrow> 'v option option" where
  "table_get t row column =
     (case column_index t column of
        None \<Rightarrow> Some None
      | Some index \<Rightarrow>
          (case get_opt (tb_rows t) row of
             None \<Rightarrow> Some None
           | Some cells \<Rightarrow> map_option Some (get_opt cells index)))"

subsection \<open>Writers\<close>

definition is_control :: "nat \<Rightarrow> bool" where
  "is_control cp \<longleftrightarrow> cp < 0x20 \<or> 0x7F \<le> cp \<and> cp < 0xA0"

definition write_char :: "nat \<Rightarrow> string" where
  "write_char cp =
     (if cp = 0x22 then [CHR 0x5C, CHR 0x22]
      else if cp = 0x5C then [CHR 0x5C, CHR 0x5C]
      else if cp = 0x0A then [CHR 0x5C, CHR ''n'']
      else if cp = 0x0D then [CHR 0x5C, CHR ''r'']
      else if cp = 0x09 then [CHR 0x5C, CHR ''t'']
      else if cp = 0 then [CHR 0x5C, CHR ''0'']
      else if is_control cp then [CHR 0x5C] @ ''u{'' @ show_hex cp @ ''}''
      else encode_utf8 cp)"

definition write_string_content :: "string \<Rightarrow> string" where
  "write_string_content s = concat (map write_char (chars s))"

definition write_quoted :: "string \<Rightarrow> string" where
  "write_quoted s = [CHR 0x22] @ write_string_content s @ [CHR 0x22]"

definition write_hex_byte :: "byte \<Rightarrow> string" where
  "write_hex_byte b = [CHR 0x5C, CHR ''x'', hex_digit (u8 b div 16), hex_digit (u8 b mod 16)]"

definition write_byte :: "byte \<Rightarrow> string" where
  "write_byte b =
     (if b = CHR 0x22 then [CHR 0x5C, CHR 0x22]
      else if b = CHR 0x5C then [CHR 0x5C, CHR 0x5C]
      else if 0x20 \<le> u8 b \<and> u8 b \<le> 0x7E then [b]
      else write_hex_byte b)"

definition write_bytes :: "string \<Rightarrow> string" where
  "write_bytes bs = concat (map write_byte bs)"

text \<open>
  One round of the loop of \<open>write_utf8_with_invalid_bytes\<close> writes the valid prefix and the bytes of
  one error in hexadecimal; \<open>None\<close> is the panic of its \<open>expect\<close>, or a round that takes nothing off
  the bytes, after which the loop would not end. \<open>utf8_chars\<close> of the prelude is
  \<open>std::str::from_utf8\<close> with its error's \<open>valid_up_to\<close> and \<open>error_len\<close>.
\<close>

function write_utf8_with_invalid_bytes :: "string \<Rightarrow> string option" where
  "write_utf8_with_invalid_bytes bytes =
     (if bytes = [] then Some []
      else (case utf8_chars bytes of
          Ok _ \<Rightarrow> Some (write_string_content bytes)
        | Err (valid_up_to, error_len) \<Rightarrow>
            if \<not> valid_utf8 (take valid_up_to bytes) then None
            else
              let rest = drop valid_up_to bytes;
                  invalid_len = (case error_len of Some n \<Rightarrow> n | None \<Rightarrow> length rest)
              in if valid_up_to + invalid_len = 0 then None
                 else map_option (\<lambda>out. write_string_content (take valid_up_to bytes)
                     @ concat (map write_hex_byte (take invalid_len rest)) @ out)
                   (write_utf8_with_invalid_bytes (drop invalid_len rest))))"
  by pat_completeness auto
termination
  by (relation "measure length") auto

declare write_utf8_with_invalid_bytes.simps [simp del]

subsection \<open>Acceptance, substitution and unification of value types\<close>

fun accepts :: "value_type \<Rightarrow> 'e opaal_value \<Rightarrow> bool" where
  "accepts TyAny v \<longleftrightarrow> True"
| "accepts TyNull v \<longleftrightarrow> (case v of VNull \<Rightarrow> True | _ \<Rightarrow> False)"
| "accepts TyBool v \<longleftrightarrow> (case v of VBool _ \<Rightarrow> True | _ \<Rightarrow> False)"
| "accepts TyInt v \<longleftrightarrow> (case v of VInt _ \<Rightarrow> True | _ \<Rightarrow> False)"
| "accepts TyFloat v \<longleftrightarrow> (case v of VFloat _ \<Rightarrow> True | _ \<Rightarrow> False)"
| "accepts TyString v \<longleftrightarrow> (case v of VString _ \<Rightarrow> True | _ \<Rightarrow> False)"
| "accepts TyBytes v \<longleftrightarrow> (case v of VBytes _ \<Rightarrow> True | _ \<Rightarrow> False)"
| "accepts TyPath v \<longleftrightarrow> (case v of VPath _ \<Rightarrow> True | _ \<Rightarrow> False)"
| "accepts TyDuration v \<longleftrightarrow> (case v of VDuration _ \<Rightarrow> True | _ \<Rightarrow> False)"
| "accepts TyByteSize v \<longleftrightarrow> (case v of VByteSize _ \<Rightarrow> True | _ \<Rightarrow> False)"
| "accepts (TyList t) v \<longleftrightarrow> (case v of VList vs \<Rightarrow> list_all (accepts t) vs | _ \<Rightarrow> False)"
| "accepts TyRecord v \<longleftrightarrow> (case v of VRecord _ \<Rightarrow> True | _ \<Rightarrow> False)"
| "accepts TyTable v \<longleftrightarrow> (case v of VTable _ _ \<Rightarrow> True | _ \<Rightarrow> False)"
| "accepts TyRange v \<longleftrightarrow> (case v of VRange _ \<Rightarrow> True | _ \<Rightarrow> False)"
| "accepts TyStatus v \<longleftrightarrow> (case v of VStatus _ \<Rightarrow> True | _ \<Rightarrow> False)"
| "accepts TyError v \<longleftrightarrow> (case v of VError _ \<Rightarrow> True | _ \<Rightarrow> False)"
| "accepts TyFunction v \<longleftrightarrow> (case v of VCallable c \<Rightarrow> cl_family c = ''function'' | _ \<Rightarrow> False)"
| "accepts TyClosure v \<longleftrightarrow> (case v of VCallable c \<Rightarrow> cl_family c = ''closure'' | _ \<Rightarrow> False)"
| "accepts (TyParameter _) v \<longleftrightarrow> True"
| "accepts (TyNominal i arguments) v \<longleftrightarrow>
     (case v of
        VNominalRecord j actual _ \<Rightarrow> i = j \<and> arguments = actual
      | VVariant j actual _ _ \<Rightarrow> i = j \<and> arguments = actual
      | _ \<Rightarrow> False)"

fun accepts_type :: "value_type \<Rightarrow> value_type \<Rightarrow> bool" where
  "accepts_type TyAny actual \<longleftrightarrow> True"
| "accepts_type (TyList expected) (TyList actual) \<longleftrightarrow> accepts_type expected actual"
| "accepts_type expected actual \<longleftrightarrow> expected = actual"

fun comma_join :: "string list \<Rightarrow> string" where
  "comma_join [] = []"
| "comma_join [s] = s"
| "comma_join (s # ss) = s @ '', '' @ comma_join ss"

fun type_display :: "value_type \<Rightarrow> string" where
  "type_display TyAny = ''Any''"
| "type_display TyNull = ''Null''"
| "type_display TyBool = ''Bool''"
| "type_display TyInt = ''Int''"
| "type_display TyFloat = ''Float''"
| "type_display TyString = ''String''"
| "type_display TyBytes = ''Bytes''"
| "type_display TyPath = ''Path''"
| "type_display TyDuration = ''Duration''"
| "type_display TyByteSize = ''ByteSize''"
| "type_display (TyList t) = ''List['' @ type_display t @ '']''"
| "type_display TyRecord = ''Record''"
| "type_display TyTable = ''Table''"
| "type_display TyRange = ''Range''"
| "type_display TyStatus = ''Status''"
| "type_display TyError = ''Error''"
| "type_display TyFunction = ''Function''"
| "type_display TyClosure = ''Closure''"
| "type_display (TyParameter name) = name"
| "type_display (TyNominal i arguments) =
     nt_name i
       @ (if arguments = [] then [] else ''['' @ comma_join (map type_display arguments) @ '']'')"

type_synonym substitution = "string \<rightharpoonup> value_type"

fun substitute_type :: "value_type \<Rightarrow> substitution \<Rightarrow> value_type" where
  "substitute_type (TyParameter name) s =
     (case s name of Some t \<Rightarrow> t | None \<Rightarrow> TyParameter name)"
| "substitute_type (TyList t) s = TyList (substitute_type t s)"
| "substitute_type (TyNominal i arguments) s =
     TyNominal i (map (\<lambda>a. substitute_type a s) arguments)"
| "substitute_type t s = t"

fun has_unbound_type_parameters :: "value_type \<Rightarrow> substitution \<Rightarrow> bool" where
  "has_unbound_type_parameters (TyParameter name) s \<longleftrightarrow> s name = None"
| "has_unbound_type_parameters (TyList t) s \<longleftrightarrow> has_unbound_type_parameters t s"
| "has_unbound_type_parameters (TyNominal i arguments) s \<longleftrightarrow>
     list_ex (\<lambda>a. has_unbound_type_parameters a s) arguments"
| "has_unbound_type_parameters t s \<longleftrightarrow> False"

fun unify_type :: "value_type \<Rightarrow> value_type \<Rightarrow> substitution \<Rightarrow> bool \<times> substitution"
  and unify_all :: "value_type list \<Rightarrow> value_type list \<Rightarrow> substitution \<Rightarrow> bool \<times> substitution"
where
  "unify_type (TyParameter name) actual s =
     (if actual = TyAny then (True, s)
      else (case s name of
          Some previous \<Rightarrow> (previous = actual, s)
        | None \<Rightarrow> (True, s(name \<mapsto> actual))))"
| "unify_type (TyList expected) (TyList actual) s = unify_type expected actual s"
| "unify_type (TyNominal i es) (TyNominal j as) s =
     (if i = j \<and> length es = length as then unify_all es as s
      else (TyNominal i es = TyNominal j as, s))"
| "unify_type expected actual s =
     (if expected = TyAny \<or> actual = TyAny then (True, s) else (expected = actual, s))"
| "unify_all (e # es) (a # as) s =
     (case unify_type e a s of (True, s') \<Rightarrow> unify_all es as s' | (False, s') \<Rightarrow> (False, s'))"
| "unify_all es as s = (True, s)"

end
