(* ===== verification/Value_Correct.thy ===== *)
theory Value_Correct
  imports Value
begin

section \<open>Values: equality, construction and types\<close>

text \<open>
  The proofs on the model of the runtime values: the comparison of an integer with a float is exact,
  equality of well-formed values is an equivalence, record and table construction and statuses keep
  their invariants and name the first fault otherwise, the writers always finish, and the
  acceptance, substitution and unification of value types fit together.
\<close>

subsection \<open>Floats\<close>

text \<open>The value of a finite float times \<open>2 ^ 1075\<close>, an integer.\<close>

definition f64_scaled :: "64 word \<Rightarrow> int" where
  "f64_scaled b =
     (let m = int (f64_mantissa b * 2 ^ f64_scale b) in if f64_negative b then - m else m)"

definition float_ok :: "finite_float \<Rightarrow> bool" where
  "float_ok f \<longleftrightarrow> f64_is_finite (float_bits f) \<and> float_bits f \<noteq> 2 ^ 63"

lemma f64_split:
  "unat b = (if f64_negative b then 2 ^ 63 else 0) + f64_exponent b * 2 ^ 52 + f64_fraction b"
proof -
  have "unat b < 2 ^ 64" using unsigned_less [of b, where ?'a = nat] by simp
  then have s: "unat b div 2 ^ 63 = (if f64_negative b then 1 else 0)"
    by (auto simp: f64_negative_def)
  have "unat b = unat b div 2 ^ 52 * 2 ^ 52 + f64_fraction b"
    unfolding f64_fraction_def by (rule div_mult_mod_eq [symmetric])
  moreover have "unat b div 2 ^ 52 = unat b div 2 ^ 63 * 2 ^ 11 + f64_exponent b"
  proof -
    have "unat b div 2 ^ 52 div 2 ^ 11 = unat b div 2 ^ 63"
      by (simp add: div_mult2_eq [symmetric] power_add [symmetric] del: power_numeral)
    then show ?thesis
      unfolding f64_exponent_def using div_mult_mod_eq [of "unat b div 2 ^ 52" "2 ^ 11", symmetric] by simp
  qed
  ultimately show ?thesis using s by (auto split: if_splits)
qed

lemma f64_fraction_less: "f64_fraction b < 2 ^ 52"
  by (simp add: f64_fraction_def)

lemma mantissa_less: "f64_mantissa b < 2 ^ 53"
  using f64_fraction_less [of b] by (auto simp: f64_mantissa_def)

lemma mantissa_scale_inj:
  fixes m n e f :: nat
  assumes "m * 2 ^ e = n * 2 ^ f" "m < 2 ^ 53" "n < 2 ^ 53" "m \<noteq> 0"
    and "e = 1 \<or> 2 ^ 52 \<le> m" "f = 1 \<or> 2 ^ 52 \<le> n" "1 \<le> e" "1 \<le> f"
  shows "m = n \<and> e = f"
proof -
  have step: "e' \<ge> f'"
    if h: "m' * 2 ^ e' = n' * 2 ^ f'" "m' < 2 ^ 53" "f' = 1 \<or> 2 ^ 52 \<le> n'" "1 \<le> e'" "n' \<noteq> 0"
    for m' n' e' f' :: nat
  proof (rule ccontr)
    assume "\<not> f' \<le> e'"
    then have lt: "e' < f'" by simp
    with h(3,4) have n: "2 ^ 52 \<le> n'" by auto
    have "m' * 2 ^ e' = n' * 2 ^ (f' - e') * 2 ^ e'"
      using h(1) lt by (simp add: mult.assoc power_add [symmetric])
    then have "m' = n' * 2 ^ (f' - e')" by simp
    moreover have "(2::nat) ^ 1 \<le> 2 ^ (f' - e')" using lt by (intro power_increasing) auto
    then have "2 ^ 52 * 2 \<le> n' * 2 ^ (f' - e')" using n by (intro mult_le_mono) auto
    ultimately show False using h(2) by simp
  qed
  have "n \<noteq> 0" using assms(1,4) by (cases "n = 0") auto
  with step [OF assms(1,2,6,7)] step [OF assms(1) [symmetric] assms(3,5,8) assms(4)] have "e = f" by simp
  with assms(1) show ?thesis by simp
qed

lemma f64_scaled_inj:
  assumes "f64_scaled b = f64_scaled c" "f64_is_finite b" "f64_is_finite c" "b \<noteq> 2 ^ 63" "c \<noteq> 2 ^ 63"
  shows "b = c"
proof -
  have zero: "x = 0" if "f64_mantissa x = 0" "x \<noteq> 2 ^ 63" for x
  proof -
    have "f64_exponent x = 0" "f64_fraction x = 0"
      using that(1) by (auto simp: f64_mantissa_def split: if_splits)
    with f64_split [of x] have "unat x = (if f64_negative x then 2 ^ 63 else 0)" by simp
    moreover have "unat (2 ^ 63 :: 64 word) = 2 ^ 63" by simp
    ultimately show ?thesis
      using that(2) by (auto simp: word_eq_iff_unsigned [where ?'a = nat] split: if_splits)
  qed
  let ?M = "\<lambda>x. f64_mantissa x * 2 ^ f64_scale x"
  have "\<bar>f64_scaled x\<bar> = int (?M x)" for x by (simp add: f64_scaled_def Let_def)
  with assms(1) have M: "?M b = ?M c" by (metis of_nat_eq_iff)
  show ?thesis
  proof (cases "f64_mantissa b = 0")
    case True
    with M have "f64_mantissa c = 0" by simp
    with True zero assms show ?thesis by metis
  next
    case False
    have sc: "f64_scale x = 1 \<or> 2 ^ 52 \<le> f64_mantissa x" "1 \<le> f64_scale x" for x
      by (auto simp: f64_scale_def f64_mantissa_def)
    from mantissa_scale_inj [OF M mantissa_less mantissa_less False sc(1) sc(1) sc(2) sc(2)]
    have m: "f64_mantissa b = f64_mantissa c" "f64_scale b = f64_scale c" by auto
    have "f64_exponent x = 0 \<longleftrightarrow> f64_scale x = 1 \<and> f64_mantissa x < 2 ^ 52" for x
      using f64_fraction_less [of x] by (auto simp: f64_scale_def f64_mantissa_def)
    with m have e: "f64_exponent b = 0 \<longleftrightarrow> f64_exponent c = 0" by simp
    have x: "f64_exponent b = f64_exponent c"
      using m(2) e by (auto simp: f64_scale_def max_def split: if_splits)
    moreover have "f64_fraction b = f64_fraction c"
      using m(1) x by (auto simp: f64_mantissa_def split: if_splits)
    moreover have "f64_negative b = f64_negative c"
      using assms(1) M False by (auto simp: f64_scaled_def Let_def split: if_splits)
    ultimately have "unat b = unat c" using f64_split [of b] f64_split [of c] by simp
    then show ?thesis by (simp add: word_eq_iff_unsigned [where ?'a = nat])
  qed
qed

lemma sint_bounds64: "- (2 ^ 63) \<le> sint (i :: 64 word)" "sint i < 2 ^ 63"
  using signed_take_bit_int_greater_eq_minus_exp [of 63 "uint i"] signed_take_bit_int_less_exp [of 63 "uint i"]
  by (simp_all add: sint_uint)

lemma int_float_equal_scaled:
  "int_float_equal i f \<longleftrightarrow> f64_scaled (float_bits f) = sint i * 2 ^ 1075"
proof -
  define M :: nat where "M = f64_mantissa (float_bits f) * 2 ^ f64_scale (float_bits f)"
  define P :: nat where "P = 2 ^ 1075"
  have P: "0 < P" "int P = 2 ^ 1075" by (simp_all add: P_def)
  let ?q = "int (M div P)"
  let ?v = "if f64_negative (float_bits f) then - ?q else ?q"
  have "max (- (2 ^ 127)) (min (2 ^ 127 - 1) ?v) = sint i \<longleftrightarrow> ?v = sint i"
    using sint_bounds64 [of i] by (auto simp: max_def min_def)
  then have l: "int_float_equal i f \<longleftrightarrow> M mod P = 0 \<and> ?v = sint i"
    by (simp only: int_float_equal_def f64_is_integral_def f64_to_i128_def Let_def M_def P_def)
  have "M mod P = 0 \<and> ?v = sint i
      \<longleftrightarrow> (if f64_negative (float_bits f) then - int M else int M) = sint i * int P"
  proof
    assume "M mod P = 0 \<and> ?v = sint i"
    then obtain q where "M = q * P" and "?v = sint i" by (metis mod_0_imp_dvd dvd_def mult.commute)
    with P(1) show "(if f64_negative (float_bits f) then - int M else int M) = sint i * int P"
      by (auto simp flip: mult_minus_left split: if_splits)
  next
    assume a: "(if f64_negative (float_bits f) then - int M else int M) = sint i * int P"
    then have "int P dvd int M" by (metis dvd_minus_iff dvd_triv_right)
    then obtain q where q: "M = P * q" by (auto simp: int_dvd_int_iff elim: dvdE)
    then have "int M = int q * int P" by simp
    with a have "(if f64_negative (float_bits f) then - int q else int q) * int P = sint i * int P"
      by (cases "f64_negative (float_bits f)") simp_all
    with P(1) have "(if f64_negative (float_bits f) then - int q else int q) = sint i"
      by simp
    with q P(1) show "M mod P = 0 \<and> ?v = sint i" by (simp split: if_splits)
  qed
  then show ?thesis by (simp only: l f64_scaled_def M_def Let_def P(2))
qed

subsection \<open>Equality of values\<close>

text \<open>Well-formed statuses and values: what the constructors of the code let through.\<close>

definition leaf_ok :: "status \<Rightarrow> bool" where
  "leaf_ok s \<longleftrightarrow>
     (st_code s = None) \<noteq> (st_signal s = None)
       \<and> (case st_signal s of None \<Rightarrow> True | Some sg \<Rightarrow> sg_number sg \<noteq> None \<or> sg_name sg \<noteq> None)
       \<and> 0 \<le> sint (as_nanos (st_duration s))"

definition status_ok :: "status \<Rightarrow> bool" where
  "status_ok s \<longleftrightarrow>
     leaf_ok s \<and> list_all (\<lambda>t. leaf_ok t \<and> st_stages t = []) (st_stages s)
       \<and> (st_stages s = []
          \<or> list_ex (\<lambda>t. st_code t = st_code s \<and> st_signal t = st_signal s) (st_stages s))"

fun value_ok :: "'e opaal_value \<Rightarrow> bool" where
  "value_ok (VFloat f) \<longleftrightarrow> float_ok f"
| "value_ok (VList vs) \<longleftrightarrow> list_all value_ok vs"
| "value_ok (VRecord es) \<longleftrightarrow> distinct (map fst es) \<and> list_all (\<lambda>e. value_ok (snd e)) es"
| "value_ok (VNominalRecord i ts es) \<longleftrightarrow> list_all (\<lambda>e. value_ok (snd e)) es"
| "value_ok (VVariant i ts c vs) \<longleftrightarrow> list_all value_ok vs"
| "value_ok (VTable cs rows) \<longleftrightarrow>
     distinct cs \<and> list_all (\<lambda>row. length row = length cs \<and> list_all value_ok row) rows"
| "value_ok (VStatus s) \<longleftrightarrow> status_ok s"
| "value_ok v \<longleftrightarrow> True"

lemma list_all2_refl_on: "(\<And>x. x \<in> set xs \<Longrightarrow> P x x) \<Longrightarrow> list_all2 P xs xs"
  by (simp add: list_all2_conv_all_nth)

lemma list_all2_sym_on:
  "list_all2 P xs ys \<Longrightarrow> (\<And>x y. x \<in> set xs \<Longrightarrow> P x y \<Longrightarrow> Q y x) \<Longrightarrow> list_all2 Q ys xs"
  by (simp add: list_all2_conv_all_nth)

lemma list_all2_trans_on:
  assumes "list_all2 P xs ys" "list_all2 Q ys zs"
    and "\<And>x y z. x \<in> set xs \<Longrightarrow> y \<in> set ys \<Longrightarrow> z \<in> set zs \<Longrightarrow> P x y \<Longrightarrow> Q y z \<Longrightarrow> R x z"
  shows "list_all2 R xs zs"
  using assms unfolding list_all2_conv_all_nth by (metis nth_mem)

lemma value_eq_left:
  "value_eq e VNull b \<longleftrightarrow> b = VNull"
  "value_eq e (VBool t) b \<longleftrightarrow> b = VBool t"
  "value_eq e (VInt i) b \<longleftrightarrow> b = VInt i \<or> (\<exists>f. b = VFloat f \<and> int_float_equal i f)"
  "value_eq e (VFloat f) b \<longleftrightarrow> b = VFloat f \<or> (\<exists>i. b = VInt i \<and> int_float_equal i f)"
  "value_eq e (VString s) b \<longleftrightarrow> b = VString s"
  "value_eq e (VBytes s) b \<longleftrightarrow> b = VBytes s"
  "value_eq e (VPath p) b \<longleftrightarrow> b = VPath p"
  "value_eq e (VDuration d) b \<longleftrightarrow> b = VDuration d"
  "value_eq e (VByteSize z) b \<longleftrightarrow> b = VByteSize z"
  "value_eq e (VList xs) b \<longleftrightarrow> (\<exists>ys. b = VList ys \<and> list_all2 (value_eq e) xs ys)"
  "value_eq e (VRecord es) b \<longleftrightarrow> (\<exists>fs. b = VRecord fs \<and> list_all2 (entry_eq (value_eq e)) es fs)"
  "value_eq e (VNominalRecord k ts es) b \<longleftrightarrow>
     (\<exists>fs. b = VNominalRecord k ts fs \<and> list_all2 (entry_eq (value_eq e)) es fs)"
  "value_eq e (VVariant k ts c xs) b \<longleftrightarrow>
     (\<exists>ys. b = VVariant k ts c ys \<and> list_all2 (value_eq e) xs ys)"
  "value_eq e (VTable cs rows) b \<longleftrightarrow>
     (\<exists>rows'. b = VTable cs rows' \<and> list_all2 (list_all2 (value_eq e)) rows rows')"
  "value_eq e (VRange r) b \<longleftrightarrow> b = VRange r"
  "value_eq e (VStatus st) b \<longleftrightarrow> b = VStatus st"
  "value_eq e (VError x) b \<longleftrightarrow> (\<exists>y. b = VError y \<and> e x y)"
  "value_eq e (VCallable f1) b \<longleftrightarrow> (\<exists>f2. b = VCallable f2 \<and> cl_address f1 = cl_address f2)"
  by (subst value_eq.simps, cases b; auto)+

lemma value_eq_refl:
  assumes "reflp err_eq"
  shows "value_eq err_eq v v"
proof (induction v)
  case (VTable cs rows)
  then show ?case by (auto simp: value_eq_left intro!: list_all2_refl_on)
qed (use assms in \<open>auto intro!: list_all2_refl_on simp: value_eq_left entry_eq_def reflpD snds.simps\<close>)

lemma value_eq_sym:
  assumes "symp err_eq"
  shows "value_eq err_eq a b \<Longrightarrow> value_eq err_eq b a"
proof (induction a arbitrary: b)
  case (VRecord es)
  then show ?case by (auto simp: value_eq_left entry_eq_def snds.simps elim!: list_all2_sym_on)
next
  case (VNominalRecord k ts es)
  then show ?case by (auto simp: value_eq_left entry_eq_def snds.simps elim!: list_all2_sym_on)
next
  case (VTable cs rows)
  then show ?case
    by (auto simp: value_eq_left elim!: list_all2_sym_on)
qed (use assms in \<open>auto simp: value_eq_left elim!: list_all2_sym_on dest: sympD\<close>)

lemma int_float_same_int: "int_float_equal i f \<Longrightarrow> int_float_equal j f \<Longrightarrow> i = j"
  by (simp add: int_float_equal_scaled signed_word_eqI)

lemma int_float_same_float:
  "int_float_equal i f \<Longrightarrow> int_float_equal i g \<Longrightarrow> float_ok f \<Longrightarrow> float_ok g \<Longrightarrow> f = g"
  using f64_scaled_inj [of "float_bits f" "float_bits g"]
  by (cases f; cases g) (auto simp: int_float_equal_scaled float_ok_def)

lemma entries_trans:
  assumes "list_all2 (entry_eq P) xs ys" "list_all2 (entry_eq P) ys zs"
    and "\<And>x y z. x \<in> set xs \<Longrightarrow> y \<in> set ys \<Longrightarrow> z \<in> set zs \<Longrightarrow>
      P (snd x) (snd y) \<Longrightarrow> P (snd y) (snd z) \<Longrightarrow> P (snd x) (snd z)"
  shows "list_all2 (entry_eq P) xs zs"
  by (rule list_all2_trans_on [OF assms(1,2)]) (simp add: entry_eq_def, metis assms(3))

lemma values_trans:
  assumes "list_all2 (value_eq e) xs ys" "list_all2 (value_eq e) ys zs"
    and "\<And>x b c. x \<in> set xs \<Longrightarrow> value_eq e x b \<Longrightarrow> value_eq e b c \<Longrightarrow> value_ok x \<Longrightarrow> value_ok b \<Longrightarrow>
      value_ok c \<Longrightarrow> value_eq e x c"
    and "list_all value_ok xs" "list_all value_ok ys" "list_all value_ok zs"
  shows "list_all2 (value_eq e) xs zs"
  by (rule list_all2_trans_on [OF assms(1,2)]) (use assms(3-) in \<open>auto simp: list_all_iff\<close>)

lemma snd_in_snds: "snd x \<in> Basic_BNFs.snds x"
  by (cases x) simp

lemma value_eq_trans:
  assumes "transp err_eq"
  shows "value_eq err_eq a b \<Longrightarrow> value_eq err_eq b c \<Longrightarrow> value_ok a \<Longrightarrow> value_ok b \<Longrightarrow> value_ok c \<Longrightarrow>
    value_eq err_eq a c"
proof (induction a arbitrary: b c)
  case (VInt i)
  then show ?case by (auto simp: value_eq_left dest: int_float_same_int)
next
  case (VFloat f)
  then show ?case
    by (auto simp: value_eq_left dest: int_float_same_int) (metis int_float_same_float)
next
  case (VRecord es)
  from VRecord.prems obtain fs gs where "b = VRecord fs" "c = VRecord gs"
    and l: "list_all2 (entry_eq (value_eq err_eq)) es fs" "list_all2 (entry_eq (value_eq err_eq)) fs gs"
    by (auto simp: value_eq_left)
  moreover from this have "list_all2 (entry_eq (value_eq err_eq)) es gs"
    using VRecord.prems
    by (intro entries_trans [OF l]) (rule VRecord.IH [OF _ snd_in_snds], auto simp: list_all_iff)
  ultimately show ?case by (simp add: value_eq_left)
next
  case (VNominalRecord k ts es)
  from VNominalRecord.prems obtain fs gs where "b = VNominalRecord k ts fs" "c = VNominalRecord k ts gs"
    and l: "list_all2 (entry_eq (value_eq err_eq)) es fs" "list_all2 (entry_eq (value_eq err_eq)) fs gs"
    by (auto simp: value_eq_left)
  moreover from this have "list_all2 (entry_eq (value_eq err_eq)) es gs"
    using VNominalRecord.prems
    by (intro entries_trans [OF l]) (rule VNominalRecord.IH [OF _ snd_in_snds], auto simp: list_all_iff)
  ultimately show ?case by (simp add: value_eq_left)
next
  case (VTable cs rows)
  from VTable.prems obtain rs ts where "b = VTable cs rs" "c = VTable cs ts"
    and l: "list_all2 (list_all2 (value_eq err_eq)) rows rs" "list_all2 (list_all2 (value_eq err_eq)) rs ts"
    by (auto simp: value_eq_left)
  moreover have "list_all2 (list_all2 (value_eq err_eq)) rows ts"
  proof (rule list_all2_trans_on [OF l])
    fix x y z
    assume m: "x \<in> set rows" "y \<in> set rs" "z \<in> set ts"
      and e: "list_all2 (value_eq err_eq) x y" "list_all2 (value_eq err_eq) y z"
    show "list_all2 (value_eq err_eq) x z"
      by (rule values_trans [OF e VTable.IH [OF m(1)]])
        (use m VTable.prems calculation in \<open>auto simp: list_all_iff\<close>)
  qed
  ultimately show ?case by (simp add: value_eq_left)
next
  case (VList xs)
  from VList.prems obtain ys zs where bc: "b = VList ys" "c = VList zs"
    and l: "list_all2 (value_eq err_eq) xs ys" "list_all2 (value_eq err_eq) ys zs"
    by (auto simp: value_eq_left)
  with values_trans [OF l VList.IH] VList.prems show ?case by (simp add: value_eq_left)
next
  case (VVariant k ts n xs)
  from VVariant.prems obtain ys zs where bc: "b = VVariant k ts n ys" "c = VVariant k ts n zs"
    and l: "list_all2 (value_eq err_eq) xs ys" "list_all2 (value_eq err_eq) ys zs"
    by (auto simp: value_eq_left)
  with values_trans [OF l VVariant.IH] VVariant.prems show ?case by (simp add: value_eq_left)
next
  case (VError x)
  with assms show ?case by (auto simp: value_eq_left) (metis transpD)
qed (auto simp: value_eq_left)

subsection \<open>Construction\<close>

lemma record_check_spec:
  "distinct (map fst checked) \<Longrightarrow>
   (case record_check i checked es of
      Ok r \<Rightarrow> r = checked @ es \<and> distinct (map fst (checked @ es))
    | Err d \<Rightarrow> \<exists>us v vs. es = us @ (dk_key d, v) # vs \<and> dk_index d = i + length us
        \<and> distinct (map fst (checked @ us)) \<and> dk_key d \<in> fst ` set (checked @ us))"
proof (induction i checked es rule: record_check.induct)
  case (2 i checked key v es)
  show ?case
  proof (cases "list_ex (\<lambda>(existing, _). existing = key) checked")
    case True
    then have "key \<in> fst ` set checked" by (force simp: list_ex_iff)
    with True 2 show ?thesis by (auto intro!: exI [of _ "[]"])
  next
    case False
    then have "distinct (map fst (checked @ [(key, v)]))"
      using 2 by (auto simp: list_ex_iff)
    note ih = "2.IH" [OF False this]
    show ?thesis
    proof (cases "record_check (i + 1) (checked @ [(key, v)]) es")
      case (Inl d)
      with ih obtain us w vs where "es = us @ (dk_key d, w) # vs" "dk_index d = i + 1 + length us"
        "distinct (map fst ((checked @ [(key, v)]) @ us))" "dk_key d \<in> fst ` set ((checked @ [(key, v)]) @ us)"
        by auto
      then have f: "(key, v) # es = ((key, v) # us) @ (dk_key d, w) # vs" "dk_index d = i + length ((key, v) # us)"
        "distinct (map fst (checked @ (key, v) # us))" "dk_key d \<in> fst ` set (checked @ (key, v) # us)"
        by simp_all
      have e: "record_check i checked ((key, v) # es) = Err d" using Inl False by simp
      show ?thesis
        unfolding e sum.case by (rule exI [of _ "(key, v) # us"], rule exI [of _ w], rule exI [of _ vs])
          (intro conjI f)
    next
      case (Inr r)
      with ih False show ?thesis by simp
    qed
  qed
qed auto

lemma column_check_spec:
  "distinct checked \<Longrightarrow>
   (case column_check i checked cs of
      Ok r \<Rightarrow> r = checked @ cs \<and> distinct (checked @ cs)
    | Err e \<Rightarrow> \<not> distinct (checked @ cs))"
  by (induction i checked cs rule: column_check.induct) (auto split: sum.splits)

lemma row_check_spec: "row_check w i rows = Ok () \<longleftrightarrow> list_all (\<lambda>r. length r = w) rows"
  by (induction w i rows rule: row_check.induct) auto

definition rectangular :: "'v table \<Rightarrow> bool" where
  "rectangular t \<longleftrightarrow>
     distinct (tb_columns t) \<and> list_all (\<lambda>r. length r = length (tb_columns t)) (tb_rows t)"

lemma add_columns_simps [simp]:
  "add_columns cs [] = cs"
  "add_columns cs (e # r) = add_columns (if fst e \<in> set cs then cs else cs @ [fst e]) r"
  by (simp_all add: add_columns_def case_prod_beta)

lemma distinct_add_columns: "distinct cs \<Longrightarrow> distinct (add_columns cs r)"
  by (induction r arbitrary: cs) auto

lemma set_add_columns: "set (add_columns cs r) = set cs \<union> fst ` set r"
  by (induction r arbitrary: cs) auto

lemma distinct_fold_columns: "distinct cs \<Longrightarrow> distinct (foldl add_columns cs rs)"
  by (induction rs arbitrary: cs) (auto simp: distinct_add_columns)

lemma set_fold_columns: "set (foldl add_columns cs rs) = set cs \<union> (\<Union>r \<in> set rs. fst ` set r)"
  by (induction rs arbitrary: cs) (auto simp: set_add_columns)

lemma position_of_Some:
  "position_of x xs = Some i \<Longrightarrow> i < length xs \<and> xs ! i = x"
  by (induction xs arbitrary: i) (auto split: if_splits)

lemma position_of_None: "position_of x xs = None \<longleftrightarrow> x \<notin> set xs"
  by (induction xs) auto

lemma record_get_map_of: "record_get es k = map_of es k"
  by (induction es) auto

subsection \<open>Writers\<close>

lemma valid_utf8_concat: "(\<And>s. s \<in> set ss \<Longrightarrow> valid_utf8 s) \<Longrightarrow> valid_utf8 (concat ss)"
  by (induction ss) (auto intro: valid_utf8_append)

lemma hex_digit_ascii: "n < 16 \<Longrightarrow> u8 (hex_digit n) < 0x80"
  by (auto simp: hex_digit_def)

lemma show_hex_ascii: "list_all (\<lambda>c. u8 c < 0x80) (show_hex n)"
proof (induction n rule: show_hex.induct)
  case (1 n)
  then show ?case
    using hex_digit_ascii by (subst show_hex.simps) auto
qed

subsection \<open>Value types\<close>

lemma accepts_type_refl: "accepts_type t t"
  by (induction t) auto

lemma accepts_type_trans: "accepts_type a b \<Longrightarrow> accepts_type b c \<Longrightarrow> accepts_type a c"
proof (induction a b arbitrary: c rule: accepts_type.induct)
  case (2 e a)
  then show ?case by (cases c) auto
qed auto

lemma accepts_type_accepts: "accepts_type t a \<Longrightarrow> accepts a v \<Longrightarrow> accepts t v"
proof (induction t a arbitrary: v rule: accepts_type.induct)
  case (2 e a)
  then show ?case by (auto simp: list_all_iff split: opaal_value.splits)
qed auto

fun mentions_any :: "value_type \<Rightarrow> bool" where
  "mentions_any TyAny \<longleftrightarrow> True"
| "mentions_any (TyList t) \<longleftrightarrow> mentions_any t"
| "mentions_any (TyNominal i ts) \<longleftrightarrow> list_ex mentions_any ts"
| "mentions_any t \<longleftrightarrow> False"

lemma unify_extends:
  "unify_type e a s = (b, s') \<Longrightarrow> s \<subseteq>\<^sub>m s'"
  "unify_all es as s = (b, s') \<Longrightarrow> s \<subseteq>\<^sub>m s'"
proof (induction e a s and es as s arbitrary: b s' and b s' rule: unify_type_unify_all.induct)
  case (1 name a s)
  then show ?case by (auto simp: map_le_def split: if_splits option.splits)
next
  case (3 i es j as s)
  then show ?case by (auto split: if_splits)
next
  case (5 e es a as s)
  then show ?case by (auto split: prod.splits bool.splits intro: map_le_trans)
qed (auto split: if_splits)

lemma substitute_param: "s name = Some t \<Longrightarrow> s \<subseteq>\<^sub>m s' \<Longrightarrow> substitute_type (TyParameter name) s' = t"
  by (force simp: map_le_def dom_def)

lemma unify_substitutes:
  "unify_type e a s = (True, s') \<Longrightarrow> \<not> mentions_any e \<Longrightarrow> \<not> mentions_any a \<Longrightarrow> s' \<subseteq>\<^sub>m u \<Longrightarrow>
     substitute_type e u = a"
  "unify_all es as s = (True, s') \<Longrightarrow> length es = length as \<Longrightarrow> \<not> list_ex mentions_any es \<Longrightarrow>
     \<not> list_ex mentions_any as \<Longrightarrow> s' \<subseteq>\<^sub>m u \<Longrightarrow> map (\<lambda>e. substitute_type e u) es = as"
proof (induction e a s and es as s arbitrary: s' and s' rule: unify_type_unify_all.induct)
  case (1 name a s)
  then show ?case by (auto simp: map_le_def dom_def split: if_splits option.splits)
next
  case (3 i es j as s)
  then show ?case by (auto split: if_splits)
next
  case (5 e es a as s)
  from "5.prems"(1) obtain s1 where s1: "unify_type e a s = (True, s1)" "unify_all es as s1 = (True, s')"
    by (auto split: prod.splits bool.splits)
  have "s1 \<subseteq>\<^sub>m u" using unify_extends(2) [OF s1(2)] "5.prems"(5) by (rule map_le_trans)
  with "5.IH"(1) [OF s1(1)] "5.IH"(2) [OF s1(1) [symmetric] refl s1(2)] "5.prems" s1 show ?case by simp
qed (auto split: if_splits)

lemma substitute_bound:
  assumes "\<And>n t. s n = Some t \<Longrightarrow> \<not> has_unbound_type_parameters t Map.empty"
  shows "\<not> has_unbound_type_parameters t s \<Longrightarrow> \<not> has_unbound_type_parameters (substitute_type t s) Map.empty"
  using assms
  by (induction t s rule: substitute_type.induct) (auto simp: list_ex_iff split: option.splits)

subsection \<open>What the writers write\<close>

definition printable :: "string \<Rightarrow> bool" where
  "printable s \<longleftrightarrow> valid_utf8 s \<and> list_all (\<lambda>cp. \<not> is_control cp) (chars s)"

lemma printable_append: "printable s \<Longrightarrow> printable t \<Longrightarrow> printable (s @ t)"
  by (auto simp: printable_def chars_append list_all_iff)

lemma printable_Nil [simp]: "printable []"
  by (simp add: printable_def)

lemma printable_concat: "(\<And>s. s \<in> set ss \<Longrightarrow> printable s) \<Longrightarrow> printable (concat ss)"
  by (induction ss) (auto intro: printable_append)

lemma printable_ascii: "list_all (\<lambda>c. 0x20 \<le> u8 c \<and> u8 c < 0x7F) s \<Longrightarrow> printable s"
proof -
  assume a: "list_all (\<lambda>c. 0x20 \<le> u8 c \<and> u8 c < 0x7F) s"
  then have "\<forall>c \<in> set s. u8 c < 0x80" by (force simp: list_all_iff)
  from valid_utf8_ascii [OF this] a show ?thesis by (auto simp: printable_def list_all_iff is_control_def)
qed

lemma hex_digit_printable: "n < 16 \<Longrightarrow> 0x20 \<le> u8 (hex_digit n) \<and> u8 (hex_digit n) < 0x7F"
  by (auto simp: hex_digit_def)

lemma show_hex_printable: "list_all (\<lambda>c. 0x20 \<le> u8 c \<and> u8 c < 0x7F) (show_hex n)"
proof (induction n rule: show_hex.induct)
  case (1 n)
  then show ?case using hex_digit_printable by (subst show_hex.simps) auto
qed

lemma write_char_printable: "is_scalar cp \<Longrightarrow> printable (write_char cp)"
proof -
  assume s: "is_scalar cp"
  show ?thesis
  proof (cases "cp = 0x22 \<or> cp = 0x5C \<or> is_control cp")
    case True
    then have "list_all (\<lambda>c. 0x20 \<le> u8 c \<and> u8 c < 0x7F) (write_char cp)"
      using show_hex_printable [of cp] by (auto simp: write_char_def is_control_def)
    then show ?thesis by (rule printable_ascii)
  next
    case False
    then have "write_char cp = encode_utf8 cp" by (auto simp: write_char_def is_control_def)
    with False valid_utf8_encode [OF s] chars_Cons_encode [OF s, of "[]"] show ?thesis
      by (simp add: printable_def)
  qed
qed

lemma chars_scalar: "valid_utf8 s \<Longrightarrow> cp \<in> set (chars s) \<Longrightarrow> is_scalar cp"
proof (induction arbitrary: cp rule: valid_utf8_induct)
  case (Scalar s c w)
  then have "valid_utf8 s" using valid_utf8_step by blast
  with Scalar str_next_decode(1) [OF Scalar.hyps(1)] show ?case by (auto simp: chars_step)
qed simp

lemma write_string_content_printable: "valid_utf8 s \<Longrightarrow> printable (write_string_content s)"
  unfolding write_string_content_def
  by (rule printable_concat) (auto simp: chars_scalar write_char_printable)

lemma write_hex_byte_printable: "printable (write_hex_byte b)"
proof -
  have "u8 b < 256" by simp
  then have "u8 b div 16 < 16" by (simp add: div_less_iff_less_mult)
  with hex_digit_printable [of "u8 b div 16"] hex_digit_printable [of "u8 b mod 16"] show ?thesis
    by (intro printable_ascii) (simp add: write_hex_byte_def)
qed

lemma write_utf8_returns:
  "\<exists>out. write_utf8_with_invalid_bytes bs = Some out \<and> printable out"
proof (induction bs rule: write_utf8_with_invalid_bytes.induct)
  case (1 bs)
  show ?case
  proof (cases "utf8_chars bs")
    case (Inr cs)
    then have "valid_utf8 bs" by (simp add: utf8_chars_Ok)
    with Inr write_string_content_printable show ?thesis
      by (subst write_utf8_with_invalid_bytes.simps) simp
  next
    case (Inl er)
    obtain n e where er: "er = (n, e)" by (cases er)
    let ?r = "drop n bs"
    let ?k = "case e of Some k \<Rightarrow> k | None \<Rightarrow> length ?r"
    from utf8_chars_Err [of bs n e] Inl er
    have n: "n < length bs" "valid_utf8 (take n bs)" "\<And>k. e = Some k \<Longrightarrow> 1 \<le> k" by auto
    then have k: "0 < n + ?k" by (auto split: option.split)
    have ne: "bs \<noteq> []" using n(1) by auto
    from "1.IH" [OF ne Inl [unfolded er] refl _ refl refl] n k obtain out
      where out: "write_utf8_with_invalid_bytes (drop ?k ?r) = Some out" "printable out" by auto
    have "printable (write_string_content (take n bs) @ concat (map write_hex_byte (take ?k ?r)) @ out)"
      using out(2) n(2)
      by (intro printable_append write_string_content_printable printable_concat)
        (auto simp: write_hex_byte_printable)
    with ne Inl er n k out show ?thesis
      by (subst write_utf8_with_invalid_bytes.simps) (simp add: Let_def)
  qed
qed

subsection \<open>Statuses that the code can build\<close>

inductive built_status :: "status \<Rightarrow> bool" where
  exit: "status_exit c d = Ok s \<Longrightarrow> built_status s"
| signaled: "signal_new n m = Ok sg \<Longrightarrow> status_signaled sg d = Ok s \<Longrightarrow> built_status s"
| aggregate: "(\<And>t. t \<in> set stages \<Longrightarrow> built_status t) \<Longrightarrow> status_aggregate stages k d = Ok s \<Longrightarrow>
    built_status s"

lemma built_status_ok: "built_status s \<Longrightarrow> status_ok s"
proof (induction rule: built_status.induct)
  case (aggregate stages k d s)
  then have "k < length stages" "s = Status (st_code (stages ! k)) (st_signal (stages ! k)) stages d"
    "list_all (\<lambda>t. st_stages t = []) stages" "0 \<le> sint (as_nanos d)"
    by (auto simp: status_aggregate_def validate_status_duration_def list_ex_iff list_all_iff
        split: sum.splits option.splits if_splits)
  moreover from this aggregate have "stages ! k \<in> set stages" "status_ok (stages ! k)" by auto
  ultimately show ?case
    using aggregate.IH by (auto simp: status_ok_def leaf_ok_def list_all_iff list_ex_iff)
qed (auto simp: status_exit_def status_signaled_def validate_status_duration_def signal_new_def status_ok_def
    leaf_ok_def split: if_splits)

subsection \<open>Properties\<close>

text \<open>
  C37: Equality of runtime values is an equivalence, as \<open>impl Eq for Value\<close> promises although integers
  and floats compare across types: given an equivalence on errors, it is reflexive and symmetric on
  all values, and transitive on the values the constructors let through.
\<close>

theorem value_eq_equivalence:
  assumes "equivp err_eq"
  shows "value_eq err_eq a a
    \<and> (value_eq err_eq a b \<longrightarrow> value_eq err_eq b a)
    \<and> (value_ok a \<and> value_ok b \<and> value_ok c \<longrightarrow>
        value_eq err_eq a b \<longrightarrow> value_eq err_eq b c \<longrightarrow> value_eq err_eq a c)"
  using assms value_eq_refl [of err_eq a] value_eq_sym [of err_eq a b] value_eq_trans [of err_eq a b c]
  by (auto simp: equivp_reflp_symp_transp)

text \<open>
  A float is admitted exactly when it is finite, is stored with one spelling of zero, and compares
  equal to an integer exactly when its mathematical value is that integer, with no rounding: the
  value scaled by \<open>2 ^ 1075\<close> is the integer scaled by the same power.
\<close>

theorem int_float_exact:
  "case finite_float_new v of
     Ok f \<Rightarrow> f64_is_finite v \<and> float_ok f
       \<and> (\<forall>i. int_float_equal i f = (f64_scaled v = sint i * 2 ^ 1075))
   | Err _ \<Rightarrow> \<not> f64_is_finite v"
proof (cases "f64_is_finite v")
  case True
  have z: "f64_scaled 0 = f64_scaled (2 ^ 63)"
    by (simp add: f64_scaled_def f64_mantissa_def f64_exponent_def f64_fraction_def)
  have "f64_scaled (if f64_is_zero v then 0 else v) = f64_scaled v"
    using z by (auto simp: f64_is_zero_def)
  moreover have "float_ok (FiniteFloat (if f64_is_zero v then 0 else v))"
    using True by (auto simp: float_ok_def f64_is_zero_def f64_is_finite_def f64_exponent_def)
  ultimately show ?thesis
    using True by (simp add: finite_float_new_def int_float_equal_scaled)
qed (simp add: finite_float_new_def)

text \<open>
  A record keeps its entries in order and is refused exactly for a repeated key: the error names
  the key and the position of its first repetition, before which all keys differ.
\<close>

theorem record_new_exact:
  "case record_new es of
     Ok r \<Rightarrow> r = es \<and> distinct (map fst es)
   | Err d \<Rightarrow> \<exists>us v vs. es = us @ (dk_key d, v) # vs \<and> dk_index d = length us
       \<and> distinct (map fst us) \<and> dk_key d \<in> fst ` set us"
  using record_check_spec [where checked = "[]" and i = 0 and es = es] by (auto simp: record_new_def split: sum.splits)

text \<open>
  A table built from columns and rows is rectangular with distinct columns, and construction is
  refused exactly when it would not be.
\<close>

theorem table_new_rectangular:
  "case table_new cs rows of
     Ok t \<Rightarrow> t = \<lparr>tb_columns = cs, tb_rows = rows\<rparr> \<and> rectangular t
   | Err _ \<Rightarrow> \<not> rectangular \<lparr>tb_columns = cs, tb_rows = rows\<rparr>"
proof (cases "column_check 0 [] cs")
  case (Inl e)
  with column_check_spec [where checked = "[]" and i = 0 and cs = cs] show ?thesis by (simp add: table_new_def rectangular_def)
next
  case (Inr r)
  with column_check_spec [where checked = "[]" and i = 0 and cs = cs] have r: "r = cs" "distinct cs" by auto
  show ?thesis
  proof (cases "row_check (length cs) 0 rows")
    case (Inl e)
    with row_check_spec [of "length cs" 0 rows] have "\<not> list_all (\<lambda>r. length r = length cs) rows"
      by auto
    with Inl Inr r show ?thesis by (simp add: table_new_def rectangular_def)
  next
    case (Inr u)
    with \<open>column_check 0 [] cs = Inr r\<close> r row_check_spec [of "length cs" 0 rows] show ?thesis
      by (simp add: table_new_def rectangular_def)
  qed
qed

text \<open>
  A table built from records is rectangular, has a column for every key of every record, and its
  cells are the records' fields, \<open>null\<close> where a record has no such field; reading it never panics.
\<close>

theorem table_from_records_get:
  assumes "row < length records" "column \<in> (\<Union>r \<in> set records. fst ` set r)"
  shows "rectangular (table_from_records records)
    \<and> table_get (table_from_records records) row column
      = Some (Some (case map_of (records ! row) column of Some v \<Rightarrow> v | None \<Rightarrow> VNull))"
proof -
  let ?cs = "foldl add_columns [] records"
  have cs: "tb_columns (table_from_records records) = ?cs"
    by (simp add: table_from_records_def Let_def)
  have "column \<in> set ?cs" using assms(2) by (simp add: set_fold_columns)
  then obtain i where i: "position_of column ?cs = Some i"
    using position_of_None [of column ?cs] by auto
  from position_of_Some [OF i] i assms(1)
  have "table_get (table_from_records records) row column
      = Some (Some (case map_of (records ! row) column of Some v \<Rightarrow> v | None \<Rightarrow> VNull))"
    by (simp add: table_get_def column_index_def table_from_records_def Let_def get_opt_nth record_get_map_of)
  moreover have "rectangular (table_from_records records)"
    by (simp add: rectangular_def cs distinct_fold_columns)
      (auto simp: table_from_records_def Let_def list_all_iff)
  ultimately show ?thesis by simp
qed

text \<open>
  Every status built by the constructors has exactly one of an exit code and an identified signal,
  a nonnegative duration and leaf stages one of which it repeats; so its display form never reaches
  the \<open>unreachable!\<close> branches.
\<close>

theorem built_status_displays:
  assumes "built_status s"
  shows "status_ok s \<and> status_display s \<noteq> None"
  using built_status_ok [OF assms]
  by (auto simp: status_ok_def leaf_ok_def status_display_def split: option.splits)

text \<open>
  Writing any bytes as text always finishes without a panic, and what is written is valid UTF-8
  with no control character in it, whatever bytes a path holds.
\<close>

theorem write_path_total:
  "\<exists>out. write_utf8_with_invalid_bytes bs = Some out \<and> printable out"
  by (rule write_utf8_returns)

text \<open>
  The order on value types is sound: where a type accepts another type, it accepts every value of
  it; and the order is reflexive and transitive.
\<close>

theorem accepts_type_sound:
  "accepts_type t t
    \<and> (accepts_type t u \<longrightarrow> accepts u v \<longrightarrow> accepts t v)
    \<and> (accepts_type t u \<longrightarrow> accepts_type u w \<longrightarrow> accepts_type t w)"
  using accepts_type_refl accepts_type_accepts accepts_type_trans by blast

text \<open>
  Unification of a generic type with an actual type infers a substitution that extends the given
  one and, where neither type mentions \<open>Any\<close>, turns the generic type into the actual one.
\<close>

theorem unify_type_correct:
  assumes "unify_type e a s = (True, s')" "\<not> mentions_any e" "\<not> mentions_any a"
  shows "s \<subseteq>\<^sub>m s' \<and> substitute_type e s' = a"
  using unify_extends(1) [OF assms(1)] unify_substitutes(1) [OF assms map_le_refl] by simp

text \<open>
  Substituting closed types for all the parameters of a type leaves no parameter in it.
\<close>

theorem substitute_type_closes:
  assumes "\<not> has_unbound_type_parameters t s"
    and "\<forall>n u. s n = Some u \<longrightarrow> \<not> has_unbound_type_parameters u Map.empty"
  shows "\<not> has_unbound_type_parameters (substitute_type t s) Map.empty"
  using substitute_bound assms by blast

subsection \<open>Witnesses\<close>

theorem value_eq_equivalence_witness:
  "value_eq ((=) :: nat \<Rightarrow> nat \<Rightarrow> bool) (VInt 1) (VFloat (FiniteFloat 0x3FF0000000000000))
    \<and> value_eq ((=) :: nat \<Rightarrow> nat \<Rightarrow> bool) (VFloat (FiniteFloat 0x3FF0000000000000)) (VInt 1)"
proof -
  have "value_eq ((=) :: nat \<Rightarrow> nat \<Rightarrow> bool) (VInt 1) (VFloat (FiniteFloat 0x3FF0000000000000))"
    by (simp add: value_eq_left int_float_equal_scaled f64_scaled_def f64_mantissa_def f64_scale_def
        f64_exponent_def f64_fraction_def f64_negative_def)
  with value_eq_equivalence [OF identity_equivp, of "VInt 1" "VFloat (FiniteFloat 0x3FF0000000000000)" "VNull :: nat opaal_value"]
  show ?thesis by simp
qed

theorem table_from_records_get_witness:
  "table_get (table_from_records [[(''a'', VBool True)], [(''b'', VNull :: nat opaal_value)]]) 1 ''a''
     = Some (Some VNull)"
  using table_from_records_get [of 1 "[[(''a'', VBool True)], [(''b'', VNull :: nat opaal_value)]]" "''a''"]
  by simp

theorem built_status_displays_witness:
  "status_display (Status (Some 0) None [] (Duration 5)) \<noteq> None"
proof -
  have "status_exit 0 (Duration 5) = Ok (Status (Some 0) None [] (Duration 5))"
    by (simp add: status_exit_def validate_status_duration_def)
  from built_status_displays [OF built_status.exit [OF this]] show ?thesis by simp
qed

theorem accepts_type_sound_witness:
  "accepts_type (TyList TyAny) (TyList TyInt) \<and> accepts (TyList TyAny) (VList [VInt 3, VInt 4 :: nat opaal_value])"
  using accepts_type_sound [of "TyList TyAny" "TyList TyInt" "VList [VInt 3, VInt 4 :: nat opaal_value]" TyAny]
  by simp

theorem unify_type_correct_witness:
  "substitute_type (TyList (TyParameter ''T'')) [''T'' \<mapsto> TyInt] = TyList TyInt"
  using unify_type_correct [of "TyList (TyParameter ''T'')" "TyList TyInt" Map.empty "[''T'' \<mapsto> TyInt]"]
  by simp

theorem substitute_type_closes_witness:
  "\<not> has_unbound_type_parameters (substitute_type (TyList (TyParameter ''T'')) [''T'' \<mapsto> TyInt]) Map.empty"
  by (rule substitute_type_closes) (auto split: if_splits)

end
