(* ===== verification/Btree.thy ===== *)
theory Btree
  imports Prelude "HOL-Library.List_Lexorder" "HOL-Library.Char_ord"
begin

section \<open>Ordered maps\<close>

text \<open>
  The runtime keeps name tables in \<open>std::collections::BTreeMap\<close>. What the code relies on is the
  locale \<open>ordered_map\<close>: a lookup after an insertion, and iteration in key order without repetition.
  The lemmas inside it say what a loop of insertions leaves: the last write of a key wins. The
  concrete map of the model is an association list sorted by key, on which the locale is
  interpreted. Strings are ordered by their bytes, as \<open>str\<close> is in Rust.
\<close>

fun bt_insert :: "'k::linorder \<Rightarrow> 'v \<Rightarrow> ('k \<times> 'v) list \<Rightarrow> ('k \<times> 'v) list" where
  "bt_insert k v [] = [(k, v)]"
| "bt_insert k v ((k', v') # m) =
     (if k < k' then (k, v) # (k', v') # m
      else if k = k' then (k, v) # m
      else (k', v') # bt_insert k v m)"

definition bt_get :: "('k \<times> 'v) list \<Rightarrow> 'k \<Rightarrow> 'v option" where
  "bt_get m k = map_of m k"

definition bt_sorted :: "('k::linorder \<times> 'v) list \<Rightarrow> bool" where
  "bt_sorted m \<longleftrightarrow> sorted_wrt (<) (map fst m)"

definition bt_from_list :: "('k::linorder \<times> 'v) list \<Rightarrow> ('k \<times> 'v) list" where
  "bt_from_list es = foldl (\<lambda>m (k, v). bt_insert k v m) [] es"

locale ordered_map =
  fixes empty :: "('k::linorder \<times> 'v) list"
    and insert :: "'k \<Rightarrow> 'v \<Rightarrow> ('k \<times> 'v) list \<Rightarrow> ('k \<times> 'v) list"
    and lookup :: "('k \<times> 'v) list \<Rightarrow> 'k \<Rightarrow> 'v option"
    and inv :: "('k \<times> 'v) list \<Rightarrow> bool"
  assumes lookup_empty: "lookup empty k = None"
    and lookup_insert: "inv m \<Longrightarrow> lookup (insert k v m) k' = (if k' = k then Some v else lookup m k')"
    and inv_empty: "inv empty"
    and inv_insert: "inv m \<Longrightarrow> inv (insert k v m)"
    and inv_distinct: "inv m \<Longrightarrow> distinct (map fst m)"
    and lookup_map_of: "inv m \<Longrightarrow> lookup m k = map_of m k"
begin

definition insert_all :: "('k \<times> 'v) list \<Rightarrow> ('k \<times> 'v) list \<Rightarrow> ('k \<times> 'v) list" where
  "insert_all es m = foldl (\<lambda>m (k, v). insert k v m) m es"

lemma insert_all_inv: "inv m \<Longrightarrow> inv (insert_all es m)"
  unfolding insert_all_def by (induction es arbitrary: m) (auto simp: inv_insert)

lemma insert_all_lookup:
  "inv m \<Longrightarrow> lookup (insert_all es m) k = (case map_of (rev es) k of Some v \<Rightarrow> Some v | None \<Rightarrow> lookup m k)"
  unfolding insert_all_def
  by (induction es arbitrary: m) (auto simp: inv_insert lookup_insert map_add_def split: option.splits)

lemma insert_all_empty: "lookup (insert_all es empty) k = map_of (rev es) k"
  by (simp add: insert_all_lookup inv_empty lookup_empty split: option.split)

end

lemma map_of_bt_insert: "map_of (bt_insert k v m) = (map_of m)(k \<mapsto> v)" if "bt_sorted m"
  using that
proof (induction k v m rule: bt_insert.induct)
  case (2 k v k' v' m)
  then show ?case by (auto simp: bt_sorted_def fun_upd_twist)
qed simp

lemma bt_sorted_Nil [simp]: "bt_sorted []"
  by (simp add: bt_sorted_def)

lemma set_bt_insert: "fst ` set (bt_insert k v m) = insert k (fst ` set m)"
  by (induction k v m rule: bt_insert.induct) auto

lemma bt_sorted_insert: "bt_sorted m \<Longrightarrow> bt_sorted (bt_insert k v m)"
proof (induction k v m rule: bt_insert.induct)
  case (2 k v k' v' m)
  then show ?case
    using set_bt_insert [of k v m] by (auto simp: bt_sorted_def)
qed (simp add: bt_sorted_def)

interpretation bt: ordered_map "[]" bt_insert bt_get bt_sorted
proof
  fix m :: "('a::linorder \<times> 'b) list"
  assume m: "bt_sorted m"
  then show "distinct (map fst m)" by (simp add: bt_sorted_def strict_sorted_iff)
qed (auto simp: bt_get_def map_of_bt_insert bt_sorted_insert)

lemma bt_from_list_insert_all: "bt_from_list es = bt.insert_all es []"
  by (simp add: bt_from_list_def bt.insert_all_def)

lemma bt_from_list_sorted: "bt_sorted (bt_from_list es)"
  by (simp add: bt_from_list_insert_all bt.insert_all_inv bt.inv_empty)

lemma bt_from_list_get: "bt_get (bt_from_list es) k = map_of (rev es) k"
  by (simp add: bt_from_list_insert_all bt.insert_all_empty)

lemma bt_from_list_distinct: "distinct (map fst (bt_from_list es))"
  using bt_from_list_sorted bt.inv_distinct by blast

text \<open>Removal of a key, as \<open>BTreeMap::remove\<close>.\<close>

definition bt_remove :: "'k \<Rightarrow> ('k \<times> 'v) list \<Rightarrow> ('k \<times> 'v) list" where
  "bt_remove k m = filter (\<lambda>(k', _). k' \<noteq> k) m"

lemma bt_sorted_remove: "bt_sorted m \<Longrightarrow> bt_sorted (bt_remove k m)"
  unfolding bt_sorted_def bt_remove_def by (induction m) auto

lemma bt_get_remove: "bt_get (bt_remove k m) k' = (if k' = k then None else bt_get m k')"
  unfolding bt_get_def bt_remove_def by (induction m) auto

lemma set_bt_remove: "set (bt_remove k m) \<subseteq> set m"
  by (auto simp: bt_remove_def)

lemma bt_get_mem: "bt_get m k = Some v \<Longrightarrow> (k, v) \<in> set m"
  unfolding bt_get_def by (rule map_of_SomeD)

lemma bt_get_None: "bt_get m k = None \<longleftrightarrow> k \<notin> fst ` set m"
  by (simp add: bt_get_def map_of_eq_None_iff)

lemma length_bt_insert:
  "bt_sorted m \<Longrightarrow> length (bt_insert k v m) = (if bt_get m k = None then Suc (length m) else length m)"
proof (induction k v m rule: bt_insert.induct)
  case (2 k v k' v' m)
  then show ?case by (auto simp: bt_sorted_def bt_get_def map_of_eq_None_iff)
qed (simp add: bt_get_def)

end
