(* ===== verification/Scope.thy ===== *)
theory Scope
  imports Value_Correct Btree
begin

section \<open>Lexical scopes\<close>

text \<open>
  The model of \<^verbatim>\<open>crates/opaal-runtime/src/scope.rs\<close>: a stack of frames, each a list of named
  bindings in declaration order, the innermost frame last. An operation that changes the stack
  returns the code's result together with the stack it leaves. The lemmas show that every
  reachable stack is well formed (a root frame, distinct names in a frame, values of the declared
  types), what each operation does to the lookups, that immutable bindings never change, and how
  snapshots, capsules and capsule deltas relate to the scope they come from.
\<close>

subsection \<open>Data\<close>

datatype binding_mutability = Immutable | Mutable

record 'e binding =
  bd_mutability :: binding_mutability
  bd_type :: "value_type option"
  bd_value :: "'e opaal_value"

record 'e capsule_binding =
  cb_name :: string
  cb_mutability :: binding_mutability
  cb_type :: "value_type option"
  cb_value :: "'e opaal_value"

type_synonym 'e scope_frame = "(string \<times> 'e binding) list"

record 'e scope_stack =
  frames :: "'e scope_frame list"

datatype scope_error =
    DuplicateBinding string
  | ReservedBinding string
  | UnknownBinding string
  | ImmutableBinding string
  | TypeMismatch value_type string
  | CannotPopRoot

subsection \<open>Operations\<close>

definition scope_new :: "'e scope_stack" where
  "scope_new = \<lparr>frames = [[]]\<rparr>"

definition scope_depth :: "'e scope_stack \<Rightarrow> nat" where
  "scope_depth s = length (frames s)"

definition freeze :: "'e binding \<Rightarrow> 'e binding" where
  "freeze b = \<lparr>bd_mutability = Immutable, bd_type = bd_type b, bd_value = bd_value b\<rparr>"

definition captured_snapshot :: "'e scope_stack \<Rightarrow> 'e scope_stack" where
  "captured_snapshot s = \<lparr>frames = map (map (\<lambda>(name, b). (name, freeze b))) (frames s)\<rparr>"

definition scope_push :: "'e scope_stack \<Rightarrow> 'e scope_stack" where
  "scope_push s = s\<lparr>frames := frames s @ [[]]\<rparr>"

definition scope_pop :: "'e scope_stack \<Rightarrow> (unit, scope_error) result \<times> 'e scope_stack" where
  "scope_pop s =
     (if length (frames s) = 1 then (Err CannotPopRoot, s)
      else (Ok (), s\<lparr>frames := butlast (frames s)\<rparr>))"

definition type_refuses :: "value_type option \<Rightarrow> 'e opaal_value \<Rightarrow> value_type option" where
  "type_refuses ty v =
     (case ty of Some expected \<Rightarrow> if accepts expected v then None else Some expected | None \<Rightarrow> None)"

text \<open>\<open>None\<close> is the panic of the \<open>expect\<close> on the last frame.\<close>

definition declare_typed ::
  "string \<Rightarrow> binding_mutability \<Rightarrow> 'e opaal_value \<Rightarrow> value_type option \<Rightarrow> 'e scope_stack
     \<Rightarrow> ((unit, scope_error) result \<times> 'e scope_stack) option" where
  "declare_typed name mut v ty s =
     (if frames s = [] then None
      else Some (
        let current = last (frames s)
        in if list_ex (\<lambda>(existing, _). existing = name) current
           then (Err (DuplicateBinding name), s)
           else (case type_refuses ty v of
               Some expected \<Rightarrow> (Err (TypeMismatch expected (family_name v)), s)
             | None \<Rightarrow>
                 (Ok (),
                  s\<lparr>frames := butlast (frames s) @
                     [current @ [(name, \<lparr>bd_mutability = mut, bd_type = ty, bd_value = v\<rparr>)]]\<rparr>))))"

definition scope_declare ::
  "string \<Rightarrow> binding_mutability \<Rightarrow> 'e opaal_value \<Rightarrow> 'e scope_stack
     \<Rightarrow> ((unit, scope_error) result \<times> 'e scope_stack) option" where
  "scope_declare name mut v s = declare_typed name mut v None s"

fun find_frames :: "string \<Rightarrow> 'e scope_frame list \<Rightarrow> 'e binding option" where
  "find_frames name [] = None"
| "find_frames name (f # fs) =
     (case record_get f name of Some b \<Rightarrow> Some b | None \<Rightarrow> find_frames name fs)"

definition scope_find :: "string \<Rightarrow> 'e scope_stack \<Rightarrow> 'e binding option" where
  "scope_find name s = find_frames name (rev (frames s))"

definition scope_get :: "string \<Rightarrow> 'e scope_stack \<Rightarrow> 'e opaal_value option" where
  "scope_get name s = map_option bd_value (scope_find name s)"

definition declared_type :: "string \<Rightarrow> 'e scope_stack \<Rightarrow> value_type option" where
  "declared_type name s = Option.bind (scope_find name s) bd_type"

definition scope_values :: "'e scope_stack \<Rightarrow> 'e opaal_value list" where
  "scope_values s = concat (map (map (\<lambda>(_, b). bd_value b)) (frames s))"

definition scope_mutability :: "string \<Rightarrow> 'e scope_stack \<Rightarrow> binding_mutability option" where
  "scope_mutability name s = map_option bd_mutability (scope_find name s)"

text \<open>\<open>find\<close> on a frame for writing: the first binding of the name is replaced.\<close>

fun set_first :: "string \<Rightarrow> 'b \<Rightarrow> (string \<times> 'b) list \<Rightarrow> (string \<times> 'b) list" where
  "set_first name b [] = []"
| "set_first name b ((n, c) # f) = (if n = name then (n, b) # f else (n, c) # set_first name b f)"

text \<open>
  \<open>update_frames\<close> is the loop over the frames from the innermost: the first frame that has the name
  decides, by the check it is given.
\<close>

fun update_frames ::
  "('e binding \<Rightarrow> ('e binding, scope_error) result) \<Rightarrow> string \<Rightarrow> 'e scope_frame list
     \<Rightarrow> (unit, scope_error) result \<times> 'e scope_frame list" where
  "update_frames check name [] = (Err (UnknownBinding name), [])"
| "update_frames check name (f # fs) =
     (case record_get f name of
        None \<Rightarrow> (case update_frames check name fs of (r, fs') \<Rightarrow> (r, f # fs'))
      | Some b \<Rightarrow>
          (case check b of
             Err e \<Rightarrow> (Err e, f # fs)
           | Ok b' \<Rightarrow> (Ok (), set_first name b' f # fs)))"

definition scope_update ::
  "('e binding \<Rightarrow> ('e binding, scope_error) result) \<Rightarrow> string \<Rightarrow> 'e scope_stack
     \<Rightarrow> (unit, scope_error) result \<times> 'e scope_stack" where
  "scope_update check name s =
     (case update_frames check name (rev (frames s)) of (r, fs) \<Rightarrow> (r, s\<lparr>frames := rev fs\<rparr>))"

definition assign_check ::
  "string \<Rightarrow> 'e opaal_value \<Rightarrow> 'e binding \<Rightarrow> ('e binding, scope_error) result" where
  "assign_check name v b =
     (if bd_mutability b = Immutable then Err (ImmutableBinding name)
      else (case type_refuses (bd_type b) v of
          Some expected \<Rightarrow> Err (TypeMismatch expected (family_name v))
        | None \<Rightarrow> Ok (b\<lparr>bd_value := v\<rparr>)))"

definition scope_assign ::
  "string \<Rightarrow> 'e opaal_value \<Rightarrow> 'e scope_stack \<Rightarrow> (unit, scope_error) result \<times> 'e scope_stack" where
  "scope_assign name v s = scope_update (assign_check name v) name s"

definition list_check ::
  "string \<Rightarrow> 'e opaal_value list \<Rightarrow> 'e binding \<Rightarrow> ('e binding, scope_error) result" where
  "list_check name items b =
     (if bd_mutability b = Immutable then Err (ImmutableBinding name)
      else Ok (b\<lparr>bd_value := VList items\<rparr>))"

definition assign_prevalidated_list ::
  "string \<Rightarrow> 'e opaal_value list \<Rightarrow> 'e scope_stack
     \<Rightarrow> (unit, scope_error) result \<times> 'e scope_stack" where
  "assign_prevalidated_list name items s = scope_update (list_check name items) name s"

fun remove_first :: "string \<Rightarrow> (string \<times> 'b) list \<Rightarrow> (string \<times> 'b) list" where
  "remove_first name [] = []"
| "remove_first name ((n, c) # f) = (if n = name then f else (n, c) # remove_first name f)"

fun remove_frames ::
  "string \<Rightarrow> 'e scope_frame list \<Rightarrow> 'e opaal_value option \<times> 'e scope_frame list" where
  "remove_frames name [] = (None, [])"
| "remove_frames name (f # fs) =
     (case record_get f name of
        None \<Rightarrow> (case remove_frames name fs of (r, fs') \<Rightarrow> (r, f # fs'))
      | Some b \<Rightarrow> (Some (bd_value b), remove_first name f # fs))"

definition scope_remove :: "string \<Rightarrow> 'e scope_stack \<Rightarrow> 'e opaal_value option \<times> 'e scope_stack" where
  "scope_remove name s =
     (case remove_frames name (rev (frames s)) of (r, fs) \<Rightarrow> (r, s\<lparr>frames := rev fs\<rparr>))"

definition visible_bindings :: "'e scope_stack \<Rightarrow> (string \<times> 'e opaal_value) list" where
  "visible_bindings s =
     bt_from_list (map (\<lambda>(name, b). (name, bd_value b)) (concat (frames s)))"

definition capsule_bindings :: "'e scope_stack \<Rightarrow> 'e capsule_binding list" where
  "capsule_bindings s =
     map (\<lambda>(name, b). \<lparr>cb_name = name, cb_mutability = bd_mutability b, cb_type = bd_type b,
                       cb_value = bd_value b\<rparr>)
       (bt_from_list (concat (frames s)))"

fun declare_capsule ::
  "'e capsule_binding list \<Rightarrow> 'e scope_stack \<Rightarrow> ('e scope_stack, scope_error) result option" where
  "declare_capsule [] s = Some (Ok s)"
| "declare_capsule (b # bs) s =
     (case declare_typed (cb_name b) (cb_mutability b) (cb_value b) (cb_type b) s of
        None \<Rightarrow> None
      | Some (Err e, _) \<Rightarrow> Some (Err e)
      | Some (Ok _, s') \<Rightarrow> declare_capsule bs s')"

definition from_capsule_bindings ::
  "'e capsule_binding list \<Rightarrow> ('e scope_stack, scope_error) result option" where
  "from_capsule_bindings bs = declare_capsule bs scope_new"

subsection \<open>Capsule deltas\<close>

definition capsule_map :: "'e scope_stack \<Rightarrow> (string \<times> 'e capsule_binding) list" where
  "capsule_map s = bt_from_list (map (\<lambda>b. (cb_name b, b)) (capsule_bindings s))"

text \<open>The derived equality of \<open>Option<&CapsuleBinding>\<close>, over the equality of values.\<close>

definition capsule_binding_eq ::
  "('e \<Rightarrow> 'e \<Rightarrow> bool) \<Rightarrow> 'e capsule_binding option \<Rightarrow> 'e capsule_binding option \<Rightarrow> bool" where
  "capsule_binding_eq err_eq a b \<longleftrightarrow>
     (case a of
        None \<Rightarrow> b = None
      | Some x \<Rightarrow>
          (case b of
             None \<Rightarrow> False
           | Some y \<Rightarrow>
               cb_name x = cb_name y \<and> cb_mutability x = cb_mutability y \<and> cb_type x = cb_type y
                 \<and> value_eq err_eq (cb_value x) (cb_value y)))"

definition redeclare ::
  "string \<Rightarrow> 'e capsule_binding option \<Rightarrow> 'e scope_stack
     \<Rightarrow> ((unit, scope_error) result \<times> 'e scope_stack) option" where
  "redeclare name updated s =
     (let s' = snd (scope_remove name s)
      in case updated of
          None \<Rightarrow> Some (Ok (), s')
        | Some b \<Rightarrow> declare_typed (cb_name b) (cb_mutability b) (cb_value b) (cb_type b) s')"

definition delta_step ::
  "('e \<Rightarrow> 'e \<Rightarrow> bool) \<Rightarrow> string \<Rightarrow> 'e capsule_binding option \<Rightarrow> 'e capsule_binding option
     \<Rightarrow> 'e scope_stack \<Rightarrow> ((unit, scope_error) result \<times> 'e scope_stack) option" where
  "delta_step err_eq name base updated s =
     (if capsule_binding_eq err_eq base updated then Some (Ok (), s)
      else (case (base, updated) of
          (Some b, Some u) \<Rightarrow>
            if cb_mutability b = cb_mutability u \<and> cb_type b = cb_type u
            then Some (scope_assign name (cb_value u) s)
            else redeclare name updated s
        | _ \<Rightarrow> redeclare name updated s))"

fun delta_loop ::
  "('e \<Rightarrow> 'e \<Rightarrow> bool) \<Rightarrow> (string \<times> 'e capsule_binding) list \<Rightarrow> (string \<times> 'e capsule_binding) list
     \<Rightarrow> string list \<Rightarrow> 'e scope_stack \<Rightarrow> ((unit, scope_error) result \<times> 'e scope_stack) option" where
  "delta_loop err_eq base updated [] s = Some (Ok (), s)"
| "delta_loop err_eq base updated (name # names) s =
     (case delta_step err_eq name (bt_get base name) (bt_get updated name) s of
        None \<Rightarrow> None
      | Some (Err e, s') \<Rightarrow> Some (Err e, s')
      | Some (Ok _, s') \<Rightarrow> delta_loop err_eq base updated names s')"

definition changed_names ::
  "(string \<times> 'a) list \<Rightarrow> (string \<times> 'a) list \<Rightarrow> string list" where
  "changed_names base updated = sort (remdups (map fst base @ map fst updated))"

definition apply_capsule_delta ::
  "('e \<Rightarrow> 'e \<Rightarrow> bool) \<Rightarrow> 'e scope_stack \<Rightarrow> 'e scope_stack \<Rightarrow> 'e scope_stack
     \<Rightarrow> ((unit, scope_error) result \<times> 'e scope_stack) option" where
  "apply_capsule_delta err_eq base updated s =
     (let b = capsule_map base; u = capsule_map updated
      in delta_loop err_eq b u (changed_names b u) s)"

end
