(* ===== verification/Scope_Correct.thy ===== *)
theory Scope_Correct
  imports Scope
begin

section \<open>Scopes keep their invariant and their promises\<close>

text \<open>
  The proofs on the model of the lexical scopes. The lookups of a stack are those of the
  association list of its frames, innermost first, and every operation is described by its effect
  on them.
\<close>

subsection \<open>Lookups\<close>

lemma find_frames_map_of: "find_frames name fs = map_of (concat fs) name"
  by (induction fs) (auto simp: record_get_map_of map_add_def split: option.splits)

lemma scope_find_map_of: "scope_find name s = map_of (concat (rev (frames s))) name"
  by (simp add: scope_find_def find_frames_map_of)

definition typed_ok :: "value_type option \<Rightarrow> 'e opaal_value \<Rightarrow> bool" where
  "typed_ok ty v \<longleftrightarrow> type_refuses ty v = None"

definition binding_ok :: "'e binding \<Rightarrow> bool" where
  "binding_ok b \<longleftrightarrow> typed_ok (bd_type b) (bd_value b)"

definition frame_ok :: "'e scope_frame \<Rightarrow> bool" where
  "frame_ok f \<longleftrightarrow> distinct (map fst f) \<and> list_all (\<lambda>e. binding_ok (snd e)) f"

definition scope_ok :: "'e scope_stack \<Rightarrow> bool" where
  "scope_ok s \<longleftrightarrow> frames s \<noteq> [] \<and> list_all frame_ok (frames s)"

lemma set_first_names [simp]: "map fst (set_first name b f) = map fst f"
  by (induction f) auto

lemma map_of_set_first:
  "map_of f name \<noteq> None \<Longrightarrow> map_of (set_first name b f) m = (if m = name then Some b else map_of f m)"
  by (induction f) auto

lemma set_first_ok: "frame_ok f \<Longrightarrow> binding_ok b \<Longrightarrow> frame_ok (set_first name b f)"
proof -
  assume f: "frame_ok f" "binding_ok b"
  have "list_all (\<lambda>e. binding_ok (snd e)) g \<Longrightarrow> list_all (\<lambda>e. binding_ok (snd e)) (set_first name b g)" for g
    using f(2) by (induction g) auto
  with f show ?thesis by (simp add: frame_ok_def)
qed

lemma update_frames_spec:
  assumes "update_frames check name fs = (r, fs')"
  shows "case find_frames name fs of
      None \<Rightarrow> r = Err (UnknownBinding name) \<and> fs' = fs
    | Some b \<Rightarrow>
        (case check b of
           Err e \<Rightarrow> r = Err e \<and> fs' = fs
         | Ok b' \<Rightarrow> r = Ok () \<and> length fs' = length fs
             \<and> (\<forall>m. find_frames m fs' = (if m = name then Some b' else find_frames m fs))
             \<and> (list_all frame_ok fs \<and> binding_ok b' \<longrightarrow> list_all frame_ok fs'))"
  using assms
proof (induction fs arbitrary: r fs')
  case (Cons f fs)
  show ?case
  proof (cases "record_get f name")
    case None
    obtain r1 fs1 where u: "update_frames check name fs = (r1, fs1)" by fastforce
    with None Cons.prems have "r = r1" "fs' = f # fs1" by auto
    with Cons.IH [OF u] None show ?thesis by (auto split: option.splits sum.splits)
  next
    case (Some b)
    with Cons.prems show ?thesis
      by (auto simp: record_get_map_of map_of_set_first set_first_ok split: sum.splits option.splits)
  qed
qed simp

lemma scope_update_spec:
  assumes "scope_update check name s = (r, s')"
  shows "case scope_find name s of
      None \<Rightarrow> r = Err (UnknownBinding name) \<and> s' = s
    | Some b \<Rightarrow>
        (case check b of
           Err e \<Rightarrow> r = Err e \<and> s' = s
         | Ok b' \<Rightarrow> r = Ok () \<and> scope_depth s' = scope_depth s
             \<and> (\<forall>m. scope_find m s' = (if m = name then Some b' else scope_find m s))
             \<and> (scope_ok s \<and> binding_ok b' \<longrightarrow> scope_ok s'))"
proof -
  obtain fs' where u: "update_frames check name (rev (frames s)) = (r, fs')"
    and s': "s' = s\<lparr>frames := rev fs'\<rparr>"
    using assms by (auto simp: scope_update_def split: prod.splits)
  have ok: "list_all frame_ok (rev fs) = list_all frame_ok fs" for fs :: "'a scope_frame list"
    by (simp add: list_all_iff)
  show ?thesis
    using update_frames_spec [OF u] s'
    by (auto simp: scope_find_def scope_depth_def scope_ok_def ok split: option.splits sum.splits)
qed

text \<open>Where an update takes place: in the innermost frame that has the name, at its first binding there.\<close>

lemma set_first_place:
  "map_of f name = Some b \<Longrightarrow>
     \<exists>left right. f = left @ (name, b) # right \<and> name \<notin> fst ` set left
       \<and> set_first name b' f = left @ (name, b') # right"
proof (induction f)
  case (Cons e f)
  obtain n c where e: "e = (n, c)" by fastforce
  show ?case
  proof (cases "n = name")
    case True
    with Cons.prems e have "e # f = [] @ (name, b) # f \<and> name \<notin> fst ` set []
      \<and> set_first name b' (e # f) = [] @ (name, b') # f" by auto
    then show ?thesis by blast
  next
    case False
    with Cons e obtain left right where "f = left @ (name, b) # right" "name \<notin> fst ` set left"
      "set_first name b' f = left @ (name, b') # right" by auto
    with False e have "e # f = (e # left) @ (name, b) # right \<and> name \<notin> fst ` set (e # left)
      \<and> set_first name b' (e # f) = (e # left) @ (name, b') # right" by auto
    then show ?thesis by blast
  qed
qed simp

definition replaced_at ::
  "string \<Rightarrow> 'b \<Rightarrow> 'b \<Rightarrow> (string \<times> 'b) list list \<Rightarrow> (string \<times> 'b) list list
     \<Rightarrow> (string \<times> 'b) list list \<Rightarrow> (string \<times> 'b) list list
     \<Rightarrow> (string \<times> 'b) list \<Rightarrow> (string \<times> 'b) list \<Rightarrow> bool" where
  "replaced_at name b b' fs fs' inner outer left right \<longleftrightarrow>
     fs = inner @ (left @ (name, b) # right) # outer \<and> fs' = inner @ (left @ (name, b') # right) # outer
     \<and> name \<notin> fst ` set (concat inner) \<and> name \<notin> fst ` set left"

lemma update_frames_place:
  assumes "update_frames check name fs = (Ok (), fs')" "find_frames name fs = Some b" "check b = Ok b'"
  shows "\<exists>inner outer left right. replaced_at name b b' fs fs' inner outer left right"
  using assms
proof (induction fs arbitrary: fs')
  case (Cons f fs)
  show ?case
  proof (cases "record_get f name")
    case None
    with Cons.prems obtain fs1 where u: "update_frames check name fs = (Ok (), fs1)" "fs' = f # fs1"
      by (auto split: prod.splits)
    from Cons.IH [OF u(1)] Cons.prems None obtain inner outer left right where
      "replaced_at name b b' fs fs1 inner outer left right" by auto
    with None u(2) have "replaced_at name b b' (f # fs) fs' (f # inner) outer left right"
      by (auto simp: replaced_at_def record_get_map_of map_of_eq_None_iff)
    then show ?thesis by blast
  next
    case (Some c)
    with Cons.prems have c: "fs' = set_first name b' f # fs" "c = b" by auto
    from set_first_place [of f name b b'] Some c obtain left right where
      "f = left @ (name, b) # right" "name \<notin> fst ` set left" "set_first name b' f = left @ (name, b') # right"
      by (auto simp: record_get_map_of)
    with c have "replaced_at name b b' (f # fs) fs' [] fs left right" by (simp add: replaced_at_def)
    then show ?thesis by blast
  qed
qed simp

lemma scope_update_place:
  assumes "scope_update check name s = (Ok (), s')" "scope_find name s = Some b" "check b = Ok b'"
  shows "\<exists>outer inner left right. frames s = outer @ (left @ (name, b) # right) # inner
    \<and> name \<notin> fst ` set (concat inner) \<and> name \<notin> fst ` set left
    \<and> s' = \<lparr>frames = outer @ (left @ (name, b') # right) # inner\<rparr>"
proof -
  obtain fs' where u: "update_frames check name (rev (frames s)) = (Ok (), fs')" and s': "s' = s\<lparr>frames := rev fs'\<rparr>"
    using assms by (auto simp: scope_update_def split: prod.splits)
  from update_frames_place [OF u assms(2) [unfolded scope_find_def] assms(3)] obtain inner outer left right where
    p: "rev (frames s) = inner @ (left @ (name, b) # right) # outer" "name \<notin> fst ` set (concat inner)"
      "name \<notin> fst ` set left" "fs' = inner @ (left @ (name, b') # right) # outer"
    unfolding replaced_at_def by blast
  from arg_cong [OF p(1), of rev] p(2-4) s'
  have "frames s = rev outer @ (left @ (name, b) # right) # rev inner
    \<and> name \<notin> fst ` set (concat (rev inner)) \<and> name \<notin> fst ` set left
    \<and> s' = \<lparr>frames = rev outer @ (left @ (name, b') # right) # rev inner\<rparr>" by (cases s) auto
  then show ?thesis by blast
qed

lemma set_remove_first: "set (remove_first name f) \<subseteq> set f"
  by (induction f) (auto split: if_splits)

lemma distinct_remove_first: "distinct (map fst f) \<Longrightarrow> distinct (map fst (remove_first name f))"
proof (induction f)
  case (Cons e f)
  then show ?case using set_remove_first [of name f] by (cases e) auto
qed simp

lemma map_of_remove_first:
  "distinct (map fst f) \<Longrightarrow> map_of (remove_first name f) m = (if m = name then None else map_of f m)"
proof (induction f)
  case (Cons e f)
  moreover have "fst e \<notin> fst ` set f \<Longrightarrow> map_of f (fst e) = None"
    by (simp add: map_of_eq_None_iff)
  ultimately show ?case by (cases e) auto
qed simp

lemma remove_first_ok: "frame_ok f \<Longrightarrow> frame_ok (remove_first name f)"
  using set_remove_first [of name f] by (auto simp: frame_ok_def list_all_iff distinct_remove_first)

lemma remove_frames_spec:
  assumes "remove_frames name fs = (r, fs')"
  shows "r = map_option bd_value (find_frames name fs) \<and> length fs' = length fs
    \<and> (list_all frame_ok fs \<longrightarrow> list_all frame_ok fs'
        \<and> (\<forall>m. m \<noteq> name \<longrightarrow> find_frames m fs' = find_frames m fs))"
  using assms
proof (induction fs arbitrary: r fs')
  case (Cons f fs)
  show ?case
  proof (cases "record_get f name")
    case None
    obtain r1 fs1 where u: "remove_frames name fs = (r1, fs1)" by fastforce
    with None Cons.prems have "r = r1" "fs' = f # fs1" by auto
    with Cons.IH [OF u] None show ?thesis by (auto split: option.splits)
  next
    case (Some b)
    moreover have "frame_ok f \<Longrightarrow> map_of (remove_first name f) m = (if m = name then None else map_of f m)" for m
      by (rule map_of_remove_first) (simp add: frame_ok_def)
    ultimately show ?thesis
      using Cons.prems by (auto simp: record_get_map_of remove_first_ok split: option.splits)
  qed
qed simp

lemma scope_remove_spec:
  assumes "scope_remove name s = (r, s')" "scope_ok s"
  shows "r = scope_get name s" "scope_ok s'" "scope_depth s' = scope_depth s"
    and "m \<noteq> name \<Longrightarrow> scope_find m s' = scope_find m s"
    and "scope_depth s = 1 \<Longrightarrow> scope_find name s' = None"
proof -
  obtain fs' where u: "remove_frames name (rev (frames s)) = (r, fs')" and s': "s' = s\<lparr>frames := rev fs'\<rparr>"
    using assms(1) by (auto simp: scope_remove_def split: prod.splits)
  have ok: "list_all frame_ok (rev fs) = list_all frame_ok fs" for fs :: "'a scope_frame list"
    by (simp add: list_all_iff)
  note sp = remove_frames_spec [OF u]
  show "r = scope_get name s" using sp by (simp add: scope_get_def scope_find_def)
  show "scope_ok s'" "scope_depth s' = scope_depth s"
    using sp assms(2) s' by (auto simp: scope_ok_def scope_depth_def ok)
  show "m \<noteq> name \<Longrightarrow> scope_find m s' = scope_find m s"
    using sp assms(2) s' by (auto simp: scope_ok_def scope_find_def ok)
  assume "scope_depth s = 1"
  then obtain f where f: "frames s = [f]" by (auto simp: scope_depth_def length_Suc_conv)
  with assms(2) have d: "distinct (map fst f)" by (simp add: scope_ok_def frame_ok_def)
  from u s' show "scope_find name s' = None"
    by (auto simp: f scope_find_map_of record_get_map_of map_of_remove_first [OF d] split: option.splits)
qed

lemma declare_typed_spec:
  assumes "scope_ok s"
  shows "\<exists>r s'. declare_typed name mut v ty s = Some (r, s') \<and> scope_ok s' \<and> scope_depth s' = scope_depth s
    \<and> (case r of
         Err e \<Rightarrow> s' = s
           \<and> (name \<in> fst ` set (last (frames s)) \<and> e = DuplicateBinding name
              \<or> (\<exists>t. ty = Some t \<and> \<not> accepts t v \<and> e = TypeMismatch t (family_name v)))
       | Ok _ \<Rightarrow> name \<notin> fst ` set (last (frames s)) \<and> typed_ok ty v
           \<and> frames s' = butlast (frames s)
               @ [last (frames s) @ [(name, \<lparr>bd_mutability = mut, bd_type = ty, bd_value = v\<rparr>)]]
           \<and> (\<forall>m. scope_find m s'
                = (if m = name then Some \<lparr>bd_mutability = mut, bd_type = ty, bd_value = v\<rparr>
                   else scope_find m s)))"
proof -
  from assms obtain us f where fs: "frames s = us @ [f]"
    by (metis append_butlast_last_id scope_ok_def)
  have ok: "list_all frame_ok us" "frame_ok f" using assms fs by (auto simp: scope_ok_def)
  show ?thesis
  proof (cases "list_ex (\<lambda>(existing, _). existing = name) f")
    case True
    then have "name \<in> fst ` set f" by (force simp: list_ex_iff)
    with True assms fs show ?thesis by (simp add: declare_typed_def)
  next
    case False
    then have n: "name \<notin> fst ` set f" by (auto simp: list_ex_iff)
    then have nn: "map_of f name = None" by (simp add: map_of_eq_None_iff)
    show ?thesis
    proof (cases "type_refuses ty v")
      case (Some t)
      then have "ty = Some t" "\<not> accepts t v" by (auto simp: type_refuses_def split: option.splits if_splits)
      with Some False assms fs show ?thesis by (simp add: declare_typed_def)
    next
      case None
      with ok n have "frame_ok (f @ [(name, \<lparr>bd_mutability = mut, bd_type = ty, bd_value = v\<rparr>)])"
        by (auto simp: frame_ok_def binding_ok_def typed_ok_def)
      with None False n nn ok fs show ?thesis
        by (auto simp: declare_typed_def typed_ok_def scope_ok_def scope_depth_def scope_find_map_of
            map_add_def simp del: map_of_eq_None_iff split: option.splits)
    qed
  qed
qed

lemma declare_typed_find:
  assumes "declare_typed name mut v ty s = Some (r, s')" "scope_ok s"
  shows "scope_ok s'" "scope_depth s' = scope_depth s"
    and "scope_find m s' = (if r = Ok () \<and> m = name
      then Some \<lparr>bd_mutability = mut, bd_type = ty, bd_value = v\<rparr> else scope_find m s)"
  using declare_typed_spec [OF assms(2), of name mut v ty] assms(1) by (cases r; auto)+

subsection \<open>Snapshots\<close>

lemma map_of_freeze: "map_of (map (\<lambda>(n, b). (n, freeze b)) f) m = map_option freeze (map_of f m)"
  by (induction f) auto

lemma captured_find: "scope_find name (captured_snapshot s) = map_option freeze (scope_find name s)"
proof -
  have "concat (map (map (\<lambda>(n, b). (n, freeze b))) fs) = map (\<lambda>(n, b). (n, freeze b)) (concat fs)"
    for fs :: "'a scope_frame list" by (simp add: map_concat)
  then show ?thesis
    by (simp add: scope_find_map_of captured_snapshot_def rev_map map_of_freeze)
qed

lemma captured_ok: "scope_ok s \<Longrightarrow> scope_ok (captured_snapshot s)"
  by (auto simp: scope_ok_def captured_snapshot_def list_all_iff frame_ok_def binding_ok_def freeze_def
      case_prod_unfold comp_def)

lemma binding_eq_iff:
  "a = b \<longleftrightarrow> bd_mutability a = bd_mutability b \<and> bd_type a = bd_type b \<and> bd_value a = bd_value b"
  for a b :: "'e binding"
  by auto

subsection \<open>Capsules\<close>

lemma map_of_rev: "distinct (map fst f) \<Longrightarrow> map_of (rev f) = map_of f"
  by (metis distinct_map map_of_eqI map_of_inject_set set_rev rev_map distinct_rev)

lemma rev_concat_frames:
  "list_all frame_ok fs \<Longrightarrow> map_of (rev (concat fs)) = map_of (concat (rev fs))"
  by (induction fs) (auto simp: frame_ok_def map_of_rev)

lemma capsule_find:
  "scope_ok s \<Longrightarrow> bt_get (bt_from_list (concat (frames s))) name = scope_find name s"
  by (simp add: bt_from_list_get scope_ok_def rev_concat_frames scope_find_map_of)

lemma bt_from_list_subset: "set (bt_from_list es) \<subseteq> set es"
proof
  fix e
  assume e: "e \<in> set (bt_from_list es)"
  obtain k v where kv: "e = (k, v)" by (cases e)
  have "bt_get (bt_from_list es) k = Some v"
    using e kv bt_from_list_distinct [of es] by (simp add: bt_get_def)
  then have "map_of (rev es) k = Some v" by (simp add: bt_from_list_get)
  with kv show "e \<in> set es" by (auto dest: map_of_SomeD)
qed

definition capsule_entry :: "'e capsule_binding \<Rightarrow> string \<times> 'e binding" where
  "capsule_entry b =
     (cb_name b, \<lparr>bd_mutability = cb_mutability b, bd_type = cb_type b, bd_value = cb_value b\<rparr>)"

lemma capsule_entries: "map capsule_entry (capsule_bindings s) = bt_from_list (concat (frames s))"
  by (induction "bt_from_list (concat (frames s))")
    (auto simp: capsule_bindings_def capsule_entry_def comp_def case_prod_unfold intro!: map_idI)

lemma declare_capsule_Ok:
  assumes "scope_ok s" "distinct (map cb_name bs)" "list_all (\<lambda>b. typed_ok (cb_type b) (cb_value b)) bs"
    and "\<forall>b \<in> set bs. cb_name b \<notin> fst ` set (last (frames s))"
  shows "\<exists>s'. declare_capsule bs s = Some (Ok s') \<and> scope_ok s'
    \<and> frames s' = butlast (frames s) @ [last (frames s) @ map capsule_entry bs]"
  using assms
proof (induction bs arbitrary: s)
  case Nil
  then show ?case by (simp add: scope_ok_def)
next
  case (Cons b bs)
  from declare_typed_spec [OF Cons.prems(1), of "cb_name b" "cb_mutability b" "cb_value b" "cb_type b"]
  obtain r s1 where d: "declare_typed (cb_name b) (cb_mutability b) (cb_value b) (cb_type b) s = Some (r, s1)"
    and ok: "scope_ok s1"
    and r: "r = Ok ()" and f: "frames s1 = butlast (frames s) @ [last (frames s) @ [capsule_entry b]]"
    using Cons.prems(3,4)
    by (fastforce simp: typed_ok_def type_refuses_def capsule_entry_def split: sum.splits option.splits if_splits)
  have "\<exists>s'. declare_capsule bs s1 = Some (Ok s') \<and> scope_ok s'
      \<and> frames s' = butlast (frames s1) @ [last (frames s1) @ map capsule_entry bs]"
    using Cons.prems f by (intro Cons.IH ok) (auto simp: capsule_entry_def, metis imageI)
  with d r f show ?case by simp
qed

lemma capsule_typed: "scope_ok s \<Longrightarrow> b \<in> set (capsule_bindings s) \<Longrightarrow> typed_ok (cb_type b) (cb_value b)"
proof -
  assume ok: "scope_ok s" and b: "b \<in> set (capsule_bindings s)"
  then have "capsule_entry b \<in> set (bt_from_list (concat (frames s)))"
    by (simp add: capsule_entries [symmetric])
  with bt_from_list_subset have "capsule_entry b \<in> set (concat (frames s))" by blast
  with ok show ?thesis
    by (fastforce simp: scope_ok_def list_all_iff frame_ok_def binding_ok_def capsule_entry_def)
qed

lemma capsule_names_distinct: "distinct (map cb_name (capsule_bindings s))"
proof -
  have "map cb_name (capsule_bindings s) = map fst (map capsule_entry (capsule_bindings s))"
    by (simp add: capsule_entry_def comp_def)
  then show ?thesis by (simp add: capsule_entries bt_from_list_distinct del: map_map)
qed

subsection \<open>Capsule deltas\<close>

definition cap :: "string \<Rightarrow> 'e binding \<Rightarrow> 'e capsule_binding" where
  "cap n b = \<lparr>cb_name = n, cb_mutability = bd_mutability b, cb_type = bd_type b, cb_value = bd_value b\<rparr>"

lemma capsule_map_get:
  assumes "scope_ok s"
  shows "bt_get (capsule_map s) n = map_option (cap n) (scope_find n s)"
proof -
  let ?L = "bt_from_list (concat (frames s))"
  let ?M = "map (\<lambda>b. (cb_name b, b)) (capsule_bindings s)"
  have d: "distinct (map fst ?M)"
    using capsule_names_distinct [of s] by (simp add: comp_def)
  have M: "?M = map (\<lambda>(n, b). (n, cap n b)) ?L"
    by (auto simp: capsule_bindings_def cap_def)
  have "map_of (map (\<lambda>(n, b). (n, cap n b)) L) n = map_option (cap n) (map_of L n)" for L :: "'a scope_frame"
    by (induction L) auto
  then have "map_of ?M n = map_option (cap n) (map_of ?L n)" unfolding M .
  moreover have "bt_get (capsule_map s) n = map_of ?M n"
    by (simp only: capsule_map_def bt_from_list_get map_of_rev [OF d])
  ultimately show ?thesis using capsule_find [OF assms, of n] by (simp add: bt_get_def)
qed

lemma capsule_map_keys: "scope_ok s \<Longrightarrow> n \<in> fst ` set (capsule_map s) \<longleftrightarrow> scope_find n s \<noteq> None"
  using capsule_map_get [of s n] by (metis bt_get_def map_of_eq_None_iff option.map_disc_iff)

definition agrees :: "('e \<Rightarrow> 'e \<Rightarrow> bool) \<Rightarrow> 'e binding option \<Rightarrow> 'e binding option \<Rightarrow> bool" where
  "agrees err_eq a b \<longleftrightarrow>
     (case b of
        None \<Rightarrow> a = None
      | Some y \<Rightarrow>
          (case a of
             None \<Rightarrow> False
           | Some x \<Rightarrow> bd_mutability x = bd_mutability y \<and> bd_type x = bd_type y
               \<and> value_eq err_eq (bd_value x) (bd_value y)))"

lemma redeclare_spec:
  assumes "scope_ok s" "scope_depth s = 1"
  shows "\<exists>r s'. redeclare n (map_option (cap n) U) s = Some (r, s') \<and> scope_ok s' \<and> scope_depth s' = 1
    \<and> (\<forall>m. m \<noteq> n \<longrightarrow> scope_find m s' = scope_find m s) \<and> (r = Ok () \<longrightarrow> scope_find n s' = U)"
proof -
  obtain v s1 where s1: "scope_remove n s = (v, s1)" by fastforce
  note rm = scope_remove_spec [OF s1 assms(1)]
  show ?thesis
  proof (cases U)
    case None
    with s1 rm assms(2) show ?thesis by (simp add: redeclare_def)
  next
    case (Some u)
    from declare_typed_spec [OF rm(2), of n "bd_mutability u" "bd_value u" "bd_type u"]
    obtain r s' where d: "declare_typed n (bd_mutability u) (bd_value u) (bd_type u) s1 = Some (r, s')"
      by blast
    from d declare_typed_find [OF d rm(2)] rm assms(2) Some s1 show ?thesis
      by (simp add: redeclare_def cap_def)
  qed
qed

lemma delta_step_spec:
  assumes "scope_ok s" "scope_depth s = 1" "reflp err_eq"
  shows "\<exists>r s'. delta_step err_eq n (map_option (cap n) (scope_find n s)) (map_option (cap n) U) s = Some (r, s')
    \<and> scope_ok s' \<and> scope_depth s' = 1 \<and> (\<forall>m. m \<noteq> n \<longrightarrow> scope_find m s' = scope_find m s)
    \<and> (r = Ok () \<longrightarrow> agrees err_eq (scope_find n s') U)"
proof (cases "capsule_binding_eq err_eq (map_option (cap n) (scope_find n s)) (map_option (cap n) U)")
  case True
  then have "agrees err_eq (scope_find n s) U"
    by (auto simp: capsule_binding_eq_def agrees_def cap_def split: option.splits)
  with True assms show ?thesis by (simp add: delta_step_def)
next
  case ne: False
  have refl: "agrees err_eq V V" for V
    using assms(3) by (auto simp: agrees_def value_eq_refl split: option.split)
  show ?thesis
  proof (cases "\<exists>b u. scope_find n s = Some b \<and> U = Some u \<and> bd_mutability b = bd_mutability u \<and> bd_type b = bd_type u")
    case True
    then obtain b u where bu: "scope_find n s = Some b" "U = Some u" "bd_mutability b = bd_mutability u"
      "bd_type b = bd_type u" by blast
    obtain r s' where a: "scope_assign n (bd_value u) s = (r, s')" by fastforce
    from scope_update_spec [OF a [unfolded scope_assign_def]] bu assms ne show ?thesis
      by (auto simp: delta_step_def cap_def a assign_check_def binding_ok_def typed_ok_def agrees_def
          value_eq_refl split: if_splits option.splits sum.splits)
  next
    case False
    then have "delta_step err_eq n (map_option (cap n) (scope_find n s)) (map_option (cap n) U) s
        = redeclare n (map_option (cap n) U) s"
      using ne by (auto simp: delta_step_def cap_def split: option.splits)
    with redeclare_spec [OF assms(1,2), of n U] refl show ?thesis by auto
  qed
qed

lemma delta_loop_spec:
  assumes "scope_ok s" "scope_depth s = 1" "reflp err_eq" "distinct names"
    and "\<And>n. n \<in> set names \<Longrightarrow> bt_get base n = map_option (cap n) (scope_find n s)"
    and "\<And>n. bt_get updated n = map_option (cap n) (U n)"
  shows "\<exists>r s'. delta_loop err_eq base updated names s = Some (r, s') \<and> scope_ok s' \<and> scope_depth s' = 1
    \<and> (\<forall>m. m \<notin> set names \<longrightarrow> scope_find m s' = scope_find m s)
    \<and> (r = Ok () \<longrightarrow> (\<forall>m \<in> set names. agrees err_eq (scope_find m s') (U m)))"
  using assms
proof (induction names arbitrary: s)
  case (Cons n names)
  from delta_step_spec [OF Cons.prems(1-3), of n "U n"] obtain r s1
    where d: "delta_step err_eq n (map_option (cap n) (scope_find n s)) (map_option (cap n) (U n)) s = Some (r, s1)"
      and s1: "scope_ok s1" "scope_depth s1 = 1" "\<forall>m. m \<noteq> n \<longrightarrow> scope_find m s1 = scope_find m s"
        "r = Ok () \<longrightarrow> agrees err_eq (scope_find n s1) (U n)" by blast
  have step: "delta_step err_eq n (bt_get base n) (bt_get updated n) s = Some (r, s1)"
    using d Cons.prems(5) [of n] Cons.prems(6) [of n] by simp
  show ?case
  proof (cases r)
    case (Inl e)
    with step s1 show ?thesis by simp
  next
    case (Inr u)
    have "\<exists>r s'. delta_loop err_eq base updated names s1 = Some (r, s') \<and> scope_ok s' \<and> scope_depth s' = 1
      \<and> (\<forall>m. m \<notin> set names \<longrightarrow> scope_find m s' = scope_find m s1)
      \<and> (r = Ok () \<longrightarrow> (\<forall>m \<in> set names. agrees err_eq (scope_find m s') (U m)))"
    proof (rule Cons.IH)
      fix m
      assume "m \<in> set names"
      with Cons.prems(4) s1(3) Cons.prems(5) [of m] show "bt_get base m = map_option (cap m) (scope_find m s1)"
        by auto
    qed (use Cons.prems s1 in auto)
    then obtain r' s' where l: "delta_loop err_eq base updated names s1 = Some (r', s')" "scope_ok s'"
      "scope_depth s' = 1" "\<forall>m. m \<notin> set names \<longrightarrow> scope_find m s' = scope_find m s1"
      "r' = Ok () \<longrightarrow> (\<forall>m \<in> set names. agrees err_eq (scope_find m s') (U m))" by blast
    with step Inr s1 Cons.prems(4) show ?thesis by (intro exI [of _ r'] exI [of _ s']) auto
  qed
qed simp

subsection \<open>The scope as a machine\<close>

text \<open>
  The operations that change a stack. A list stored by \<open>assign_prevalidated_list\<close> comes from a caller that has
  checked it against the type of the binding; that is its precondition, and the last lemma of the group
  shows that an indexed assignment establishes it: it replaces one item of the list the binding holds by a
  value the declared item type accepts.
\<close>

datatype 'e scope_op =
    ScPush
  | ScPop
  | ScDeclare string binding_mutability "'e opaal_value" "value_type option"
  | ScAssign string "'e opaal_value"
  | ScStoreList string "'e opaal_value list"
  | ScRemove string
  | ScSnapshot
  | ScDelta "'e scope_stack" "'e scope_stack"

fun scope_exec :: "('e \<Rightarrow> 'e \<Rightarrow> bool) \<Rightarrow> 'e scope_op \<Rightarrow> 'e scope_stack \<Rightarrow> 'e scope_stack option" where
  "scope_exec err_eq ScPush s = Some (scope_push s)"
| "scope_exec err_eq ScPop s = Some (snd (scope_pop s))"
| "scope_exec err_eq (ScDeclare name mut v ty) s = map_option snd (declare_typed name mut v ty s)"
| "scope_exec err_eq (ScAssign name v) s = Some (snd (scope_assign name v s))"
| "scope_exec err_eq (ScStoreList name items) s = Some (snd (assign_prevalidated_list name items s))"
| "scope_exec err_eq (ScRemove name) s = Some (snd (scope_remove name s))"
| "scope_exec err_eq ScSnapshot s = Some (captured_snapshot s)"
| "scope_exec err_eq (ScDelta base updated) s = map_option snd (apply_capsule_delta err_eq base updated s)"

definition prevalidated :: "'e scope_op \<Rightarrow> 'e scope_stack \<Rightarrow> bool" where
  "prevalidated a s =
     (case a of
        ScStoreList name items \<Rightarrow>
          (case scope_find name s of None \<Rightarrow> True | Some b \<Rightarrow> typed_ok (bd_type b) (VList items))
      | _ \<Rightarrow> True)"

lemma scope_new_ok: "scope_ok scope_new"
  by (simp add: scope_new_def scope_ok_def frame_ok_def)

lemma scope_pop_ok: "scope_ok s \<Longrightarrow> scope_ok (snd (scope_pop s))"
  by (cases "frames s" rule: rev_cases) (auto simp: scope_pop_def scope_ok_def)

lemma scope_assign_ok: "scope_ok s \<Longrightarrow> scope_ok (snd (scope_assign name v s))"
proof -
  assume ok: "scope_ok s"
  obtain r s' where a: "scope_assign name v s = (r, s')" by fastforce
  from scope_update_spec [OF a [unfolded scope_assign_def]] ok a show ?thesis
    by (auto simp: assign_check_def binding_ok_def typed_ok_def split: option.splits if_splits)
qed

lemma store_list_ok:
  assumes "scope_ok s" "prevalidated (ScStoreList name items) s"
  shows "scope_ok (snd (assign_prevalidated_list name items s))"
proof -
  obtain r s' where a: "assign_prevalidated_list name items s = (r, s')" by fastforce
  from scope_update_spec [OF a [unfolded assign_prevalidated_list_def]] assms a show ?thesis
    by (auto simp: list_check_def prevalidated_def binding_ok_def split: option.splits if_splits)
qed

lemma scope_remove_ok: "scope_ok s \<Longrightarrow> scope_ok (snd (scope_remove name s))"
  using scope_remove_spec(2) [of name s, OF prod.collapse [symmetric]] by simp

lemma delta_step_ok:
  assumes "scope_ok s"
  shows "\<exists>r s'. delta_step err_eq name b u s = Some (r, s') \<and> scope_ok s'"
proof -
  have "\<exists>r s'. redeclare name u s = Some (r, s') \<and> scope_ok s'"
    using scope_remove_ok [OF assms, of name]
      declare_typed_spec [OF scope_remove_ok [OF assms, of name], of "cb_name (the u)" "cb_mutability (the u)" "cb_value (the u)" "cb_type (the u)"]
    by (cases u) (auto simp: redeclare_def)
  moreover have "\<exists>r s'. Some (scope_assign name v s) = Some (r, s') \<and> scope_ok s'" for v
    using scope_assign_ok [OF assms, of name v] by (metis prod.collapse)
  ultimately show ?thesis using assms by (auto simp: delta_step_def split: option.splits)
qed

lemma delta_loop_ok: "scope_ok s \<Longrightarrow> \<exists>r s'. delta_loop err_eq base updated names s = Some (r, s') \<and> scope_ok s'"
proof (induction names arbitrary: s)
  case (Cons n names)
  from delta_step_ok [OF Cons.prems] obtain r s' where
    d: "delta_step err_eq n (bt_get base n) (bt_get updated n) s = Some (r, s')" "scope_ok s'" by blast
  with Cons.IH [OF d(2)] show ?case by (cases r) simp_all
qed simp

interpretation scope: guarded_machine "scope_exec err_eq" scope_ok prevalidated for err_eq
proof
  fix s :: "'a scope_stack" and a
  assume ok: "scope_ok s" "prevalidated a s"
  show "\<exists>s'. scope_exec err_eq a s = Some s' \<and> scope_ok s'"
  proof (cases a)
    case ScPush
    with ok show ?thesis by (simp add: scope_push_def scope_ok_def frame_ok_def)
  next
    case (ScDeclare name mut v ty)
    with declare_typed_spec [OF ok(1), of name mut v ty] show ?thesis by auto
  next
    case (ScDelta base updated)
    with delta_loop_ok [OF ok(1)] show ?thesis by (fastforce simp: apply_capsule_delta_def Let_def)
  qed (use ok in \<open>simp_all add: scope_pop_ok scope_assign_ok captured_ok store_list_ok scope_remove_ok\<close>)
qed

lemma scope_find_ok:
  assumes "scope_ok s" "scope_find name s = Some b"
  shows "binding_ok b"
  using assms map_of_SomeD [of "concat (rev (frames s))" name b]
  by (fastforce simp: scope_find_map_of scope_ok_def frame_ok_def list_all_iff)

lemma indexed_assignment_prevalidated:
  assumes "scope_ok s" "scope_find name s = Some b" "bd_value b = VList items" "i < length items"
    and "\<forall>t. bd_type b = Some (TyList t) \<longrightarrow> accepts t v"
  shows "prevalidated (ScStoreList name (items[i := v])) s"
proof -
  have "binding_ok b" using scope_find_ok [OF assms(1,2)] .
  moreover have "list_all (accepts t) (items[i := v])" if "list_all (accepts t) items" "accepts t v" for t
    using that set_update_subset_insert [of items i v] by (auto simp: list_all_iff)
  ultimately show ?thesis
    using assms(2-5)
    by (cases "bd_type b") (auto simp: prevalidated_def binding_ok_def typed_ok_def type_refuses_def split: if_splits
        elim!: accepts.elims(2))
qed

subsection \<open>Properties\<close>

text \<open>
  C35: Every scope stack reached from a new one, by entering and leaving frames, declaring, assigning, storing
  checked lists, removing, capturing and applying capsule deltas in any order, keeps its root frame, has
  distinct names in each frame and holds in every typed binding a value of the declared type; and no
  operation on the way panics. The lists stored without a check are those their callers have checked.
\<close>

theorem scope_reachable_ok:
  assumes "honours prevalidated (scope_exec err_eq) ops scope_new"
  shows "\<exists>s. run_ops (scope_exec err_eq) ops scope_new = Some s \<and> scope_ok s"
  by (rule scope.guarded_run [OF scope_new_ok assms])

text \<open>
  C6: Assignment does what the binding allows. It fails on a name that is not visible, on an immutable
  binding and on a value its type refuses, leaving the scope as it was; otherwise the innermost
  binding of the name gets the value, keeping its mutability, its type and its place, and no other
  binding changes, the shadowed bindings of the name included.
\<close>

theorem scope_assign_exact:
  "case scope_assign name v s of (r, s') \<Rightarrow>
     (case scope_find name s of
        None \<Rightarrow> r = Err (UnknownBinding name) \<and> s' = s
      | Some b \<Rightarrow>
          if bd_mutability b = Immutable then r = Err (ImmutableBinding name) \<and> s' = s
          else (case type_refuses (bd_type b) v of
              Some t \<Rightarrow> r = Err (TypeMismatch t (family_name v)) \<and> s' = s
            | None \<Rightarrow> r = Ok ()
                \<and> (\<exists>outer inner left right. frames s = outer @ (left @ (name, b) # right) # inner
                    \<and> name \<notin> fst ` set (concat inner) \<and> name \<notin> fst ` set left
                    \<and> s' = \<lparr>frames = outer @ (left @ (name, b\<lparr>bd_value := v\<rparr>) # right) # inner\<rparr>)
                \<and> (\<forall>m. scope_find m s' = (if m = name then Some (b\<lparr>bd_value := v\<rparr>) else scope_find m s))))"
proof -
  obtain r s' where a: "scope_assign name v s = (r, s')" by fastforce
  note u = a [unfolded scope_assign_def]
  from scope_update_spec [OF u] scope_update_place [of "assign_check name v" name s s'] u show ?thesis
    by (auto simp: a assign_check_def split: option.splits if_splits)
qed

text \<open>
  A frame is a block: whatever is declared in a frame entered by \<open>push\<close>, leaving it by \<open>pop\<close> gives
  back exactly the scope from before.
\<close>

theorem scope_block_restores:
  assumes "run_ops (scope_exec err_eq) (map (\<lambda>(n, m, v, t). ScDeclare n m v t) decls) (scope_push s) = Some s'"
    and "scope_ok s"
  shows "scope_pop s' = (Ok (), s)"
proof -
  have "\<exists>f. frames s1 = frames s @ [f] \<Longrightarrow>
      run_ops (scope_exec err_eq) (map (\<lambda>(n, m, v, t). ScDeclare n m v t) ds) s1 = Some s2 \<Longrightarrow>
      \<exists>f. frames s2 = frames s @ [f]" for ds s1 s2
  proof (induction ds arbitrary: s1)
    case (Cons d ds)
    obtain n m v t where d: "d = (n, m, v, t)" by (cases d) auto
    from Cons.prems d obtain s3 where s3: "map_option snd (declare_typed n m v t s1) = Some s3"
      "run_ops (scope_exec err_eq) (map (\<lambda>(n, m, v, t). ScDeclare n m v t) ds) s3 = Some s2"
      by (auto simp: bind_eq_Some_conv)
    from s3(1) Cons.prems(1) have "\<exists>f. frames s3 = frames s @ [f]"
      by (auto simp: declare_typed_def Let_def split: if_splits option.splits)
    from Cons.IH [OF this s3(2)] show ?case .
  qed simp
  from this [of "scope_push s" decls s'] assms obtain f where f: "frames s' = frames s @ [f]"
    by (auto simp: scope_push_def)
  have "length (frames s') \<noteq> 1" using f assms(2) by (simp add: scope_ok_def)
  with f show ?thesis by (cases s'; cases s) (simp add: scope_pop_def)
qed

text \<open>
  A captured scope shows the same values and types under every name and is frozen: each visible
  binding is immutable, so every assignment to it fails and changes nothing.
\<close>

theorem captured_snapshot_frozen:
  "scope_get name (captured_snapshot s) = scope_get name s
    \<and> declared_type name (captured_snapshot s) = declared_type name s
    \<and> scope_mutability name (captured_snapshot s) = map_option (\<lambda>_. Immutable) (scope_mutability name s)
    \<and> is_ok (fst (scope_assign name v (captured_snapshot s))) = False
    \<and> snd (scope_assign name v (captured_snapshot s)) = captured_snapshot s"
proof -
  obtain r s' where a: "scope_assign name v (captured_snapshot s) = (r, s')" by fastforce
  from scope_update_spec [OF a [unfolded scope_assign_def]]
  have "r \<noteq> Ok () \<and> s' = captured_snapshot s"
    by (auto simp: captured_find assign_check_def freeze_def split: option.splits)
  then show ?thesis
    by (cases r; cases "scope_find name s")
      (auto simp: a scope_get_def declared_type_def scope_mutability_def captured_find freeze_def)
qed

text \<open>
  A scope travels in a capsule without loss: rebuilding a scope from the capsule bindings of a
  well-formed scope succeeds and gives a well-formed scope of one frame in which every name has the
  same binding as in the original, shadowed bindings left out.
\<close>

theorem capsule_roundtrip:
  assumes "scope_ok s"
  shows "\<exists>s'. from_capsule_bindings (capsule_bindings s) = Some (Ok s') \<and> scope_ok s' \<and> scope_depth s' = 1
    \<and> (\<forall>name. scope_find name s' = scope_find name s)"
proof -
  have "\<exists>s'. declare_capsule (capsule_bindings s) scope_new = Some (Ok s') \<and> scope_ok s'
      \<and> frames s' = butlast (frames scope_new) @ [last (frames scope_new) @ map capsule_entry (capsule_bindings s)]"
    by (rule declare_capsule_Ok [OF scope_new_ok capsule_names_distinct])
      (auto simp: list_all_iff capsule_typed [OF assms] scope_new_def)
  then obtain s' where s': "declare_capsule (capsule_bindings s) scope_new = Some (Ok s')" "scope_ok s'"
    "frames s' = [bt_from_list (concat (frames s))]"
    by (auto simp: scope_new_def capsule_entries)
  then have "scope_find name s' = scope_find name s" for name
    using capsule_find [OF assms, of name] by (simp add: scope_find_map_of bt_get_def)
  with s' show ?thesis by (auto simp: from_capsule_bindings_def scope_depth_def)
qed

text \<open>
  Applying the delta between two scopes to a one-frame scope that shows the bindings of the first
  never panics and keeps the invariant, and where it succeeds the scope agrees with the second under
  every name: the same mutability and declared type, and an equal value.
\<close>

theorem capsule_delta_agrees:
  assumes "scope_ok base" "scope_ok updated" "scope_ok s" "scope_depth s = 1" "reflp err_eq"
    and "\<forall>name. scope_find name s = scope_find name base"
  shows "\<exists>r s'. apply_capsule_delta err_eq base updated s = Some (r, s') \<and> scope_ok s'
    \<and> (r = Ok () \<longrightarrow> (\<forall>name. agrees err_eq (scope_find name s') (scope_find name updated)))"
proof -
  let ?b = "capsule_map base" and ?u = "capsule_map updated"
  have "\<exists>r s'. delta_loop err_eq ?b ?u (changed_names ?b ?u) s = Some (r, s') \<and> scope_ok s' \<and> scope_depth s' = 1
      \<and> (\<forall>m. m \<notin> set (changed_names ?b ?u) \<longrightarrow> scope_find m s' = scope_find m s)
      \<and> (r = Ok () \<longrightarrow> (\<forall>m \<in> set (changed_names ?b ?u). agrees err_eq (scope_find m s') (scope_find m updated)))"
    using assms
    by (intro delta_loop_spec) (auto simp: changed_names_def capsule_map_get)
  then obtain r s' where l: "delta_loop err_eq ?b ?u (changed_names ?b ?u) s = Some (r, s')" "scope_ok s'"
    "\<And>m. m \<notin> set (changed_names ?b ?u) \<Longrightarrow> scope_find m s' = scope_find m s"
    "r = Ok () \<Longrightarrow> \<forall>m \<in> set (changed_names ?b ?u). agrees err_eq (scope_find m s') (scope_find m updated)"
    by blast
  have "agrees err_eq (scope_find m s') (scope_find m updated)" if "r = Ok ()" for m
  proof (cases "m \<in> set (changed_names ?b ?u)")
    case False
    then have "scope_find m base = None" "scope_find m updated = None"
      using capsule_map_keys [OF assms(1), of m] capsule_map_keys [OF assms(2), of m]
      by (auto simp: changed_names_def)
    with l(3) [OF False] assms(6) show ?thesis by (simp add: agrees_def)
  qed (use l(4) that in blast)
  with l show ?thesis by (auto simp: apply_capsule_delta_def Let_def)
qed

subsection \<open>Witnesses\<close>

definition one_scope :: "nat opaal_value \<Rightarrow> nat scope_stack" where
  "one_scope v = \<lparr>frames = [[(''x'', \<lparr>bd_mutability = Mutable, bd_type = None, bd_value = v\<rparr>)]]\<rparr>"

lemma one_scope_ok: "scope_ok (one_scope v)" "scope_depth (one_scope v) = 1"
  by (simp_all add: one_scope_def scope_ok_def frame_ok_def binding_ok_def typed_ok_def type_refuses_def
      scope_depth_def)

theorem scope_reachable_ok_witness:
  "\<exists>s. run_ops (scope_exec (=)) [ScDeclare ''x'' Mutable (VList [VInt 1 :: nat opaal_value]) (Some (TyList TyInt)),
        ScStoreList ''x'' [VInt 2], ScPush, ScDelta (one_scope (VInt 1)) (one_scope (VInt 2))] scope_new = Some s
    \<and> scope_ok s"
  by (rule scope_reachable_ok)
    (simp add: prevalidated_def scope_new_def declare_typed_def type_refuses_def typed_ok_def scope_find_def
      split: option.splits)

theorem scope_block_restores_witness:
  "scope_pop (\<lparr>frames = [[(''x'', \<lparr>bd_mutability = Mutable, bd_type = None, bd_value = VNull :: nat opaal_value\<rparr>)],
      [(''y'', \<lparr>bd_mutability = Mutable, bd_type = None, bd_value = VNull\<rparr>)]]\<rparr>) = (Ok (), one_scope VNull)"
  by (rule scope_block_restores [where decls = "[(''y'', Mutable, VNull, None)]", OF _ one_scope_ok(1)])
    (simp add: scope_push_def one_scope_def declare_typed_def type_refuses_def)

theorem capsule_roundtrip_witness:
  "\<exists>s'. from_capsule_bindings (capsule_bindings (one_scope (VInt 7))) = Some (Ok s')
    \<and> map_option bd_value (scope_find ''x'' s') = Some (VInt 7)"
  using capsule_roundtrip [OF one_scope_ok(1), of "VInt 7"]
  by (auto simp: one_scope_def scope_find_map_of)

lemmas delta_eval = apply_capsule_delta_def capsule_map_def capsule_bindings_def bt_from_list_def
  changed_names_def bt_get_def delta_step_def capsule_binding_eq_def

theorem capsule_delta_agrees_witness:
  "\<exists>s'. apply_capsule_delta (=) (one_scope (VInt 1)) (one_scope (VInt 2)) (one_scope (VInt 1)) = Some (Ok (), s')
    \<and> agrees (=) (scope_find ''x'' s') (scope_find ''x'' (one_scope (VInt 2)))"
proof -
  have "apply_capsule_delta (=) (one_scope (VInt 1)) (one_scope (VInt 2)) (one_scope (VInt 1))
      = Some (Ok (), one_scope (VInt 2))"
    by (simp add: delta_eval one_scope_def value_eq_left scope_assign_def scope_update_def assign_check_def
        type_refuses_def)
  with capsule_delta_agrees [OF one_scope_ok(1) one_scope_ok(1) one_scope_ok(1) one_scope_ok(2), of "(=)" "VInt 1" "VInt 1" "VInt 2"]
  show ?thesis by (auto simp: reflp_def)
qed

text \<open>
  An update of a mutable binding from the integer 1 to the float 1.0 is lost: the two are equal
  values, so the delta leaves the scope alone and the binding keeps its integer.
\<close>

lemma capsule_delta_drops_float:
  "apply_capsule_delta (=) (one_scope (VInt 1)) (one_scope (VFloat (FiniteFloat 0x3FF0000000000000)))
     (one_scope (VInt 1)) = Some (Ok (), one_scope (VInt 1))"
proof -
  let ?f = "VFloat (FiniteFloat 0x3FF0000000000000)"
  have "value_eq (=) (VInt 1) (?f :: nat opaal_value)"
    by (simp add: value_eq_left int_float_equal_scaled f64_scaled_def f64_mantissa_def f64_scale_def
        f64_exponent_def f64_fraction_def f64_negative_def)
  then show ?thesis
    by (simp add: delta_eval one_scope_def)
qed

end
