(* ===== verification/Job.thy ===== *)
theory Job
  imports Value_Correct Btree
begin

section \<open>The lifecycle of a job\<close>

text \<open>
  The model of \<^verbatim>\<open>crates/opaal-runtime/src/job.rs\<close>: one job record with its member processes, and one
  definition per transition. A transition returns the code's result with the job it leaves;
  \<open>None\<close> is the panic of an \<open>expect\<close> in \<open>reconcile\<close>. The lemmas show that a job reached by any
  sequence of transitions has the state its members determine, that no transition panics, that a
  refused transition changes nothing, and that completion is final.
\<close>

subsection \<open>Data\<close>

type_synonym process_id = "64 word"

definition job_id_new :: "64 word \<Rightarrow> 64 word option" where
  "job_id_new v = (if v = 0 then None else Some v)"

definition process_id_new :: "64 word \<Rightarrow> process_id option" where
  "process_id_new v = (if v = 0 then None else Some v)"

datatype job_placement = PlForeground | PlBackground

datatype job_state =
    JsPlanned | JsStarting | JsForeground | JsBackground
  | JsStopped job_placement
  | JsCompleted | JsNotified | JsReaped

datatype job_member_state =
    MemRunning
  | MemStopped "32 word"
  | MemCompleted status

datatype job_transition_error =
    InvalidState string job_state
  | NoMembers
  | DuplicateProcess process_id
  | UnknownProcess process_id
  | ProcessAlreadyCompleted process_id
  | NoPendingNotice

record job =
  jb_id :: "64 word"
  jb_state :: job_state
  jb_placement :: "job_placement option"
  jb_members :: "(process_id \<times> job_member_state) list"
  notice_pending :: bool

type_synonym transition = "(unit, job_transition_error) result \<times> job"

definition placement_state :: "job_placement \<Rightarrow> job_state" where
  "placement_state p = (case p of PlForeground \<Rightarrow> JsForeground | PlBackground \<Rightarrow> JsBackground)"

definition is_completed :: "job_member_state \<Rightarrow> bool" where
  "is_completed m = (case m of MemCompleted _ \<Rightarrow> True | _ \<Rightarrow> False)"

definition is_stopped :: "job_member_state \<Rightarrow> bool" where
  "is_stopped m = (case m of MemStopped _ \<Rightarrow> True | _ \<Rightarrow> False)"

definition state_stopped :: "job_state \<Rightarrow> bool" where
  "state_stopped s = (case s of JsStopped _ \<Rightarrow> True | _ \<Rightarrow> False)"

definition job_new :: "64 word \<Rightarrow> job" where
  "job_new i =
     \<lparr>jb_id = i, jb_state = JsPlanned, jb_placement = None, jb_members = [], notice_pending = False\<rparr>"

subsection \<open>Checks\<close>

definition require_state ::
  "string \<Rightarrow> job_state list \<Rightarrow> job \<Rightarrow> (unit, job_transition_error) result" where
  "require_state operation accepted j =
     (if jb_state j \<in> set accepted then Ok () else Err (InvalidState operation (jb_state j)))"

definition require_observable :: "string \<Rightarrow> job \<Rightarrow> (unit, job_transition_error) result" where
  "require_observable operation j =
     (if jb_state j \<in> {JsStarting, JsForeground, JsBackground} \<or> state_stopped (jb_state j) then Ok ()
      else Err (InvalidState operation (jb_state j)))"

definition member_get ::
  "process_id \<Rightarrow> job \<Rightarrow> (job_member_state, job_transition_error) result" where
  "member_get process j =
     (case bt_get (jb_members j) process of
        None \<Rightarrow> Err (UnknownProcess process)
      | Some m \<Rightarrow> Ok m)"

definition reconcile :: "job \<Rightarrow> job option" where
  "reconcile j =
     (if jb_state j = JsStarting then Some j
      else if list_all (\<lambda>(_, m). is_completed m) (jb_members j)
      then Some (j\<lparr>notice_pending := (if jb_state j \<noteq> JsCompleted then True else notice_pending j),
                  jb_state := JsCompleted\<rparr>)
      else if list_all (\<lambda>(_, m). is_stopped m \<or> is_completed m) (jb_members j)
      then (case jb_placement j of
          None \<Rightarrow> None
        | Some resume \<Rightarrow>
            Some (j\<lparr>notice_pending := (if \<not> state_stopped (jb_state j) then True else notice_pending j),
                    jb_state := JsStopped resume\<rparr>))
      else (case jb_placement j of
          None \<Rightarrow> None
        | Some p \<Rightarrow> Some (j\<lparr>jb_state := placement_state p\<rparr>)))"

text \<open>\<open>guarded\<close> is an early return with the job as it was.\<close>

definition guarded ::
  "(unit, job_transition_error) result \<Rightarrow> job \<Rightarrow> transition option \<Rightarrow> transition option" where
  "guarded check j next = (case check of Err e \<Rightarrow> Some (Err e, j) | Ok _ \<Rightarrow> next)"

definition succeed :: "job option \<Rightarrow> transition option" where
  "succeed j = map_option (Pair (Ok ())) j"

subsection \<open>Transitions\<close>

definition begin_starting :: "job \<Rightarrow> transition option" where
  "begin_starting j =
     guarded (require_state ''begin startup'' [JsPlanned] j) j
       (succeed (Some (j\<lparr>jb_state := JsStarting\<rparr>)))"

definition add_process :: "process_id \<Rightarrow> job \<Rightarrow> transition option" where
  "add_process process j =
     guarded (require_state ''register a process'' [JsStarting] j) j
       (if bt_get (jb_members j) process \<noteq> None then Some (Err (DuplicateProcess process), j)
        else succeed (Some (j\<lparr>jb_members := bt_insert process MemRunning (jb_members j)\<rparr>)))"

definition finish_starting :: "job_placement \<Rightarrow> job \<Rightarrow> transition option" where
  "finish_starting placement j =
     guarded (require_state ''finish startup'' [JsStarting] j) j
       (if jb_members j = [] then Some (Err NoMembers, j)
        else succeed (reconcile
          (j\<lparr>jb_placement := Some placement, jb_state := placement_state placement\<rparr>)))"

text \<open>An observation of a member that has not completed replaces its state.\<close>

definition observe ::
  "string \<Rightarrow> process_id \<Rightarrow> (job \<Rightarrow> job option) \<Rightarrow> job \<Rightarrow> transition option" where
  "observe operation process update j =
     guarded (require_observable operation j) j
       (case member_get process j of
          Err e \<Rightarrow> Some (Err e, j)
        | Ok m \<Rightarrow>
            if is_completed m then Some (Err (ProcessAlreadyCompleted process), j)
            else succeed (update j))"

definition observe_stopped :: "process_id \<Rightarrow> 32 word \<Rightarrow> job \<Rightarrow> transition option" where
  "observe_stopped process sig j =
     observe ''observe a stopped process'' process
       (\<lambda>j. reconcile (j\<lparr>jb_members := bt_insert process (MemStopped sig) (jb_members j)\<rparr>)) j"

definition observe_continued :: "process_id \<Rightarrow> job \<Rightarrow> transition option" where
  "observe_continued process j =
     observe ''observe a continued process'' process
       (\<lambda>j. reconcile
          (j\<lparr>jb_members := bt_insert process MemRunning (jb_members j),
             jb_placement := (case jb_state j of JsStopped resume \<Rightarrow> Some resume | _ \<Rightarrow> jb_placement j),
             notice_pending := False\<rparr>)) j"

definition observe_completed :: "process_id \<Rightarrow> status \<Rightarrow> job \<Rightarrow> transition option" where
  "observe_completed process st j =
     observe ''observe a completed process'' process
       (\<lambda>j. reconcile (j\<lparr>jb_members := bt_insert process (MemCompleted st) (jb_members j)\<rparr>)) j"

definition move_to :: "job_placement \<Rightarrow> job \<Rightarrow> transition option" where
  "move_to placement j =
     guarded (require_state ''change placement'' [JsForeground, JsBackground] j) j
       (succeed (Some (j\<lparr>jb_placement := Some placement, jb_state := placement_state placement\<rparr>)))"

definition resume_member :: "job_member_state \<Rightarrow> job_member_state" where
  "resume_member m = (if is_stopped m then MemRunning else m)"

definition continue_in :: "job_placement \<Rightarrow> job \<Rightarrow> transition option" where
  "continue_in placement j =
     (if \<not> state_stopped (jb_state j) then Some (Err (InvalidState ''continue'' (jb_state j)), j)
      else succeed (Some
        (j\<lparr>jb_members := map (\<lambda>(p, m). (p, resume_member m)) (jb_members j),
           jb_placement := Some placement, jb_state := placement_state placement,
           notice_pending := False\<rparr>)))"

definition acknowledge_stopped_notice :: "job \<Rightarrow> transition option" where
  "acknowledge_stopped_notice j =
     (if \<not> state_stopped (jb_state j)
      then Some (Err (InvalidState ''acknowledge a stopped notice'' (jb_state j)), j)
      else if \<not> notice_pending j then Some (Err NoPendingNotice, j)
      else succeed (Some (j\<lparr>notice_pending := False\<rparr>)))"

definition mark_notified :: "job \<Rightarrow> transition option" where
  "mark_notified j =
     guarded (require_state ''mark notified'' [JsCompleted] j) j
       (succeed (Some (j\<lparr>jb_state := JsNotified, notice_pending := False\<rparr>)))"

definition mark_reaped :: "job \<Rightarrow> transition option" where
  "mark_reaped j =
     guarded (require_state ''mark reaped'' [JsNotified] j) j
       (succeed (Some (j\<lparr>jb_state := JsReaped\<rparr>)))"

definition abort_starting_after_cleanup :: "job \<Rightarrow> transition option" where
  "abort_starting_after_cleanup j =
     guarded (require_state ''abort startup'' [JsStarting] j) j
       (succeed (Some (j\<lparr>jb_state := JsReaped, jb_members := []\<rparr>)))"

datatype job_op =
    JobBegin
  | JobAdd process_id
  | JobFinish job_placement
  | JobStopped process_id "32 word"
  | JobContinued process_id
  | JobCompleted process_id status
  | JobMove job_placement
  | JobContinue job_placement
  | JobAckStopped
  | JobNotified
  | JobReaped
  | JobAbort

fun job_apply :: "job_op \<Rightarrow> job \<Rightarrow> transition option" where
  "job_apply JobBegin j = begin_starting j"
| "job_apply (JobAdd p) j = add_process p j"
| "job_apply (JobFinish pl) j = finish_starting pl j"
| "job_apply (JobStopped p sig) j = observe_stopped p sig j"
| "job_apply (JobContinued p) j = observe_continued p j"
| "job_apply (JobCompleted p st) j = observe_completed p st j"
| "job_apply (JobMove pl) j = move_to pl j"
| "job_apply (JobContinue pl) j = continue_in pl j"
| "job_apply JobAckStopped j = acknowledge_stopped_notice j"
| "job_apply JobNotified j = mark_notified j"
| "job_apply JobReaped j = mark_reaped j"
| "job_apply JobAbort j = abort_starting_after_cleanup j"

definition job_exec :: "job_op \<Rightarrow> job \<Rightarrow> job option" where
  "job_exec a j = map_option snd (job_apply a j)"

subsection \<open>The invariant\<close>

text \<open>
  The state a job's members determine: what every published job that has not been acknowledged
  must be in.
\<close>

definition aggregate :: "job_placement \<Rightarrow> (process_id \<times> job_member_state) list \<Rightarrow> job_state" where
  "aggregate p ms =
     (if list_all (\<lambda>(_, m). is_completed m) ms then JsCompleted
      else if list_all (\<lambda>(_, m). is_stopped m \<or> is_completed m) ms then JsStopped p
      else placement_state p)"

definition job_ok :: "job \<Rightarrow> bool" where
  "job_ok j \<longleftrightarrow>
     bt_sorted (jb_members j) \<and>
     (case jb_state j of
        JsPlanned \<Rightarrow> jb_members j = [] \<and> jb_placement j = None \<and> \<not> notice_pending j
      | JsStarting \<Rightarrow> jb_placement j = None \<and> \<not> notice_pending j
      | JsReaped \<Rightarrow> \<not> notice_pending j
      | JsNotified \<Rightarrow>
          (\<exists>p. jb_placement j = Some p \<and> aggregate p (jb_members j) = JsCompleted)
            \<and> jb_members j \<noteq> [] \<and> \<not> notice_pending j
      | s \<Rightarrow>
          (\<exists>p. jb_placement j = Some p \<and> aggregate p (jb_members j) = s)
            \<and> jb_members j \<noteq> []
            \<and> (s = JsCompleted \<longrightarrow> notice_pending j)
            \<and> (s = JsForeground \<or> s = JsBackground \<longrightarrow> \<not> notice_pending j))"

lemma reconcile_eq:
  assumes "jb_state j \<noteq> JsStarting" "jb_placement j = Some p"
  shows "reconcile j = Some (j\<lparr>
    notice_pending := (let s = aggregate p (jb_members j) in
      (s = JsCompleted \<and> jb_state j \<noteq> JsCompleted \<or> state_stopped s \<and> \<not> state_stopped (jb_state j)
       \<or> notice_pending j)),
    jb_state := aggregate p (jb_members j)\<rparr>)"
  using assms by (cases p) (auto simp: reconcile_def aggregate_def state_stopped_def placement_state_def)

lemma placement_state_simps [simp]:
  "placement_state p \<noteq> JsStarting" "placement_state p \<noteq> JsCompleted" "placement_state p \<noteq> JsPlanned"
  "placement_state p \<noteq> JsNotified" "placement_state p \<noteq> JsReaped" "\<not> state_stopped (placement_state p)"
  "placement_state p \<noteq> JsStopped r" "JsStopped r \<noteq> placement_state p"
  by (cases p; simp add: placement_state_def state_stopped_def)+

lemmas placement_state_sym [simp] = placement_state_simps(1-5) [THEN not_sym]

lemma state_stopped_iff: "state_stopped s \<longleftrightarrow> (\<exists>r. s = JsStopped r)"
  by (cases s) (auto simp: state_stopped_def)

lemma aggregate_cases:
  "aggregate p ms = JsCompleted \<or> aggregate p ms = JsStopped p \<or> aggregate p ms = placement_state p"
  by (simp add: aggregate_def)

lemma bt_insert_not_Nil [simp]: "bt_insert k v m \<noteq> []"
  by (cases m) (auto split: if_splits)

text \<open>A published job: it has members and its state is the aggregate of them.\<close>

definition published :: "job \<Rightarrow> bool" where
  "published j \<longleftrightarrow>
     bt_sorted (jb_members j) \<and> jb_members j \<noteq> []
       \<and> (\<exists>p. jb_placement j = Some p \<and> jb_state j = aggregate p (jb_members j))
       \<and> (jb_state j = JsCompleted \<longrightarrow> notice_pending j)
       \<and> (jb_state j = JsForeground \<or> jb_state j = JsBackground \<longrightarrow> \<not> notice_pending j)"

lemma published_ok: "published j \<Longrightarrow> job_ok j"
  using aggregate_cases
  by (cases "jb_state j") (auto simp: published_def job_ok_def aggregate_def placement_state_def
      split: if_splits job_placement.splits)

lemma job_ok_published:
  "job_ok j \<Longrightarrow> jb_state j \<in> {JsForeground, JsBackground, JsCompleted} \<or> state_stopped (jb_state j) \<Longrightarrow>
     published j"
  by (cases "jb_state j") (auto simp: published_def job_ok_def state_stopped_def)

lemma reconcile_published:
  assumes "jb_state j \<noteq> JsStarting" "jb_state j \<noteq> JsCompleted" "jb_placement j = Some p"
    and "bt_sorted (jb_members j)" "jb_members j \<noteq> []"
    and "notice_pending j \<Longrightarrow> state_stopped (jb_state j) \<and> (aggregate p (jb_members j) \<noteq> placement_state p)"
  obtains j' where "reconcile j = Some j'" "published j'" "jb_members j' = jb_members j" "jb_id j' = jb_id j"
proof -
  let ?s = "aggregate p (jb_members j)"
  have "published (j\<lparr>notice_pending := (let s = ?s in
      (s = JsCompleted \<and> jb_state j \<noteq> JsCompleted \<or> state_stopped s \<and> \<not> state_stopped (jb_state j)
       \<or> notice_pending j)), jb_state := ?s\<rparr>)"
    using assms aggregate_cases [of p "jb_members j"]
    by (cases p) (auto simp: published_def placement_state_def Let_def state_stopped_def split: job_state.splits)
  from that [OF reconcile_eq [OF assms(1,3)] this] show thesis by simp
qed

lemma list_all_bt_insert: "list_all P m \<Longrightarrow> P (k, v) \<Longrightarrow> list_all P (bt_insert k v m)"
  by (induction k v m rule: bt_insert.induct) auto

lemma bt_insert_member: "(k, v) \<in> set (bt_insert k v m)"
  by (induction k v m rule: bt_insert.induct) auto

lemma stopped_all:
  assumes "published j" "state_stopped (jb_state j)"
  shows "list_all (\<lambda>(_, m). is_stopped m \<or> is_completed m) (jb_members j)"
    and "\<not> list_all (\<lambda>(_, m). is_completed m) (jb_members j)"
    and "jb_state j = JsStopped (the (jb_placement j))"
  using assms by (auto simp: published_def aggregate_def state_stopped_iff split: if_splits)

text \<open>What an observation leaves: the members changed, and the state reconciled with them.\<close>

definition live :: "job \<Rightarrow> bool" where
  "live j \<longleftrightarrow> jb_state j \<in> {JsForeground, JsBackground} \<or> state_stopped (jb_state j)"

lemma member_stop_or_complete:
  assumes "job_ok j" "jb_state j = JsStarting \<or> live j" "is_stopped m \<or> is_completed m"
  obtains j' where "reconcile (j\<lparr>jb_members := bt_insert p m (jb_members j)\<rparr>) = Some j'" "job_ok j'"
    "jb_members j' = bt_insert p m (jb_members j)" "jb_id j' = jb_id j"
    "jb_state j = JsStarting \<and> jb_state j' = JsStarting \<or> live j \<and> published j'"
proof (cases "jb_state j = JsStarting")
  case True
  then have e: "reconcile (j\<lparr>jb_members := bt_insert p m (jb_members j)\<rparr>)
      = Some (j\<lparr>jb_members := bt_insert p m (jb_members j)\<rparr>)"
    by (simp add: reconcile_def)
  show thesis
    by (rule that [OF e]) (use True assms(1) in \<open>auto simp: job_ok_def bt_sorted_insert\<close>)
next
  case False
  with assms(2) have l: "live j" by simp
  then have pub: "published j" using job_ok_published [OF assms(1)] by (auto simp: live_def)
  then obtain q where q: "jb_placement j = Some q" "jb_state j = aggregate q (jb_members j)"
    by (auto simp: published_def)
  let ?j = "j\<lparr>jb_members := bt_insert p m (jb_members j)\<rparr>"
  have st: "aggregate q (bt_insert p m (jb_members j)) \<noteq> placement_state q" if "state_stopped (jb_state j)"
  proof -
    have "list_all (\<lambda>(_, m). is_stopped m \<or> is_completed m) (bt_insert p m (jb_members j))"
      using stopped_all(1) [OF pub that] assms(3) by (intro list_all_bt_insert) auto
    then show ?thesis by (auto simp: aggregate_def)
  qed
  have np: "notice_pending j \<Longrightarrow> state_stopped (jb_state j)"
    using pub l by (auto simp: published_def live_def)
  have "jb_state ?j \<noteq> JsStarting" "jb_state ?j \<noteq> JsCompleted"
    using l by (auto simp: live_def state_stopped_iff)
  from reconcile_published [OF this, of q] q(1) pub np st
  obtain j' where "reconcile ?j = Some j'" "published j'" "jb_members j' = jb_members ?j" "jb_id j' = jb_id ?j"
    by (auto simp: published_def bt_sorted_insert)
  with l show thesis by (intro that [of j']) (auto simp: published_ok)
qed

lemma member_continue:
  assumes "job_ok j" "jb_state j = JsStarting \<or> live j"
  obtains j' where "reconcile (j\<lparr>jb_members := bt_insert p MemRunning (jb_members j),
      jb_placement := (case jb_state j of JsStopped resume \<Rightarrow> Some resume | _ \<Rightarrow> jb_placement j),
      notice_pending := False\<rparr>) = Some j'" "job_ok j'"
    "jb_members j' = bt_insert p MemRunning (jb_members j)" "jb_id j' = jb_id j"
    "jb_state j = JsStarting \<and> jb_state j' = JsStarting \<or> live j \<and> published j'"
proof (cases "jb_state j = JsStarting")
  case True
  let ?j = "j\<lparr>jb_members := bt_insert p MemRunning (jb_members j),
      jb_placement := (case jb_state j of JsStopped resume \<Rightarrow> Some resume | _ \<Rightarrow> jb_placement j),
      notice_pending := False\<rparr>"
  from True have e: "reconcile ?j = Some ?j" by (simp add: reconcile_def)
  show thesis
    by (rule that [OF e]) (use True assms(1) in \<open>auto simp: job_ok_def bt_sorted_insert\<close>)
next
  case False
  with assms(2) have l: "live j" by simp
  then have pub: "published j" using job_ok_published [OF assms(1)] by (auto simp: live_def)
  then obtain q where q: "jb_placement j = Some q" "jb_state j = aggregate q (jb_members j)"
    by (auto simp: published_def)
  have pl: "(case jb_state j of JsStopped resume \<Rightarrow> Some resume | _ \<Rightarrow> jb_placement j) = Some q"
    using q stopped_all(3) [OF pub] by (auto simp: state_stopped_iff split: job_state.split)
  let ?j = "j\<lparr>jb_members := bt_insert p MemRunning (jb_members j), jb_placement := Some q, notice_pending := False\<rparr>"
  have "jb_state ?j \<noteq> JsStarting" "jb_state ?j \<noteq> JsCompleted"
    using l by (auto simp: live_def state_stopped_iff)
  from reconcile_published [OF this, of q] pub
  obtain j' where "reconcile ?j = Some j'" "published j'" "jb_members j' = jb_members ?j" "jb_id j' = jb_id ?j"
    by (auto simp: published_def bt_sorted_insert)
  with l show thesis by (intro that [of j', unfolded pl]) (auto simp: published_ok)
qed

subsection \<open>Every transition keeps the invariant\<close>

definition rank :: "job_state \<Rightarrow> nat" where
  "rank s =
     (case s of
        JsPlanned \<Rightarrow> 0
      | JsStarting \<Rightarrow> 1
      | JsForeground \<Rightarrow> 2
      | JsBackground \<Rightarrow> 2
      | JsStopped _ \<Rightarrow> 2
      | JsCompleted \<Rightarrow> 3
      | JsNotified \<Rightarrow> 4
      | JsReaped \<Rightarrow> 5)"

text \<open>
  The order along transitions: the identity stays, the lifecycle does not go back, a reaped job does
  not change, and a completed member keeps its status unless an aborted startup forgets the members.
\<close>

definition job_before :: "job \<Rightarrow> job \<Rightarrow> bool" where
  "job_before j j' \<longleftrightarrow>
     jb_id j' = jb_id j \<and> rank (jb_state j) \<le> rank (jb_state j')
       \<and> (jb_state j = JsReaped \<longrightarrow> j' = j)
       \<and> (\<forall>p st. bt_get (jb_members j) p = Some (MemCompleted st) \<longrightarrow>
            bt_get (jb_members j') p = Some (MemCompleted st) \<or> jb_members j' = [] \<and> jb_state j' = JsReaped)"

lemma job_before_refl: "job_before j j"
  by (simp add: job_before_def)

lemma rank_5: "5 \<le> rank s \<longleftrightarrow> s = JsReaped"
  by (cases s) (auto simp: rank_def)

lemma job_before_trans: "job_before i j \<Longrightarrow> job_before j k \<Longrightarrow> job_before i k"
  unfolding job_before_def by (metis le_trans)

text \<open>What one transition gives: it returns, keeps the invariant and the order, and an error changes nothing.\<close>

definition sound :: "job \<Rightarrow> transition option \<Rightarrow> bool" where
  "sound j t \<longleftrightarrow>
     (\<exists>r j'. t = Some (r, j') \<and> job_ok j' \<and> job_before j j' \<and> (r \<noteq> Ok () \<longrightarrow> j' = j))"

lemma sound_error: "job_ok j \<Longrightarrow> sound j (Some (Err e, j))"
  by (simp add: sound_def job_before_refl)

lemma sound_guarded:
  "job_ok j \<Longrightarrow> (check = Ok () \<Longrightarrow> sound j t) \<Longrightarrow> sound j (guarded check j t)"
  by (cases check) (auto simp: guarded_def sound_error)

lemma sound_succeed: "job_ok j' \<Longrightarrow> job_before j j' \<Longrightarrow> sound j (succeed (Some j'))"
  by (simp add: sound_def succeed_def)

lemma require_state_Ok: "require_state op ss j = Ok () \<longleftrightarrow> jb_state j \<in> set ss"
  by (simp add: require_state_def)

lemma bt_get_insert: "bt_sorted m \<Longrightarrow> bt_get (bt_insert k v m) k' = (if k' = k then Some v else bt_get m k')"
  by (simp add: bt_get_def map_of_bt_insert)

lemma published_rank: "published j \<Longrightarrow> 2 \<le> rank (jb_state j)"
  using aggregate_cases [of "the (jb_placement j)" "jb_members j"]
  by (auto simp: published_def rank_def placement_state_def split: job_state.splits job_placement.splits)

lemma live_rank: "live j \<Longrightarrow> rank (jb_state j) = 2"
  by (auto simp: live_def rank_def state_stopped_iff)

lemma before_observed:
  assumes "job_ok j" "jb_state j = JsStarting \<or> live j" "\<not> is_completed m0" "bt_get (jb_members j) p = Some m0"
    and "jb_members j' = bt_insert p m (jb_members j)" "jb_id j' = jb_id j"
    and "jb_state j = JsStarting \<and> jb_state j' = JsStarting \<or> live j \<and> published j'"
  shows "job_before j j'"
proof -
  have "bt_sorted (jb_members j)" using assms(1) by (simp add: job_ok_def)
  moreover have "rank (jb_state j) \<le> rank (jb_state j')"
    using assms(7) live_rank published_rank by (auto simp: rank_def)
  ultimately show ?thesis
    using assms by (auto simp: job_before_def bt_get_insert is_completed_def live_def state_stopped_def)
qed

lemma sound_observe:
  assumes "job_ok j"
    and "\<And>m0. jb_state j = JsStarting \<or> live j \<Longrightarrow> \<exists>j'. upd j = Some j' \<and> job_ok j'
      \<and> (\<exists>m. jb_members j' = bt_insert p m (jb_members j)) \<and> jb_id j' = jb_id j
      \<and> (jb_state j = JsStarting \<and> jb_state j' = JsStarting \<or> live j \<and> published j')"
  shows "sound j (observe op p upd j)"
  unfolding observe_def
proof (rule sound_guarded [OF assms(1)])
  assume "require_observable op j = Ok ()"
  then have l: "jb_state j = JsStarting \<or> live j"
    by (auto simp: require_observable_def live_def split: if_splits)
  from assms(2) [OF l] obtain j' m where j': "upd j = Some j'" "job_ok j'" "jb_id j' = jb_id j"
    "jb_members j' = bt_insert p m (jb_members j)"
    "jb_state j = JsStarting \<and> jb_state j' = JsStarting \<or> live j \<and> published j'" by blast
  show "sound j (case member_get p j of Inl e \<Rightarrow> Some (Err e, j)
      | Inr m \<Rightarrow> if is_completed m then Some (Err (ProcessAlreadyCompleted p), j) else succeed (upd j))"
  proof (cases "bt_get (jb_members j) p")
    case None
    with assms(1) show ?thesis by (simp add: member_get_def sound_error)
  next
    case (Some m0)
    with assms(1) j' before_observed [OF assms(1) l _ Some j'(4,3,5)] show ?thesis
      by (auto simp: member_get_def sound_error intro: sound_succeed)
  qed
qed

lemma aggregate_running:
  assumes "published j" "jb_state j \<in> {JsForeground, JsBackground}"
  shows "aggregate q (jb_members j) = placement_state q"
  using assms by (auto simp: published_def aggregate_def split: if_splits)

lemma running_member: "(p, MemRunning) \<in> set ms \<Longrightarrow> aggregate q ms = placement_state q"
  by (force simp: aggregate_def list_all_iff is_completed_def is_stopped_def)

lemma resume_completed [simp]: "resume_member (MemCompleted st) = MemCompleted st"
  by (simp add: resume_member_def is_stopped_def)

lemma resume_members:
  assumes "list_all (\<lambda>(_, m). is_stopped m \<or> is_completed m) ms" "\<not> list_all (\<lambda>(_, m). is_completed m) ms"
  shows "aggregate q (map (\<lambda>(p, m). (p, resume_member m)) ms) = placement_state q"
proof -
  from assms obtain p m where "(p, m) \<in> set ms" "is_stopped m" by (fastforce simp: list_all_iff)
  then have "(p, MemRunning) \<in> set (map (\<lambda>(p, m). (p, resume_member m)) ms)"
    by (force simp: resume_member_def)
  then show ?thesis by (rule running_member)
qed

lemma map_of_resume: "map_of (map (\<lambda>(p, m). (p, resume_member m)) ms) k = map_option resume_member (map_of ms k)"
  by (induction ms) auto

lemma sound_apply:
  assumes ok: "job_ok j"
  shows "sound j (job_apply a j)"
proof (cases a)
  case JobBegin
  with ok show ?thesis
    by (auto simp: begin_starting_def require_state_Ok job_ok_def job_before_def rank_def
        intro!: sound_guarded sound_succeed)
next
  case (JobAdd p)
  then show ?thesis
    using ok sound_error [OF ok]
    by (auto simp: add_process_def require_state_Ok job_ok_def job_before_def rank_def bt_sorted_insert
        bt_get_insert intro!: sound_guarded sound_succeed)
next
  case (JobFinish pl)
  show ?thesis
    unfolding JobFinish job_apply.simps finish_starting_def
  proof (rule sound_guarded [OF ok])
    assume "require_state ''finish startup'' [JsStarting] j = Ok ()"
    then have st: "jb_state j = JsStarting" by (simp add: require_state_Ok)
    let ?j = "j\<lparr>jb_placement := Some pl, jb_state := placement_state pl\<rparr>"
    have "\<exists>j'. reconcile ?j = Some j' \<and> published j' \<and> jb_members j' = jb_members ?j \<and> jb_id j' = jb_id ?j"
      if "jb_members j \<noteq> []"
      by (rule reconcile_published [of ?j pl]) (use ok st that in \<open>auto simp: job_ok_def\<close>)
    with st sound_error [OF ok] show "sound j (if jb_members j = [] then Some (Err NoMembers, j) else succeed (reconcile ?j))"
      using published_rank
      by (fastforce simp: job_before_def rank_def intro: sound_succeed published_ok)
  qed
next
  case (JobStopped p sig)
  show ?thesis
    unfolding JobStopped job_apply.simps observe_stopped_def
    by (rule sound_observe [OF ok], rule member_stop_or_complete [OF ok, of "MemStopped sig" p])
      (auto simp: is_stopped_def)
next
  case (JobContinued p)
  show ?thesis
    unfolding JobContinued job_apply.simps observe_continued_def
    by (rule sound_observe [OF ok], rule member_continue [OF ok, of p]) auto
next
  case (JobCompleted p st)
  show ?thesis
    unfolding JobCompleted job_apply.simps observe_completed_def
    by (rule sound_observe [OF ok], rule member_stop_or_complete [OF ok, of "MemCompleted st" p])
      (auto simp: is_completed_def)
next
  case (JobMove pl)
  show ?thesis
    unfolding JobMove job_apply.simps move_to_def
  proof (rule sound_guarded [OF ok])
    assume "require_state ''change placement'' [JsForeground, JsBackground] j = Ok ()"
    then have st: "jb_state j \<in> {JsForeground, JsBackground}" by (simp add: require_state_Ok)
    then have pub: "published j" using job_ok_published [OF ok] by auto
    have "published (j\<lparr>jb_placement := Some pl, jb_state := placement_state pl\<rparr>)"
      using pub st aggregate_running [OF pub st, of pl] by (auto simp: published_def)
    with st show "sound j (succeed (Some (j\<lparr>jb_placement := Some pl, jb_state := placement_state pl\<rparr>)))"
      by (cases pl) (auto simp: job_before_def rank_def placement_state_def intro!: sound_succeed published_ok)
  qed
next
  case (JobContinue pl)
  show ?thesis
  proof (cases "state_stopped (jb_state j)")
    case True
    then have pub: "published j" using job_ok_published [OF ok] by auto
    let ?ms = "map (\<lambda>(p, m). (p, resume_member m)) (jb_members j)"
    let ?j = "j\<lparr>jb_members := ?ms, jb_placement := Some pl, jb_state := placement_state pl, notice_pending := False\<rparr>"
    have "bt_sorted ?ms" using pub by (simp add: published_def bt_sorted_def comp_def case_prod_unfold)
    then have "published ?j"
      using pub resume_members [OF stopped_all(1,2) [OF pub True], of pl] by (auto simp: published_def)
    moreover have "job_before j ?j"
      using True by (cases pl) (auto simp: job_before_def bt_get_def map_of_resume rank_def
          placement_state_def state_stopped_iff)
    ultimately show ?thesis
      using True by (simp add: JobContinue continue_in_def sound_succeed published_ok)
  qed (simp add: JobContinue continue_in_def sound_error [OF ok])
next
  case JobAckStopped
  show ?thesis
  proof (cases "state_stopped (jb_state j) \<and> notice_pending j")
    case True
    then have "published j" using job_ok_published [OF ok] by auto
    with True have "published (j\<lparr>notice_pending := False\<rparr>)"
      by (auto simp: published_def state_stopped_iff)
    with True show ?thesis
      by (auto simp: JobAckStopped acknowledge_stopped_notice_def job_before_def state_stopped_iff
          intro!: sound_succeed published_ok)
  qed (auto simp: JobAckStopped acknowledge_stopped_notice_def sound_error [OF ok])
next
  case JobNotified
  with ok show ?thesis
    by (auto simp: mark_notified_def require_state_Ok job_ok_def job_before_def rank_def
        intro!: sound_guarded sound_succeed)
next
  case JobReaped
  with ok show ?thesis
    by (auto simp: mark_reaped_def require_state_Ok job_ok_def job_before_def rank_def
        intro!: sound_guarded sound_succeed)
next
  case JobAbort
  with ok show ?thesis
    by (auto simp: abort_starting_after_cleanup_def require_state_Ok job_ok_def job_before_def rank_def
        intro!: sound_guarded sound_succeed)
qed

lemma job_new_ok: "job_ok (job_new i)"
  by (simp add: job_ok_def job_new_def)

interpretation job: ordered_machine job_exec job_ok job_before
proof
  fix s s' a
  assume "job_ok s"
  note st = sound_apply [OF this, of a, unfolded sound_def]
  show "\<exists>s'. job_exec a s = Some s' \<and> job_ok s'" using st by (auto simp: job_exec_def)
  show "job_exec a s = Some s' \<Longrightarrow> job_before s s'" using st by (auto simp: job_exec_def)
qed (auto simp: job_before_refl intro: job_before_trans)

subsection \<open>Properties\<close>

text \<open>
  C36: A job reached from a new one by any sequence of transitions, accepted or refused, is consistent:
  no transition panics, and the state of a published job is what its members determine. It is
  completed when all have completed, stopped when every other one is stopped, and otherwise running
  in its placement; a completion notice is pending exactly until it is acknowledged.
\<close>

theorem job_reachable_ok:
  "\<exists>j. run_ops job_exec ops (job_new i) = Some j \<and> job_ok j"
  by (rule job.run_inv [OF job_new_ok])

text \<open>
  A refused transition leaves the job unchanged, in every consistent state and for every transition.
\<close>

theorem job_error_unchanged:
  assumes "job_ok j" "job_apply a j = Some (Err e, j')"
  shows "j' = j"
  using sound_apply [OF assms(1), of a] assms(2) by (auto simp: sound_def)

text \<open>
  C7: Completion is final and the lifecycle only goes forward. Along any sequence of transitions from
  a consistent job its identity stays, its phase never goes back, a reaped job does not change, and
  a member that has completed keeps its status, unless the startup was aborted and the job with all
  its members discarded.
\<close>

theorem job_progress_monotone:
  assumes "job_ok j" "run_ops job_exec ops j = Some j'"
  shows "jb_id j' = jb_id j \<and> rank (jb_state j) \<le> rank (jb_state j')
    \<and> (jb_state j = JsReaped \<longrightarrow> j' = j)
    \<and> (bt_get (jb_members j) p = Some (MemCompleted st) \<longrightarrow>
        bt_get (jb_members j') p = Some (MemCompleted st) \<or> jb_members j' = [] \<and> jb_state j' = JsReaped)"
  using job.run_before [OF assms] by (auto simp: job_before_def)

text \<open>
  The last completion completes the job: when a live job's only unfinished member is observed to
  complete, the transition is accepted, the job is completed and its notice is pending.
\<close>

theorem job_last_completion:
  assumes "job_ok j" "live j" "bt_get (jb_members j) p = Some m" "\<not> is_completed m"
    and "\<forall>q n. bt_get (jb_members j) q = Some n \<longrightarrow> q \<noteq> p \<longrightarrow> is_completed n"
  shows "\<exists>j'. observe_completed p st j = Some (Ok (), j') \<and> jb_state j' = JsCompleted \<and> notice_pending j'"
proof -
  let ?ms = "bt_insert p (MemCompleted st) (jb_members j)"
  have srt: "bt_sorted (jb_members j)" using assms(1) by (simp add: job_ok_def)
  have "list_all (\<lambda>(_, n). is_completed n) ?ms"
    unfolding list_all_iff
  proof (clarify)
    fix q n
    assume "(q, n) \<in> set ?ms"
    moreover have "distinct (map fst ?ms)" by (rule bt.inv_distinct [OF bt_sorted_insert [OF srt]])
    ultimately have "bt_get ?ms q = Some n" by (simp add: bt_get_def)
    with assms(5) show "is_completed n"
      by (auto simp: bt_get_insert [OF srt] is_completed_def split: if_splits)
  qed
  then have a: "aggregate q ?ms = JsCompleted" for q by (simp add: aggregate_def)
  obtain j' where j': "reconcile (j\<lparr>jb_members := ?ms\<rparr>) = Some j'" "jb_members j' = ?ms" "live j \<and> published j'"
    using assms(2) by (rule_tac member_stop_or_complete [OF assms(1), of "MemCompleted st" p])
      (auto simp: is_completed_def live_def state_stopped_def)
  then have "jb_state j' = JsCompleted" "notice_pending j'"
    using a by (auto simp: published_def)
  with j' assms(2-4) show ?thesis
    by (auto simp: observe_completed_def observe_def guarded_def require_observable_def live_def member_get_def
        succeed_def)
qed

subsection \<open>Witnesses\<close>

definition demo_job :: job where
  "demo_job = \<lparr>jb_id = 1, jb_state = JsForeground, jb_placement = Some PlForeground,
     jb_members = [(7, MemRunning)], notice_pending = False\<rparr>"

lemma demo_job_ok: "job_ok demo_job"
  by (simp add: demo_job_def job_ok_def bt_sorted_def aggregate_def is_completed_def is_stopped_def
      placement_state_def)

theorem job_error_unchanged_witness:
  "\<exists>e. job_apply JobReaped demo_job = Some (Err e, demo_job)"
proof -
  obtain e j' where e: "job_apply JobReaped demo_job = Some (Err e, j')"
    by (simp add: demo_job_def mark_reaped_def require_state_def guarded_def)
  from job_error_unchanged [OF demo_job_ok e] e show ?thesis by blast
qed

theorem job_progress_monotone_witness:
  "\<exists>j'. run_ops job_exec [JobMove PlBackground] demo_job = Some j' \<and> 2 \<le> rank (jb_state j')"
proof -
  obtain j' where r: "run_ops job_exec [JobMove PlBackground] demo_job = Some j'"
    using job.run_inv [OF demo_job_ok] by blast
  from job_progress_monotone [OF demo_job_ok r] r show ?thesis by (auto simp: demo_job_def rank_def)
qed

theorem job_last_completion_witness:
  "\<exists>j'. observe_completed 7 (Status (Some 0) None [] (Duration 1)) demo_job = Some (Ok (), j')
    \<and> jb_state j' = JsCompleted \<and> notice_pending j'"
  by (rule job_last_completion [OF demo_job_ok, of 7 MemRunning])
    (auto simp: demo_job_def live_def bt_get_def is_completed_def split: if_splits)

end
