(* ===== verification/Paths.thy ===== *)
theory Paths
  imports Prelude
begin

section \<open>Native paths\<close>

text \<open>
  What the runtime uses of \<open>std::path\<close> on Unix: the components of a path, on which equality and order
  of paths rest, and \<open>push\<close>. A path is its bytes. Repeated and trailing separators and inner \<open>.\<close>
  components disappear; a leading \<open>.\<close> of a relative path is kept.
\<close>

datatype path_component =
    CompRootDir
  | CompCurDir
  | CompParentDir
  | CompNormal string

fun split_slash :: "string \<Rightarrow> string list" where
  "split_slash [] = [[]]"
| "split_slash (c # s) =
     (if c = CHR ''/'' then [] # split_slash s
      else (case split_slash s of [] \<Rightarrow> [[c]] | w # ws \<Rightarrow> (c # w) # ws))"

definition single_component :: "string \<Rightarrow> path_component option" where
  "single_component s =
     (if s = '''' \<or> s = ''.'' then None
      else if s = ''..'' then Some CompParentDir
      else Some (CompNormal s))"

definition is_absolute :: "string \<Rightarrow> bool" where
  "is_absolute p \<longleftrightarrow> p \<noteq> [] \<and> hd p = CHR ''/''"

definition path_components :: "string \<Rightarrow> path_component list" where
  "path_components p =
     (if is_absolute p then [CompRootDir]
      else if hd (split_slash p) = ''.'' then [CompCurDir] else [])
     @ List.map_filter single_component (split_slash p)"

definition path_push :: "string \<Rightarrow> string \<Rightarrow> string" where
  "path_push p q =
     (if is_absolute q then q
      else if p = [] \<or> last p = CHR ''/'' then p @ q
      else p @ ''/'' @ q)"

lemma split_slash_not_Nil [simp]: "split_slash s \<noteq> []"
  by (cases s) (auto split: list.split)

lemma split_slash_plain: "CHR ''/'' \<notin> set s \<Longrightarrow> split_slash s = [s]"
  by (induction s) auto

lemma split_slash_no_slash: "w \<in> set (split_slash s) \<Longrightarrow> CHR ''/'' \<notin> set w"
proof (induction s arbitrary: w)
  case (Cons c s)
  then show ?case by (auto split: list.splits if_splits)
qed simp

lemma split_slash_append:
  "split_slash (a @ CHR ''/'' # b) = split_slash a @ split_slash b"
proof (induction a)
  case (Cons c a)
  obtain w ws where "split_slash a = w # ws" by (cases "split_slash a") simp_all
  with Cons show ?case by auto
qed simp

end
