(* ===== verification/Environment.thy ===== *)
theory Environment
  imports Paths Btree
begin

section \<open>The child environment and the session snapshot\<close>

text \<open>
  The model of \<^verbatim>\<open>crates/opaal-runtime/src/environment.rs\<close>: the ordered map of native names and values,
  the bounded construction from a host snapshot with each refusal, the snapshot of a session, and
  the transfer of a transaction's changes. Sizes are natural numbers with the saturation of
  \<open>usize\<close> written out. The lemmas show that a snapshot is accepted exactly within its limits, that
  a refusal names the first offending entry, and that a delta carries the changed names and no other.
\<close>

definition usize_saturating_add :: "nat \<Rightarrow> nat \<Rightarrow> nat" where
  "usize_saturating_add a b = min USIZE_MAX (a + b)"

record host_environment_limits =
  he_entries :: nat
  he_bytes :: nat

definition HOST_LIMITS_OPAAL :: host_environment_limits where
  "HOST_LIMITS_OPAAL = \<lparr>he_entries = 1000000, he_bytes = 16 * 1024 * 1024\<rparr>"

datatype host_environment_limit_kind = LimitEntries | LimitBytes

definition limit_kind_name :: "host_environment_limit_kind \<Rightarrow> string" where
  "limit_kind_name k = (case k of LimitEntries \<Rightarrow> ''entries'' | LimitBytes \<Rightarrow> ''native-bytes'')"

datatype invalid_environment_component = ComponentName | ComponentValue

datatype environment_snapshot_error =
    LimitExceeded host_environment_limit_kind nat nat
  | InvalidEntry nat invalid_environment_component
  | DuplicateName nat

definition snapshot_error_display :: "environment_snapshot_error \<Rightarrow> string" where
  "snapshot_error_display e =
     (case e of
        LimitExceeded k limit entry \<Rightarrow>
          ''host environment entry '' @ show_nat entry @ '' exceeded the '' @ limit_kind_name k
            @ '' limit of '' @ show_nat limit
      | InvalidEntry entry component \<Rightarrow>
          ''host environment entry '' @ show_nat entry @ '' has an invalid native ''
            @ (case component of ComponentName \<Rightarrow> ''name'' | ComponentValue \<Rightarrow> ''value'')
      | DuplicateName entry \<Rightarrow>
          ''host environment entry '' @ show_nat entry @ '' repeats a native name'')"

subsection \<open>The environment\<close>

record environment =
  env_entries :: "(string \<times> string) list"

definition env_new :: environment where
  "env_new = \<lparr>env_entries = []\<rparr>"

definition env_from_snapshot :: "(string \<times> string) list \<Rightarrow> environment" where
  "env_from_snapshot es = \<lparr>env_entries = bt_from_list es\<rparr>"

definition invalid_env_name :: "string \<Rightarrow> bool" where
  "invalid_env_name name \<longleftrightarrow> name = [] \<or> CHR 0x00 \<in> set name \<or> CHR ''='' \<in> set name"

text \<open>The loop of \<open>try_from_snapshot\<close>, from the entry at \<open>index\<close>, with the map and the bytes so far.\<close>

fun snapshot_loop ::
  "host_environment_limits \<Rightarrow> nat \<Rightarrow> nat \<Rightarrow> (string \<times> string) list \<Rightarrow> (string \<times> string) list
     \<Rightarrow> (environment, environment_snapshot_error) result" where
  "snapshot_loop limits index bytes snapshot [] = Ok \<lparr>env_entries = snapshot\<rparr>"
| "snapshot_loop limits index bytes snapshot ((name, v) # es) =
     (let entry = usize_saturating_add index 1
      in if he_entries limits < entry
         then Err (LimitExceeded LimitEntries (he_entries limits) entry)
         else if invalid_env_name name then Err (InvalidEntry entry ComponentName)
         else if CHR 0x00 \<in> set v then Err (InvalidEntry entry ComponentValue)
         else
           let entry_bytes = usize_saturating_add (length name) (length v);
               bytes = usize_saturating_add bytes entry_bytes
           in if he_bytes limits < bytes
              then Err (LimitExceeded LimitBytes (he_bytes limits) entry)
              else if bt_get snapshot name \<noteq> None then Err (DuplicateName entry)
              else snapshot_loop limits (index + 1) bytes (bt_insert name v snapshot) es)"

definition try_from_snapshot ::
  "(string \<times> string) list \<Rightarrow> host_environment_limits
     \<Rightarrow> (environment, environment_snapshot_error) result" where
  "try_from_snapshot es limits = snapshot_loop limits 0 0 [] es"

definition env_get :: "environment \<Rightarrow> string \<Rightarrow> string option" where
  "env_get env name = bt_get (env_entries env) name"

definition env_contains :: "environment \<Rightarrow> string \<Rightarrow> bool" where
  "env_contains env name \<longleftrightarrow> bt_get (env_entries env) name \<noteq> None"

definition env_set :: "string \<Rightarrow> string \<Rightarrow> environment \<Rightarrow> environment" where
  "env_set name v env = env\<lparr>env_entries := bt_insert name v (env_entries env)\<rparr>"

definition env_remove :: "string \<Rightarrow> environment \<Rightarrow> bool \<times> environment" where
  "env_remove name env =
     (bt_get (env_entries env) name \<noteq> None,
      env\<lparr>env_entries := bt_remove name (env_entries env)\<rparr>)"

definition env_len :: "environment \<Rightarrow> nat" where
  "env_len env = length (env_entries env)"

definition env_is_empty :: "environment \<Rightarrow> bool" where
  "env_is_empty env \<longleftrightarrow> env_entries env = []"

definition env_names :: "environment \<Rightarrow> string list" where
  "env_names env = map fst (env_entries env)"

definition env_iter :: "environment \<Rightarrow> (string \<times> string) list" where
  "env_iter env = env_entries env"

definition delta_entry :: "environment \<Rightarrow> environment \<Rightarrow> environment \<Rightarrow> string \<Rightarrow> environment" where
  "delta_entry base updated env name =
     (if env_get base name = env_get updated name then env
      else (case env_get updated name of
          Some v \<Rightarrow> env_set name v env
        | None \<Rightarrow> snd (env_remove name env)))"

definition apply_delta :: "environment \<Rightarrow> environment \<Rightarrow> environment \<Rightarrow> environment" where
  "apply_delta env base updated =
     foldl (delta_entry base updated) env (env_names base @ env_names updated)"

subsection \<open>The session snapshot\<close>

text \<open>\<open>capture\<close> asks the host; its error is the parameter of the first constructor.\<close>

datatype 'e native_session_snapshot_error =
    CurrentDirectory 'e
  | InvalidCurrentDirectory
  | EnvironmentError environment_snapshot_error

definition session_snapshot_error_display ::
  "('e \<Rightarrow> string) \<Rightarrow> 'e native_session_snapshot_error \<Rightarrow> string" where
  "session_snapshot_error_display display e =
     (case e of
        CurrentDirectory error \<Rightarrow>
          ''failed to acquire the host working directory: '' @ display error
      | InvalidCurrentDirectory \<Rightarrow> ''the host working directory is not a valid absolute path''
      | EnvironmentError error \<Rightarrow> snapshot_error_display error)"

record native_session_snapshot =
  ns_cwd :: string
  ns_environment :: environment

definition session_from_snapshot ::
  "string \<Rightarrow> (string \<times> string) list \<Rightarrow> host_environment_limits
     \<Rightarrow> (native_session_snapshot, 'e native_session_snapshot_error) result" where
  "session_from_snapshot cwd es limits =
     (if \<not> is_absolute cwd \<or> CHR 0x00 \<in> set cwd then Err InvalidCurrentDirectory
      else (case try_from_snapshot es limits of
          Err e \<Rightarrow> Err (EnvironmentError e)
        | Ok env \<Rightarrow> Ok \<lparr>ns_cwd = cwd, ns_environment = env\<rparr>))"

definition capture ::
  "(string, 'e) result \<Rightarrow> (string \<times> string) list
     \<Rightarrow> (native_session_snapshot, 'e native_session_snapshot_error) result" where
  "capture current_dir vars_os =
     (case current_dir of
        Err e \<Rightarrow> Err (CurrentDirectory e)
      | Ok cwd \<Rightarrow> session_from_snapshot cwd vars_os HOST_LIMITS_OPAAL)"

subsection \<open>What a snapshot accepts\<close>

definition env_ok :: "environment \<Rightarrow> bool" where
  "env_ok env \<longleftrightarrow> bt_sorted (env_entries env)"

definition valid_entry :: "string \<times> string \<Rightarrow> bool" where
  "valid_entry e \<longleftrightarrow> \<not> invalid_env_name (fst e) \<and> CHR 0x00 \<notin> set (snd e)"

definition total_bytes :: "(string \<times> string) list \<Rightarrow> nat" where
  "total_bytes es = (\<Sum>e \<leftarrow> es. length (fst e) + length (snd e))"

definition acceptable :: "host_environment_limits \<Rightarrow> (string \<times> string) list \<Rightarrow> bool" where
  "acceptable limits es \<longleftrightarrow>
     min USIZE_MAX (length es) \<le> he_entries limits \<and> list_all valid_entry es
       \<and> min USIZE_MAX (total_bytes es) \<le> he_bytes limits \<and> distinct (map fst es)"

text \<open>The flaw an error names, in the list that ends with the offending entry.\<close>

definition offends ::
  "host_environment_limits \<Rightarrow> (string \<times> string) list \<Rightarrow> string \<times> string
     \<Rightarrow> environment_snapshot_error \<Rightarrow> bool" where
  "offends limits es e err \<longleftrightarrow>
     (let entry = min USIZE_MAX (Suc (length es))
      in case err of
           LimitExceeded LimitEntries limit k \<Rightarrow> k = entry \<and> limit = he_entries limits \<and> limit < entry
         | LimitExceeded LimitBytes limit k \<Rightarrow>
             k = entry \<and> limit = he_bytes limits \<and> limit < min USIZE_MAX (total_bytes (es @ [e]))
         | InvalidEntry k ComponentName \<Rightarrow> k = entry \<and> invalid_env_name (fst e)
         | InvalidEntry k ComponentValue \<Rightarrow> k = entry \<and> CHR 0x00 \<in> set (snd e)
         | DuplicateName k \<Rightarrow> k = entry \<and> fst e \<in> fst ` set es)"

lemma usize_saturating_sum:
  "usize_saturating_add (min USIZE_MAX a) (usize_saturating_add b c) = min USIZE_MAX (a + b + c)"
  by (auto simp: usize_saturating_add_def min_def)

lemma total_bytes_snoc: "total_bytes (es @ [e]) = total_bytes es + length (fst e) + length (snd e)"
  by (simp add: total_bytes_def)

lemma acceptable_snoc:
  "acceptable limits (es @ [e]) \<longleftrightarrow>
     acceptable limits es \<and> min USIZE_MAX (Suc (length es)) \<le> he_entries limits \<and> valid_entry e
       \<and> min USIZE_MAX (total_bytes (es @ [e])) \<le> he_bytes limits \<and> fst e \<notin> fst ` set es"
  by (auto simp: acceptable_def total_bytes_snoc image_iff min_def split: if_splits)

text \<open>What the loop has after the entries \<open>before\<close>, and what it answers on the rest.\<close>

definition loop_post ::
  "host_environment_limits \<Rightarrow> (string \<times> string) list \<Rightarrow> (string \<times> string) list
     \<Rightarrow> (environment, environment_snapshot_error) result \<Rightarrow> bool" where
  "loop_post limits before rest r \<longleftrightarrow>
     (case r of
        Ok env \<Rightarrow>
          acceptable limits (before @ rest) \<and> env_ok env
            \<and> env_get env = map_of (before @ rest)
      | Err err \<Rightarrow>
          (\<exists>es e es'. rest = es @ e # es' \<and> acceptable limits (before @ es)
            \<and> offends limits (before @ es) e err))"

lemma loop_post_step:
  assumes "loop_post limits (before @ [e]) rest r"
  shows "loop_post limits before (e # rest) r"
proof (cases r)
  case (Inl err)
  with assms obtain es d es' where "rest = es @ d # es'" "acceptable limits (before @ e # es)"
    "offends limits (before @ e # es) d err" by (auto simp: loop_post_def)
  then have "e # rest = (e # es) @ d # es' \<and> acceptable limits (before @ (e # es))
    \<and> offends limits (before @ (e # es)) d err" by simp
  then show ?thesis unfolding loop_post_def Inl sum.case by blast
next
  case (Inr env)
  with assms show ?thesis by (simp add: loop_post_def)
qed

lemma loop_post_err:
  "acceptable limits before \<Longrightarrow> offends limits before e err \<Longrightarrow> loop_post limits before (e # rest) (Err err)"
  unfolding loop_post_def sum.case by (intro exI [of _ "[]"] exI [of _ e] exI [of _ rest]) simp

lemma snapshot_loop_post:
  assumes "acceptable limits before" "bt_sorted m" "map_of m = map_of before"
  shows "loop_post limits before rest
    (snapshot_loop limits (length before) (min USIZE_MAX (total_bytes before)) m rest)"
  using assms
proof (induction rest arbitrary: before m)
  case Nil
  then show ?case by (auto simp: loop_post_def env_ok_def env_get_def bt_get_def)
next
  case (Cons e rest)
  obtain name v where e: "e = (name, v)" by (cases e)
  let ?n = "min USIZE_MAX (Suc (length before))" and ?b = "min USIZE_MAX (total_bytes (before @ [e]))"
  have keys: "bt_get m name = None \<longleftrightarrow> name \<notin> fst ` set before"
    using Cons.prems(3) by (simp add: bt_get_def map_of_eq_None_iff)
  have loop: "snapshot_loop limits (length before) (min USIZE_MAX (total_bytes before)) m (e # rest) =
    (if he_entries limits < ?n then Err (LimitExceeded LimitEntries (he_entries limits) ?n)
     else if invalid_env_name name then Err (InvalidEntry ?n ComponentName)
     else if CHR 0x00 \<in> set v then Err (InvalidEntry ?n ComponentValue)
     else if he_bytes limits < ?b then Err (LimitExceeded LimitBytes (he_bytes limits) ?n)
     else if bt_get m name \<noteq> None then Err (DuplicateName ?n)
     else snapshot_loop limits (length (before @ [e])) ?b (bt_insert name v m) rest)"
    unfolding e total_bytes_snoc fst_conv snd_conv
    by (simp only: snapshot_loop.simps usize_saturating_sum Let_def length_append_singleton
        usize_saturating_add_def [of "length before" 1] add.commute [of "length before" 1] plus_1_eq_Suc)
  show ?case
  proof (cases "acceptable limits (before @ [e])")
    case True
    then have fresh: "name \<notin> fst ` set before" by (simp add: acceptable_snoc e)
    have "map_of (bt_insert name v m) = map_of (before @ [e])"
      using fresh Cons.prems(3)
      by (auto simp: map_of_bt_insert [OF Cons.prems(2)] e map_add_def fun_eq_iff map_of_eq_None_iff
          split: option.splits dest!: map_of_SomeD intro: rev_image_eqI)
    from loop_post_step [OF Cons.IH [OF True bt_sorted_insert [OF Cons.prems(2)] this]] True fresh
    show ?thesis unfolding loop
      by (simp add: acceptable_snoc valid_entry_def keys e linorder_not_less [symmetric] del: min_less_iff_conj)
  next
    case False
    with Cons.prems(1) show ?thesis
      unfolding loop acceptable_snoc
      by (auto intro!: loop_post_err simp: offends_def Let_def valid_entry_def keys e) force+
  qed
qed

lemma env_eqI: "env_ok a \<Longrightarrow> env_ok b \<Longrightarrow> env_get a = env_get b \<Longrightarrow> a = (b :: environment)"
proof -
  assume a: "env_ok a" and b: "env_ok b" and eq: "env_get a = env_get b"
  let ?a = "env_entries a" and ?b = "env_entries b"
  have d: "distinct (map fst ?a)" "distinct (map fst ?b)" and s: "sorted (map fst ?a)" "sorted (map fst ?b)"
    using a b by (simp_all add: env_ok_def bt_sorted_def strict_sorted_iff)
  from eq have "map_of ?a = map_of ?b" by (simp add: env_get_def bt_get_def fun_eq_iff)
  with d have set: "set ?a = set ?b" by (simp add: map_of_inject_set)
  with d have "inj_on fst (set ?a \<union> set ?b)" by (simp add: distinct_map)
  from map_sorted_distinct_set_unique [OF this s(1) d(1) s(2) d(2) set] show "a = b" by simp
qed

lemma env_set_get:
  "env_ok env \<Longrightarrow> env_get (env_set name v env) k = (if k = name then Some v else env_get env k)"
  by (simp add: env_get_def env_set_def env_ok_def bt.lookup_insert)

lemma env_set_ok: "env_ok env \<Longrightarrow> env_ok (env_set name v env)"
  by (simp add: env_set_def env_ok_def bt_sorted_insert)

lemma env_remove_get:
  "env_get (snd (env_remove name env)) k = (if k = name then None else env_get env k)"
  by (simp add: env_get_def env_remove_def bt_get_remove)

lemma env_remove_ok: "env_ok env \<Longrightarrow> env_ok (snd (env_remove name env))"
  by (simp add: env_remove_def env_ok_def bt_sorted_remove)

lemma env_names_get: "name \<in> set (env_names env) \<longleftrightarrow> env_get env name \<noteq> None"
  by (simp add: env_names_def env_get_def bt_get_def map_of_eq_None_iff)

lemma delta_entry_get:
  "env_ok env \<Longrightarrow> env_get (delta_entry base updated env name) k =
     (if k = name \<and> env_get base k \<noteq> env_get updated k then env_get updated k else env_get env k)"
  by (auto simp: delta_entry_def env_set_get env_remove_get split: option.split)

lemma delta_entry_ok: "env_ok env \<Longrightarrow> env_ok (delta_entry base updated env name)"
  by (auto simp: delta_entry_def env_set_ok env_remove_ok split: option.split)

lemma delta_fold:
  "env_ok env \<Longrightarrow>
     env_ok (foldl (delta_entry base updated) env names)
     \<and> env_get (foldl (delta_entry base updated) env names) k =
       (if k \<in> set names \<and> env_get base k \<noteq> env_get updated k then env_get updated k else env_get env k)"
  by (induction names arbitrary: env) (auto simp: delta_entry_get delta_entry_ok)

lemma apply_delta_get:
  assumes "env_ok env"
  shows "env_ok (apply_delta env base updated)"
    and "env_get (apply_delta env base updated) k =
      (if env_get base k = env_get updated k then env_get env k else env_get updated k)"
  using delta_fold [OF assms, of base updated "env_names base @ env_names updated" k]
  by (auto simp: apply_delta_def env_names_get)

text \<open>
  C39: A host snapshot is accepted exactly when it has no more entries and bytes than the limits
  allow, every name and value is native and no name repeats; the environment then binds each name to
  its value. Otherwise the error names the first offending entry, by its position and its flaw.
\<close>

theorem environment_snapshot_exact:
  "case try_from_snapshot es limits of
     Ok env \<Rightarrow> acceptable limits es \<and> env_ok env \<and> env_get env = map_of es
   | Err err \<Rightarrow>
       (\<exists>es1 e es2. es = es1 @ e # es2 \<and> acceptable limits es1 \<and> offends limits es1 e err)"
proof -
  have "acceptable limits []" by (simp add: acceptable_def total_bytes_def)
  from snapshot_loop_post [OF this, of "[]" es] show ?thesis
    by (simp add: try_from_snapshot_def loop_post_def total_bytes_def split: sum.splits)
qed

text \<open>
  C40: Applying the changes a transaction made to its copy of an environment changes exactly the
  names on which the copy differs from its base, to what the copy has; onto the base itself it gives
  the transaction's environment.
\<close>

theorem environment_delta_exact:
  assumes "env_ok env" "env_ok base" "env_ok updated"
  shows "env_ok (apply_delta env base updated)
    \<and> env_get (apply_delta env base updated) k =
        (if env_get base k = env_get updated k then env_get env k else env_get updated k)
    \<and> apply_delta base base updated = updated"
proof -
  have "env_get (apply_delta base base updated) = env_get updated"
    using apply_delta_get(2) [OF assms(2)] by auto
  with env_eqI [OF apply_delta_get(1) [OF assms(2)] assms(3)] apply_delta_get [OF assms(1)]
  show ?thesis by simp
qed

theorem environment_delta_exact_witness:
  "env_get (apply_delta (env_from_snapshot [(''PWD'', ''/b''), (''A'', ''1'')])
      (env_from_snapshot [(''PWD'', ''/a''), (''A'', ''1'')])
      (env_from_snapshot [(''PWD'', ''/a''), (''B'', ''2'')])) ''PWD'' = Some ''/b''"
proof -
  have ok: "env_ok (env_from_snapshot es)" for es
    by (simp add: env_ok_def env_from_snapshot_def bt_from_list_sorted)
  show ?thesis
    using environment_delta_exact [OF ok ok ok,
        of "[(''PWD'', ''/b''), (''A'', ''1'')]" "[(''PWD'', ''/a''), (''A'', ''1'')]"
          "[(''PWD'', ''/a''), (''B'', ''2'')]" "''PWD''"]
    by (simp add: env_get_def env_from_snapshot_def bt_from_list_get)
qed

end
