(* ===== verification/Authority.thy ===== *)
theory Authority
  imports Paths Btree "HOL-Library.Product_Lexorder" "HOL-Library.Word"
begin

section \<open>Explicit authority\<close>

text \<open>
  The model of \<^verbatim>\<open>crates/opaal-runtime/src/authority.rs\<close>: requests for operational effects, the context
  of grant and deny rows of one evaluation, and the verdict on a request. Requests are compared as
  the derived \<open>Ord\<close> compares them, paths by their components, so the order is that of a key. The
  platform's answer is a parameter of the verdict; the answers of the POSIX adapter and of the
  trait's default are modelled beside it.
\<close>

definition MAX_AUTHORITY_RULES :: nat where
  "MAX_AUTHORITY_RULES = 256"

definition evaluation_context_id_new :: "64 word \<Rightarrow> 64 word option" where
  "evaluation_context_id_new v = (if v = 0 then None else Some v)"

datatype authority_effect =
    FilesystemRead | FilesystemWrite | ProcessRun | NetworkHttp | SecretReveal | ClockWall
  | ClockMonotonic | EntropySystem | StdinRead | StdoutWrite | StderrWrite

fun effect_index :: "authority_effect \<Rightarrow> nat" where
  "effect_index FilesystemRead = 0"
| "effect_index FilesystemWrite = 1"
| "effect_index ProcessRun = 2"
| "effect_index NetworkHttp = 3"
| "effect_index SecretReveal = 4"
| "effect_index ClockWall = 5"
| "effect_index ClockMonotonic = 6"
| "effect_index EntropySystem = 7"
| "effect_index StdinRead = 8"
| "effect_index StdoutWrite = 9"
| "effect_index StderrWrite = 10"

datatype capability_scope =
    ProjectPath string
  | Tool string
  | Endpoint string string
  | SecretSink string string string
  | Evaluation

datatype capability_request_error = EmptyPath | EmptyIdentity | InvalidMethod | InvalidHeader

record capability_request =
  rq_effect :: authority_effect
  rq_scope :: capability_scope

definition request_error_display :: "capability_request_error \<Rightarrow> string" where
  "request_error_display e =
     (case e of
        EmptyPath \<Rightarrow> ''an authority path scope cannot be empty''
      | EmptyIdentity \<Rightarrow> ''an authority identity cannot be empty''
      | InvalidMethod \<Rightarrow> ''an authority HTTP method must be uppercase ASCII''
      | InvalidHeader \<Rightarrow> ''an authority header name must be lowercase ASCII'')"

subsection \<open>Building requests\<close>

definition nonempty :: "string \<Rightarrow> (string, capability_request_error) result" where
  "nonempty v = (if v = [] then Err EmptyIdentity else Ok v)"

definition project_path :: "authority_effect \<Rightarrow> string \<Rightarrow> (capability_request, capability_request_error) result" where
  "project_path effect path =
     (if path_components path = path_components '''' then Err EmptyPath
      else Ok \<lparr>rq_effect = effect, rq_scope = ProjectPath path\<rparr>)"

definition filesystem_read :: "string \<Rightarrow> (capability_request, capability_request_error) result" where
  "filesystem_read path = project_path FilesystemRead path"

definition filesystem_write :: "string \<Rightarrow> (capability_request, capability_request_error) result" where
  "filesystem_write path = project_path FilesystemWrite path"

definition process_run :: "string \<Rightarrow> (capability_request, capability_request_error) result" where
  "process_run tool =
     (case nonempty tool of
        Err e \<Rightarrow> Err e
      | Ok tool' \<Rightarrow> Ok \<lparr>rq_effect = ProcessRun, rq_scope = Tool tool'\<rparr>)"

definition canonical_method :: "string \<Rightarrow> bool" where
  "canonical_method m \<longleftrightarrow> m \<noteq> [] \<and> list_all (\<lambda>b. 65 \<le> u8 b \<and> u8 b \<le> 90 \<or> b = CHR ''-'') m"

definition canonical_header :: "string \<Rightarrow> bool" where
  "canonical_header h \<longleftrightarrow> h \<noteq> [] \<and> list_all (\<lambda>b. 97 \<le> u8 b \<and> u8 b \<le> 122 \<or> b = CHR ''-'') h"

definition network_http :: "string \<Rightarrow> string \<Rightarrow> (capability_request, capability_request_error) result" where
  "network_http endpoint method =
     (case nonempty endpoint of
        Err e \<Rightarrow> Err e
      | Ok endpoint' \<Rightarrow>
          if \<not> canonical_method method then Err InvalidMethod
          else Ok \<lparr>rq_effect = NetworkHttp, rq_scope = Endpoint endpoint' method\<rparr>)"

definition secret_reveal ::
  "string \<Rightarrow> string \<Rightarrow> string \<Rightarrow> (capability_request, capability_request_error) result" where
  "secret_reveal secret endpoint header =
     (case nonempty secret of
        Err e \<Rightarrow> Err e
      | Ok secret' \<Rightarrow>
          (case nonempty endpoint of
             Err e \<Rightarrow> Err e
           | Ok endpoint' \<Rightarrow>
               if \<not> canonical_header header then Err InvalidHeader
               else Ok \<lparr>rq_effect = SecretReveal, rq_scope = SecretSink secret' endpoint' header\<rparr>))"

definition clock_wall :: capability_request where
  "clock_wall = \<lparr>rq_effect = ClockWall, rq_scope = Evaluation\<rparr>"

definition clock_monotonic :: capability_request where
  "clock_monotonic = \<lparr>rq_effect = ClockMonotonic, rq_scope = Evaluation\<rparr>"

definition entropy_system :: capability_request where
  "entropy_system = \<lparr>rq_effect = EntropySystem, rq_scope = Evaluation\<rparr>"

definition stdin_read :: capability_request where
  "stdin_read = \<lparr>rq_effect = StdinRead, rq_scope = Evaluation\<rparr>"

definition stdout_write :: capability_request where
  "stdout_write = \<lparr>rq_effect = StdoutWrite, rq_scope = Evaluation\<rparr>"

definition stderr_write :: capability_request where
  "stderr_write = \<lparr>rq_effect = StderrWrite, rq_scope = Evaluation\<rparr>"

definition standard_host :: "string \<Rightarrow> capability_request option" where
  "standard_host capability =
     (if capability = ''entropy.system'' then Some entropy_system
      else if capability = ''stdin.read'' then Some stdin_read
      else if capability = ''stdout.write'' then Some stdout_write
      else if capability = ''stderr.write'' then Some stderr_write
      else None)"

subsection \<open>The order of requests\<close>

type_synonym request_key = "nat \<times> nat \<times> (nat \<times> string) list"

definition component_key :: "path_component \<Rightarrow> nat \<times> string" where
  "component_key c =
     (case c of
        CompRootDir \<Rightarrow> (1, []) | CompCurDir \<Rightarrow> (2, []) | CompParentDir \<Rightarrow> (3, []) | CompNormal s \<Rightarrow> (4, s))"

definition scope_key :: "capability_scope \<Rightarrow> nat \<times> (nat \<times> string) list" where
  "scope_key s =
     (case s of
        ProjectPath p \<Rightarrow> (0, map component_key (path_components p))
      | Tool t \<Rightarrow> (1, [(0, t)])
      | Endpoint e m \<Rightarrow> (2, [(0, e), (0, m)])
      | SecretSink x e h \<Rightarrow> (3, [(0, x), (0, e), (0, h)])
      | Evaluation \<Rightarrow> (4, []))"

definition request_key :: "capability_request \<Rightarrow> request_key" where
  "request_key r = (effect_index (rq_effect r), scope_key (rq_scope r))"

definition effect_set_new :: "capability_request list \<Rightarrow> (request_key \<times> capability_request) list" where
  "effect_set_new requests = bt_from_list (map (\<lambda>r. (request_key r, r)) requests)"

definition effect_set_is_empty :: "(request_key \<times> capability_request) list \<Rightarrow> bool" where
  "effect_set_is_empty s \<longleftrightarrow> s = []"

definition effect_set_contains :: "(request_key \<times> capability_request) list \<Rightarrow> capability_request \<Rightarrow> bool" where
  "effect_set_contains s r \<longleftrightarrow> bt_get s (request_key r) \<noteq> None"

subsection \<open>Rules, contexts and verdicts\<close>

datatype required_enforcement = ReqEnforced | AcknowledgeUnenforced

record authority_rule =
  ru_request :: capability_request
  ru_required :: "required_enforcement option"

definition rule_deny :: "capability_request \<Rightarrow> authority_rule" where
  "rule_deny request = \<lparr>ru_request = request, ru_required = None\<rparr>"

definition rule_grant :: "capability_request \<Rightarrow> required_enforcement \<Rightarrow> authority_rule" where
  "rule_grant request required = \<lparr>ru_request = request, ru_required = Some required\<rparr>"

datatype authority_verdict = Denied | Unknown | Unsupported | GrantedEnforced | GrantedUnenforced

definition is_executable :: "authority_verdict \<Rightarrow> bool" where
  "is_executable v \<longleftrightarrow> v = GrantedEnforced \<or> v = GrantedUnenforced"

datatype authority_context_error =
    TooManyRules nat nat
  | DuplicateRule capability_request
  | InvalidUnenforcedAcknowledgement capability_request

record authority_context =
  ac_evaluation :: "64 word"
  ac_rules :: "authority_rule list"

definition bad_acknowledgement :: "authority_rule \<Rightarrow> bool" where
  "bad_acknowledgement r \<longleftrightarrow> ru_required r = Some AcknowledgeUnenforced \<and> rq_effect (ru_request r) \<noteq> ProcessRun"

fun duplicate_pair :: "authority_rule list \<Rightarrow> capability_request option" where
  "duplicate_pair (a # b # rs) =
     (if request_key (ru_request a) = request_key (ru_request b) then Some (ru_request a)
      else duplicate_pair (b # rs))"
| "duplicate_pair _ = None"

definition authority_context_new ::
  "64 word \<Rightarrow> authority_rule list \<Rightarrow> (authority_context, authority_context_error) result" where
  "authority_context_new evaluation rules =
     (if MAX_AUTHORITY_RULES < length rules then Err (TooManyRules (length rules) MAX_AUTHORITY_RULES)
      else (case find bad_acknowledgement rules of
          Some r \<Rightarrow> Err (InvalidUnenforcedAcknowledgement (ru_request r))
        | None \<Rightarrow>
            let sorted_rules = sort_key (\<lambda>r. request_key (ru_request r)) rules
            in case duplicate_pair sorted_rules of
                 Some request \<Rightarrow> Err (DuplicateRule request)
               | None \<Rightarrow> Ok \<lparr>ac_evaluation = evaluation, ac_rules = sorted_rules\<rparr>))"

definition authority_context_empty :: "64 word \<Rightarrow> authority_context" where
  "authority_context_empty evaluation = \<lparr>ac_evaluation = evaluation, ac_rules = []\<rparr>"

text \<open>\<open>slice::binary_search_by\<close>, with its comparison given as keys.\<close>

function search_loop :: "('a \<Rightarrow> 'k::linorder) \<Rightarrow> 'k \<Rightarrow> 'a list \<Rightarrow> nat \<Rightarrow> nat \<Rightarrow> nat" where
  "search_loop key k xs base n =
     (if 1 < n
      then let half = n div 2; mid = base + half
        in search_loop key k xs (if k < key (xs ! mid) then base else mid) (n - half)
      else base)"
  by pat_completeness auto
termination
  by (relation "measure (\<lambda>(_, _, _, _, n). n)") auto

declare search_loop.simps [simp del]

definition binary_search_key :: "('a \<Rightarrow> 'k::linorder) \<Rightarrow> 'k \<Rightarrow> 'a list \<Rightarrow> (nat, nat) result" where
  "binary_search_key key k xs =
     (if xs = [] then Err 0
      else let base = search_loop key k xs 0 (length xs)
        in if key (xs ! base) = k then Ok base
           else Err (base + (if key (xs ! base) < k then 1 else 0)))"

datatype authority_enforcement = EnEnforced | EnUnenforced | EnUnsupported | EnUnknown

type_synonym authority_query = "authority_effect \<times> capability_scope"

definition platform_query :: "capability_request \<Rightarrow> authority_query" where
  "platform_query r = (rq_effect r, rq_scope r)"

fun agreement :: "authority_enforcement \<Rightarrow> required_enforcement \<Rightarrow> authority_verdict" where
  "agreement EnEnforced _ = GrantedEnforced"
| "agreement EnUnenforced AcknowledgeUnenforced = GrantedUnenforced"
| "agreement EnUnenforced ReqEnforced = Unsupported"
| "agreement EnUnsupported _ = Unsupported"
| "agreement EnUnknown _ = Unknown"

definition verdict ::
  "authority_context \<Rightarrow> capability_request \<Rightarrow> (authority_query \<Rightarrow> authority_enforcement) \<Rightarrow> authority_verdict" where
  "verdict ctx request enforcement =
     (case binary_search_key (\<lambda>r. request_key (ru_request r)) (request_key request) (ac_rules ctx) of
        Err _ \<Rightarrow> Denied
      | Ok index \<Rightarrow>
          (case ru_required (ac_rules ctx ! index) of
             None \<Rightarrow> Denied
           | Some required \<Rightarrow> agreement (enforcement (platform_query request)) required))"

text \<open>The answers of the adapters: the trait's default and the POSIX platform on Linux or elsewhere.\<close>

definition default_enforcement :: "authority_query \<Rightarrow> authority_enforcement" where
  "default_enforcement q = EnUnsupported"

definition posix_enforcement :: "bool \<Rightarrow> authority_query \<Rightarrow> authority_enforcement" where
  "posix_enforcement linux q =
     (if fst q = ProcessRun then (if linux then EnUnenforced else EnUnsupported) else EnEnforced)"

section \<open>Correctness\<close>

lemma search_loop_range:
  "0 < n \<Longrightarrow> search_loop key k xs base n < base + n"
proof (induction key k xs base n rule: search_loop.induct)
  case (1 key k xs base n)
  show ?case
  proof (cases "1 < n")
    case True
    with 1(1) [OF True refl refl] show ?thesis
      by (subst search_loop.simps) (auto simp: Let_def less_imp_diff_less)
  next
    case False
    with 1(2) show ?thesis by (simp add: search_loop.simps)
  qed
qed

lemma search_loop_finds:
  assumes "sorted_wrt (<) (map key xs)" "i < length xs" "key (xs ! i) = k"
    and "base \<le> i" "i < base + n" "base + n \<le> length xs"
  shows "search_loop key k xs base n = i"
  using assms
proof (induction key k xs base n rule: search_loop.induct)
  case (1 key k xs base n)
  show ?case
  proof (cases "1 < n")
    case True
    let ?mid = "base + n div 2"
    have mid: "?mid < length xs" "0 < n div 2" "n div 2 < n" using 1(7) True by auto
    have ord: "key (xs ! a) < key (xs ! b)" if "a < b" "b < length xs" for a b
      using 1(2) that by (simp add: sorted_wrt_iff_nth_less)
    have "k < key (xs ! ?mid) \<longleftrightarrow> i < ?mid"
      using ord [of i ?mid] ord [of ?mid i] 1(3,4) mid(1) by (metis less_asym linorder_neqE_nat order_less_irrefl)
    moreover have "search_loop key k xs (if k < key (xs ! ?mid) then base else ?mid) (n - n div 2) = i"
      using 1(2-7) True mid calculation by (intro 1(1) [OF True refl refl]) (auto split: if_splits)
    ultimately show ?thesis using True by (simp add: search_loop.simps [of _ _ _ _ n] Let_def)
  next
    case False
    with 1(5,6) show ?thesis by (simp add: search_loop.simps)
  qed
qed

lemma binary_search_finds:
  assumes "sorted_wrt (<) (map key xs)"
  shows "binary_search_key key k xs = Ok i \<longleftrightarrow> i < length xs \<and> key (xs ! i) = k"
proof
  assume "binary_search_key key k xs = Ok i"
  then show "i < length xs \<and> key (xs ! i) = k"
    using search_loop_range [of "length xs" key k xs 0]
    by (auto simp: binary_search_key_def Let_def split: if_splits)
next
  assume "i < length xs \<and> key (xs ! i) = k"
  then show "binary_search_key key k xs = Ok i"
    using search_loop_finds [OF assms, of i k 0 "length xs"] by (auto simp: binary_search_key_def)
qed

abbreviation rule_key :: "authority_rule \<Rightarrow> request_key" where
  "rule_key r \<equiv> request_key (ru_request r)"

lemma duplicate_pair_None: "duplicate_pair rs = None \<longleftrightarrow> successively (\<lambda>a b. rule_key a \<noteq> rule_key b) rs"
  by (induction rs rule: duplicate_pair.induct) auto

lemma sorted_distinct_pairs:
  assumes "sorted (map rule_key rs)"
  shows "duplicate_pair rs = None \<longleftrightarrow> distinct (map rule_key rs)"
  using assms
proof (induction rs rule: duplicate_pair.induct)
  case (1 a b rs)
  have "rule_key a \<in> rule_key ` set (b # rs) \<Longrightarrow> rule_key a = rule_key b"
    using 1(2) by (auto intro: order_antisym)
  with 1 show ?case by (auto simp: image_iff)
qed simp_all

lemma authority_context_new_Ok:
  assumes "authority_context_new ev rules = Ok ctx"
  shows "ac_evaluation ctx = ev" "ac_rules ctx = sort_key rule_key rules"
    "sorted_wrt (<) (map rule_key (ac_rules ctx))" "list_all (\<lambda>r. \<not> bad_acknowledgement r) rules"
proof -
  from assms show e: "ac_evaluation ctx = ev" "ac_rules ctx = sort_key rule_key rules"
    and "list_all (\<lambda>r. \<not> bad_acknowledgement r) rules"
    by (auto simp: authority_context_new_def Let_def list_all_iff find_None_iff split: if_splits option.splits)
  have "duplicate_pair (sort_key rule_key rules) = None"
    using assms by (auto simp: authority_context_new_def Let_def split: if_splits option.splits)
  then show "sorted_wrt (<) (map rule_key (ac_rules ctx))"
    unfolding e(2) strict_sorted_iff by (simp add: sorted_distinct_pairs)
qed

lemma effect_index_inj: "effect_index a = effect_index b \<longleftrightarrow> a = b"
  by (cases a; cases b) simp_all

definition row_for :: "authority_rule list \<Rightarrow> capability_request \<Rightarrow> authority_rule option" where
  "row_for rules request = find (\<lambda>r. rule_key r = request_key request) rules"

lemma row_for_unique:
  "distinct (map rule_key rules) \<Longrightarrow> r \<in> set rules \<Longrightarrow> rule_key r = request_key request \<Longrightarrow>
     row_for rules request = Some r"
  unfolding row_for_def by (induction rules) (auto simp: rev_image_eqI)

lemma row_for_Some: "row_for rules request = Some r \<Longrightarrow> r \<in> set rules \<and> rule_key r = request_key request"
  unfolding row_for_def by (auto simp: find_Some_iff)

lemma verdict_row:
  assumes c: "authority_context_new ev rules = Ok ctx"
  shows "verdict ctx request enf =
    (case row_for rules request of
       None \<Rightarrow> Denied
     | Some r \<Rightarrow> (case ru_required r of None \<Rightarrow> Denied | Some q \<Rightarrow> agreement (enf (platform_query request)) q))"
proof -
  note ctx = authority_context_new_Ok [OF c]
  have st: "set (ac_rules ctx) = set rules" by (simp add: ctx(2))
  have "distinct (map rule_key (ac_rules ctx))" using ctx(3) by (simp add: strict_sorted_iff)
  then have d: "distinct (map rule_key rules)" by (simp add: ctx(2) distinct_map)
  show ?thesis
  proof (cases "binary_search_key rule_key (request_key request) (ac_rules ctx)")
    case (Inr i)
    with binary_search_finds [OF ctx(3), of "request_key request" i]
    have i: "i < length (ac_rules ctx)" "rule_key (ac_rules ctx ! i) = request_key request" by simp_all
    then have "ac_rules ctx ! i \<in> set rules" using st by (metis nth_mem)
    from row_for_unique [OF d this i(2)] Inr show ?thesis by (simp add: verdict_def)
  next
    case (Inl e)
    have "row_for rules request = None"
    proof (rule ccontr)
      assume "row_for rules request \<noteq> None"
      then obtain r where "r \<in> set rules" "rule_key r = request_key request" by (auto dest: row_for_Some)
      then obtain i where "i < length (ac_rules ctx)" "rule_key (ac_rules ctx ! i) = request_key request"
        unfolding st [symmetric] by (metis in_set_conv_nth)
      with binary_search_finds [OF ctx(3), of "request_key request" i] Inl show False by simp
    qed
    with Inl show ?thesis by (simp add: verdict_def)
  qed
qed

lemma duplicate_pair_Some:
  "duplicate_pair rs = Some q \<Longrightarrow> q \<in> ru_request ` set rs \<and> \<not> distinct (map rule_key rs)"
  by (induction rs rule: duplicate_pair.induct) (auto split: if_splits)

subsection \<open>Properties\<close>

text \<open>
  C31: The verdict is decided by the one row for the request. For a context built from a list of rows,
  binary search over the sorted rows gives what looking for the row with the same normalized
  request in the list gives: no row and a deny row are denials, and a grant row agrees with the
  platform's answer by the fixed table.
\<close>

theorem verdict_exact:
  assumes "authority_context_new ev rules = Ok ctx"
  shows "verdict ctx request enf =
    (case row_for rules request of
       None \<Rightarrow> Denied
     | Some r \<Rightarrow> (case ru_required r of None \<Rightarrow> Denied | Some q \<Rightarrow> agreement (enf (platform_query request)) q))"
  by (rule verdict_row [OF assms])

text \<open>
  C3: Authority fails closed. A verdict that permits an adapter call has a grant row for exactly that
  request, and either the platform enforces the boundary, or the request runs a process whose
  unenforced boundary the row acknowledges. With the platform's default answer nothing runs.
\<close>

theorem authority_fails_closed:
  assumes "authority_context_new ev rules = Ok ctx" "is_executable (verdict ctx request enf)"
  shows "(\<exists>r \<in> set rules. \<exists>q. rule_key r = request_key request \<and> ru_required r = Some q
      \<and> (enf (platform_query request) = EnEnforced
        \<or> enf (platform_query request) = EnUnenforced \<and> q = AcknowledgeUnenforced \<and> rq_effect request = ProcessRun))
    \<and> enf \<noteq> default_enforcement"
proof -
  from assms(2) obtain r q where r: "row_for rules request = Some r" "ru_required r = Some q"
    and x: "is_executable (agreement (enf (platform_query request)) q)"
    by (auto simp: verdict_row [OF assms(1)] is_executable_def split: option.splits)
  from row_for_Some [OF r(1)] have m: "r \<in> set rules" "rule_key r = request_key request" by simp_all
  then have eff: "rq_effect (ru_request r) = rq_effect request" by (simp add: request_key_def effect_index_inj)
  have "\<not> bad_acknowledgement r" using authority_context_new_Ok(4) [OF assms(1)] m(1) by (simp add: list_all_iff)
  with x r(2) eff have "enf (platform_query request) = EnEnforced
      \<or> enf (platform_query request) = EnUnenforced \<and> q = AcknowledgeUnenforced \<and> rq_effect request = ProcessRun"
    by (cases "enf (platform_query request)"; cases q) (auto simp: is_executable_def bad_acknowledgement_def)
  with m r(2) show ?thesis by (auto simp: default_enforcement_def)
qed

text \<open>
  A context is accepted exactly when it has at most 256 rows, acknowledges an unenforced boundary
  only for processes and names no normalized request twice; it then holds the rows it was given,
  and each refusal names its cause.
\<close>

theorem authority_context_exact:
  "case authority_context_new ev rules of
     Ok ctx \<Rightarrow> length rules \<le> MAX_AUTHORITY_RULES \<and> distinct (map rule_key rules)
       \<and> list_all (\<lambda>r. \<not> bad_acknowledgement r) rules
       \<and> set (ac_rules ctx) = set rules \<and> length (ac_rules ctx) = length rules \<and> ac_evaluation ctx = ev
   | Err (TooManyRules n m) \<Rightarrow> n = length rules \<and> m = MAX_AUTHORITY_RULES \<and> m < n
   | Err (InvalidUnenforcedAcknowledgement q) \<Rightarrow> q \<in> ru_request ` {r \<in> set rules. bad_acknowledgement r}
   | Err (DuplicateRule q) \<Rightarrow> q \<in> ru_request ` set rules \<and> \<not> distinct (map rule_key rules)"
proof (cases "authority_context_new ev rules")
  case (Inr ctx)
  note ctx = authority_context_new_Ok [OF Inr]
  have "distinct (map rule_key rules)"
    using ctx(3) by (simp add: strict_sorted_iff ctx(2) distinct_map)
  moreover have "length rules \<le> MAX_AUTHORITY_RULES"
    using Inr by (simp add: authority_context_new_def split: if_splits)
  ultimately show ?thesis using Inr ctx by simp
next
  case (Inl e)
  have dup: "q \<in> ru_request ` set rules \<and> \<not> distinct (map rule_key rules)"
    if "duplicate_pair (sort_key rule_key rules) = Some q" for q
    using duplicate_pair_Some [OF that] by (auto simp: distinct_map)
  show ?thesis using Inl dup
    by (auto simp: authority_context_new_def Let_def find_Some_iff split: if_splits option.splits)
qed

subsection \<open>Witnesses\<close>

definition demo_rules :: "authority_rule list" where
  "demo_rules = [rule_grant \<lparr>rq_effect = ProcessRun, rq_scope = Tool ''git''\<rparr> AcknowledgeUnenforced,
     rule_deny clock_wall]"

definition demo_context :: authority_context where
  "demo_context = \<lparr>ac_evaluation = 1, ac_rules = demo_rules\<rparr>"

lemma demo_context_new: "authority_context_new 1 demo_rules = Ok demo_context"
  by code_simp

theorem verdict_exact_witness:
  "verdict demo_context clock_wall (posix_enforcement True) =
    (case row_for demo_rules clock_wall of
       None \<Rightarrow> Denied
     | Some r \<Rightarrow> (case ru_required r of None \<Rightarrow> Denied
         | Some q \<Rightarrow> agreement (posix_enforcement True (platform_query clock_wall)) q))"
  by (rule verdict_exact [OF demo_context_new])

theorem authority_fails_closed_witness:
  "(\<exists>r \<in> set demo_rules. \<exists>q. rule_key r = request_key \<lparr>rq_effect = ProcessRun, rq_scope = Tool ''git''\<rparr>
      \<and> ru_required r = Some q
      \<and> (posix_enforcement True (platform_query \<lparr>rq_effect = ProcessRun, rq_scope = Tool ''git''\<rparr>) = EnEnforced
        \<or> posix_enforcement True (platform_query \<lparr>rq_effect = ProcessRun, rq_scope = Tool ''git''\<rparr>) = EnUnenforced
          \<and> q = AcknowledgeUnenforced
          \<and> rq_effect \<lparr>rq_effect = ProcessRun, rq_scope = Tool ''git''\<rparr> = ProcessRun))
    \<and> posix_enforcement True \<noteq> default_enforcement"
proof (rule authority_fails_closed [OF demo_context_new])
  show "is_executable (verdict demo_context \<lparr>rq_effect = ProcessRun, rq_scope = Tool ''git''\<rparr> (posix_enforcement True))"
    by code_simp
qed

end
