(* ===== verification/Budget.thy ===== *)
theory Budget
  imports Prelude "HOL-Library.Word"
begin

section \<open>The resource budget of an evaluation\<close>

text \<open>
  The model of \<open>ResourceBudget\<close> of \<^verbatim>\<open>crates/opaal-runtime/src/eval.rs\<close>: the counters an evaluation
  charges, as 64-bit words with the checked additions written out. A charge returns whether it was
  granted, with the budget it leaves. An evaluation charges along its call tree, each entered call
  left again; \<open>None\<close> is the panic of \<open>leave_call\<close>. The lemmas show that no call tree panics or
  exceeds a limit, and that a step budget grants exactly its number of charges.
\<close>

type_synonym u64 = "64 word"

definition checked_add :: "u64 \<Rightarrow> u64 \<Rightarrow> u64 option" where
  "checked_add a b = (if unat a + unat b < 2 ^ 64 then Some (a + b) else None)"

definition saturating_add :: "u64 \<Rightarrow> u64 \<Rightarrow> u64" where
  "saturating_add a b = (case checked_add a b of Some c \<Rightarrow> c | None \<Rightarrow> - 1)"

definition checked_sub :: "u64 \<Rightarrow> u64 \<Rightarrow> u64 option" where
  "checked_sub a b = (if b \<le> a then Some (a - b) else None)"

definition saturating_sub :: "u64 \<Rightarrow> u64 \<Rightarrow> u64" where
  "saturating_sub a b = (case checked_sub a b of Some c \<Rightarrow> c | None \<Rightarrow> 0)"

definition u64_try_from :: "nat \<Rightarrow> u64 option" where
  "u64_try_from n = (if n < 2 ^ 64 then Some (of_nat n) else None)"

lemma checked_add_unat: "checked_add a b = Some c \<longleftrightarrow> unat a + unat b < 2 ^ 64 \<and> unat c = unat a + unat b"
proof -
  have "unat (a + b) = unat a + unat b" if "unat a + unat b < 2 ^ 64"
    using that by (simp add: unat_word_ariths)
  then show ?thesis by (auto simp: checked_add_def word_unat_eq_iff)
qed

lemma saturating_add_unat: "unat (saturating_add a b) = min (unat a + unat b) (2 ^ 64 - 1)"
proof (cases "checked_add a b")
  case None
  then have "unat a + unat b \<ge> 2 ^ 64" by (simp add: checked_add_def split: if_splits)
  moreover have "unat (- 1 :: u64) = 2 ^ 64 - 1" by (simp add: unsigned_minus_1_eq_mask mask_eq_exp_minus_1)
  ultimately show ?thesis using None by (simp add: saturating_add_def)
next
  case (Some c)
  from this checked_add_unat [of a b c] show ?thesis by (simp add: saturating_add_def)
qed

lemma checked_sub_unat: "checked_sub a b = Some c \<longleftrightarrow> unat b \<le> unat a \<and> unat c = unat a - unat b"
  by (auto simp: checked_sub_def word_le_nat_alt unat_sub word_unat_eq_iff)

lemma saturating_sub_unat: "unat (saturating_sub a b) = unat a - unat b"
proof (cases "checked_sub a b")
  case None
  then show ?thesis by (auto simp: saturating_sub_def checked_sub_def word_le_nat_alt split: if_splits)
next
  case (Some c)
  from this checked_sub_unat [of a b c] show ?thesis by (simp add: saturating_sub_def)
qed

lemma u64_try_from_Some: "u64_try_from n = Some w \<longleftrightarrow> unat w = n"
proof -
  have "unat w < 2 ^ 64" using unsigned_less [of w] by simp
  then show ?thesis by (auto simp: u64_try_from_def unsigned_of_nat take_bit_nat_eq_self word_unat_eq_iff)
qed

subsection \<open>The budget\<close>

record resource_budget =
  step_limit :: "u64 option"
  used_steps :: u64
  call_depth_limit :: "u64 option"
  call_depth :: u64
  peak_call_depth :: u64
  collection_item_limit :: "u64 option"
  collection_items :: u64
  collection_byte_limit :: "u64 option"
  collection_bytes :: u64

definition budget_unlimited :: resource_budget where
  "budget_unlimited =
     \<lparr>step_limit = None, used_steps = 0, call_depth_limit = None, call_depth = 0, peak_call_depth = 0,
      collection_item_limit = None, collection_items = 0, collection_byte_limit = None, collection_bytes = 0\<rparr>"

definition budget_steps :: "u64 \<Rightarrow> resource_budget" where
  "budget_steps steps =
     \<lparr>step_limit = Some steps, used_steps = 0, call_depth_limit = None, call_depth = 0, peak_call_depth = 0,
      collection_item_limit = None, collection_items = 0, collection_byte_limit = None, collection_bytes = 0\<rparr>"

definition budget_opaal :: resource_budget where
  "budget_opaal =
     \<lparr>step_limit = Some 1000000, used_steps = 0, call_depth_limit = Some 256, call_depth = 0,
      peak_call_depth = 0, collection_item_limit = Some 1000000, collection_items = 0,
      collection_byte_limit = Some (16 * 1024 * 1024), collection_bytes = 0\<rparr>"

definition with_step_ceiling :: "u64 \<Rightarrow> resource_budget \<Rightarrow> resource_budget" where
  "with_step_ceiling limit b =
     b\<lparr>step_limit := Some (case step_limit b of
         Some existing \<Rightarrow> if existing < limit then existing else limit
       | None \<Rightarrow> limit)\<rparr>"

definition with_call_depth :: "u64 \<Rightarrow> resource_budget \<Rightarrow> resource_budget" where
  "with_call_depth limit b = b\<lparr>call_depth_limit := Some limit\<rparr>"

definition with_collection_items :: "u64 \<Rightarrow> resource_budget \<Rightarrow> resource_budget" where
  "with_collection_items limit b = b\<lparr>collection_item_limit := Some limit\<rparr>"

definition with_collection_bytes :: "u64 \<Rightarrow> resource_budget \<Rightarrow> resource_budget" where
  "with_collection_bytes limit b = b\<lparr>collection_byte_limit := Some limit\<rparr>"

definition charge :: "resource_budget \<Rightarrow> bool \<times> resource_budget" where
  "charge b =
     (case step_limit b of
        Some limit \<Rightarrow>
          if limit \<le> used_steps b then (False, b) else (True, b\<lparr>used_steps := used_steps b + 1\<rparr>)
      | None \<Rightarrow> (True, b))"

definition over :: "u64 option \<Rightarrow> u64 \<Rightarrow> bool" where
  "over lim next = (case lim of None \<Rightarrow> False | Some limit \<Rightarrow> limit < next)"

definition charge_collection_items :: "nat \<Rightarrow> resource_budget \<Rightarrow> bool \<times> resource_budget" where
  "charge_collection_items amount b =
     (case u64_try_from amount of
        None \<Rightarrow> (False, b)
      | Some a \<Rightarrow>
          (case checked_add (collection_items b) a of
             None \<Rightarrow> (False, b)
           | Some next \<Rightarrow>
               if over (collection_item_limit b) next then (False, b)
               else (True, b\<lparr>collection_items := next\<rparr>)))"

definition charge_collection_bytes :: "nat \<Rightarrow> resource_budget \<Rightarrow> bool \<times> resource_budget" where
  "charge_collection_bytes amount b =
     (case u64_try_from amount of
        None \<Rightarrow> (False, b)
      | Some a \<Rightarrow>
          (case checked_add (collection_bytes b) a of
             None \<Rightarrow> (False, b)
           | Some next \<Rightarrow>
               if over (collection_byte_limit b) next then (False, b)
               else (True, b\<lparr>collection_bytes := next\<rparr>)))"

definition enter_call :: "resource_budget \<Rightarrow> bool \<times> resource_budget" where
  "enter_call b =
     (case checked_add (call_depth b) 1 of
        None \<Rightarrow> (False, b)
      | Some next \<Rightarrow>
          if over (call_depth_limit b) next then (False, b)
          else (True, b\<lparr>call_depth := next, peak_call_depth := max (peak_call_depth b) next\<rparr>))"

definition leave_call :: "resource_budget \<Rightarrow> resource_budget option" where
  "leave_call b = map_option (\<lambda>d. b\<lparr>call_depth := d\<rparr>) (checked_sub (call_depth b) 1)"

subsection \<open>Charging along a call tree\<close>

text \<open>
  What an evaluation does with its budget: it charges steps, items and bytes, and brackets the body
  of each call it may enter. A refused charge is an error of the evaluation, which may still leave
  the calls it is in; so a tree that goes on after a refusal covers it.
\<close>

datatype budget_op =
    BCharge
  | BItems nat
  | BBytes nat
  | BCall "budget_op list"

datatype resource = Steps | Items | Bytes

datatype budget_event = EvCharge resource nat bool | EvCall "budget_event list" | EvNoCall

function budget_run :: "budget_op list \<Rightarrow> resource_budget \<Rightarrow> (budget_event list \<times> resource_budget) option" where
  "budget_run [] b = Some ([], b)"
| "budget_run (BCharge # os) b =
     (case charge b of (g, b1) \<Rightarrow> map_option (apfst ((#) (EvCharge Steps 1 g))) (budget_run os b1))"
| "budget_run (BItems n # os) b =
     (case charge_collection_items n b of (g, b1) \<Rightarrow> map_option (apfst ((#) (EvCharge Items n g))) (budget_run os b1))"
| "budget_run (BBytes n # os) b =
     (case charge_collection_bytes n b of (g, b1) \<Rightarrow> map_option (apfst ((#) (EvCharge Bytes n g))) (budget_run os b1))"
| "budget_run (BCall body # os) b =
     (case enter_call b of
        (False, b1) \<Rightarrow> map_option (apfst ((#) EvNoCall)) (budget_run os b1)
      | (True, b1) \<Rightarrow>
          (case budget_run body b1 of
             None \<Rightarrow> None
           | Some (es, b2) \<Rightarrow>
               (case leave_call b2 of
                  None \<Rightarrow> None
                | Some b3 \<Rightarrow> map_option (apfst ((#) (EvCall es))) (budget_run os b3))))"
  by pat_completeness auto
termination
  by (relation "measure (\<lambda>(os, _). size_list size os)") auto

text \<open>What the events of a run say was granted and refused: amounts, the deepest granted call, the depth of each refused one.\<close>

primrec granted_in :: "resource \<Rightarrow> budget_event \<Rightarrow> nat" where
  "granted_in r (EvCharge r' n g) = (if r' = r \<and> g then n else 0)"
| "granted_in r (EvCall es) = sum_list (map (granted_in r) es)"
| "granted_in r EvNoCall = 0"

primrec refused_in :: "resource \<Rightarrow> budget_event \<Rightarrow> nat set" where
  "refused_in r (EvCharge r' n g) = (if r' = r \<and> \<not> g then {n} else {})"
| "refused_in r (EvCall es) = \<Union> (set (map (refused_in r) es))"
| "refused_in r EvNoCall = {}"

primrec nesting_in :: "budget_event \<Rightarrow> nat" where
  "nesting_in (EvCharge r n g) = 0"
| "nesting_in (EvCall es) = Suc (foldr max (map nesting_in es) 0)"
| "nesting_in EvNoCall = 0"

primrec refused_calls_in :: "budget_event \<Rightarrow> nat set" where
  "refused_calls_in (EvCharge r n g) = {}"
| "refused_calls_in (EvCall es) = Suc ` \<Union> (set (map refused_calls_in es))"
| "refused_calls_in EvNoCall = {1}"

abbreviation granted :: "resource \<Rightarrow> budget_event list \<Rightarrow> nat" where
  "granted r es \<equiv> sum_list (map (granted_in r) es)"

abbreviation refused :: "resource \<Rightarrow> budget_event list \<Rightarrow> nat set" where
  "refused r es \<equiv> \<Union> (set (map (refused_in r) es))"

abbreviation nesting :: "budget_event list \<Rightarrow> nat" where
  "nesting es \<equiv> foldr max (map nesting_in es) 0"

abbreviation refused_calls :: "budget_event list \<Rightarrow> nat set" where
  "refused_calls es \<equiv> \<Union> (set (map refused_calls_in es))"

definition within :: "u64 option \<Rightarrow> u64 \<Rightarrow> bool" where
  "within lim n = (case lim of None \<Rightarrow> True | Some limit \<Rightarrow> n \<le> limit)"

definition budget_ok :: "resource_budget \<Rightarrow> bool" where
  "budget_ok b \<longleftrightarrow> within (step_limit b) (used_steps b) \<and> within (call_depth_limit b) (peak_call_depth b)
     \<and> call_depth b \<le> peak_call_depth b
     \<and> within (collection_item_limit b) (collection_items b)
     \<and> within (collection_byte_limit b) (collection_bytes b)"

definition budget_grows :: "resource_budget \<Rightarrow> resource_budget \<Rightarrow> bool" where
  "budget_grows b b' \<longleftrightarrow> step_limit b' = step_limit b \<and> call_depth_limit b' = call_depth_limit b
     \<and> collection_item_limit b' = collection_item_limit b \<and> collection_byte_limit b' = collection_byte_limit b
     \<and> used_steps b \<le> used_steps b' \<and> collection_items b \<le> collection_items b'
     \<and> collection_bytes b \<le> collection_bytes b' \<and> peak_call_depth b \<le> peak_call_depth b'
     \<and> call_depth b' = call_depth b"

definition limit_of :: "u64 option \<Rightarrow> nat" where
  "limit_of l = (case l of None \<Rightarrow> 2 ^ 64 - 1 | Some w \<Rightarrow> unat w)"

fun spent :: "resource \<Rightarrow> resource_budget \<Rightarrow> nat" where
  "spent Steps b = unat (used_steps b)"
| "spent Items b = unat (collection_items b)"
| "spent Bytes b = unat (collection_bytes b)"

fun ceiling_of :: "resource \<Rightarrow> resource_budget \<Rightarrow> u64 option" where
  "ceiling_of Steps b = step_limit b"
| "ceiling_of Items b = collection_item_limit b"
| "ceiling_of Bytes b = collection_byte_limit b"

definition counted :: "resource \<Rightarrow> resource_budget \<Rightarrow> bool" where
  "counted r b \<longleftrightarrow> \<not> (r = Steps \<and> step_limit b = None)"

text \<open>
  What was granted is what the budget shows, and what was refused would have passed its limit.
\<close>

definition account :: "resource \<Rightarrow> resource_budget \<Rightarrow> budget_event list \<Rightarrow> resource_budget \<Rightarrow> bool" where
  "account r b es b' \<longleftrightarrow>
     (if counted r b
      then spent r b' = spent r b + granted r es \<and> spent r b' \<le> limit_of (ceiling_of r b)
        \<and> (\<forall>n \<in> refused r es. limit_of (ceiling_of r b) < spent r b' + n)
      else refused r es = {})"

definition call_account :: "resource_budget \<Rightarrow> budget_event list \<Rightarrow> resource_budget \<Rightarrow> bool" where
  "call_account b es b' \<longleftrightarrow>
     unat (peak_call_depth b') = max (unat (peak_call_depth b)) (unat (call_depth b) + nesting es)
     \<and> unat (peak_call_depth b') \<le> limit_of (call_depth_limit b)
     \<and> (\<forall>n \<in> refused_calls es. limit_of (call_depth_limit b) < unat (call_depth b) + n)"

definition accounts :: "resource_budget \<Rightarrow> budget_event list \<Rightarrow> resource_budget \<Rightarrow> bool" where
  "accounts b es b' \<longleftrightarrow> budget_ok b' \<and> budget_grows b b' \<and> (\<forall>r. account r b es b') \<and> call_account b es b'"

lemma within_simps [simp]: "within None n" "within (Some limit) n \<longleftrightarrow> unat n \<le> unat limit"
  by (simp_all add: within_def word_le_nat_alt)

lemma over_within: "\<not> over lim n \<longleftrightarrow> within lim n"
  by (auto simp: over_def within_def split: option.splits)

lemma grows_refl [simp]: "budget_grows b b"
  by (simp add: budget_grows_def)

lemma grows_trans: "budget_grows a b \<Longrightarrow> budget_grows b c \<Longrightarrow> budget_grows a c"
  by (auto simp: budget_grows_def)

lemma used_steps_Suc: "used_steps b < limit \<Longrightarrow> unat (used_steps b + 1) = Suc (unat (used_steps b))"
proof -
  assume "used_steps b < limit"
  then have "unat (used_steps b) + 1 < 2 ^ 64" 
    using unsigned_less [of limit, where 'a = nat] by (simp add: word_less_nat_alt)
  then show ?thesis using checked_add_unat [of "used_steps b" 1 "used_steps b + 1"] by (simp add: checked_add_def)
qed

lemma charge_step: "budget_ok b \<Longrightarrow> budget_ok (snd (charge b)) \<and> budget_grows b (snd (charge b))"
proof (cases "step_limit b")
  case (Some limit)
  assume "budget_ok b"
  with Some used_steps_Suc [of b limit] show ?thesis
    by (auto simp: charge_def budget_ok_def budget_grows_def word_le_nat_alt word_less_nat_alt)
qed (simp add: charge_def)

lemma items_step:
  "budget_ok b \<Longrightarrow> budget_ok (snd (charge_collection_items n b)) \<and> budget_grows b (snd (charge_collection_items n b))"
  by (auto simp: charge_collection_items_def budget_ok_def budget_grows_def over_within checked_add_unat
      word_le_nat_alt split: option.split)

lemma bytes_step:
  "budget_ok b \<Longrightarrow> budget_ok (snd (charge_collection_bytes n b)) \<and> budget_grows b (snd (charge_collection_bytes n b))"
  by (auto simp: charge_collection_bytes_def budget_ok_def budget_grows_def over_within checked_add_unat
      word_le_nat_alt split: option.split)

lemma enter_step:
  assumes "budget_ok b" "enter_call b = (True, b')"
  shows "budget_ok b' \<and> unat (call_depth b') = Suc (unat (call_depth b))
    \<and> budget_grows b (b'\<lparr>call_depth := call_depth b\<rparr>)"
  using assms
  by (auto simp: enter_call_def budget_ok_def budget_grows_def over_within checked_add_unat max_def
      split: option.splits if_splits)

lemma leave_step:
  assumes "budget_ok b" "unat (call_depth b) = Suc (unat d)"
  shows "leave_call b = Some (b\<lparr>call_depth := d\<rparr>) \<and> budget_ok (b\<lparr>call_depth := d\<rparr>)"
proof -
  have "checked_sub (call_depth b) 1 = Some d" using assms(2) by (simp add: checked_sub_unat)
  then show ?thesis using assms by (auto simp: leave_call_def budget_ok_def word_le_nat_alt)
qed

lemma charge_unlimited: "step_limit b = None \<Longrightarrow> charge b = (True, b)"
  by (simp add: charge_def)

lemma charge_limited:
  assumes "step_limit b = Some n"
  shows "step_limit (snd (charge b)) = Some n" "fst (charge b) \<longleftrightarrow> unat (used_steps b) < unat n"
    "unat (used_steps (snd (charge b))) =
      (if unat (used_steps b) < unat n then Suc (unat (used_steps b)) else unat (used_steps b))"
  using assms used_steps_Suc [of b n] by (auto simp: charge_def word_le_nat_alt word_less_nat_alt)

lemma charge_pow:
  "step_limit (((snd \<circ> charge) ^^ m) (budget_steps n)) = Some n
    \<and> unat (used_steps (((snd \<circ> charge) ^^ m) (budget_steps n))) = min m (unat n)"
proof (induction m)
  case (Suc m)
  then show ?case by (auto simp: charge_limited)
qed (simp add: budget_steps_def)

lemma within_limit: "within l n \<longleftrightarrow> unat n \<le> limit_of l"
  using unsigned_less [of n, where 'a = nat] by (cases l) (simp_all add: limit_of_def)

lemma over_limit: "over l n \<longleftrightarrow> limit_of l < unat n"
  using over_within [of l n] within_limit [of l n] by auto

lemma account_refl: "budget_ok b \<Longrightarrow> account r b [] b"
  by (cases r) (simp_all add: account_def budget_ok_def within_limit)

lemma call_account_refl: "budget_ok b \<Longrightarrow> call_account b [] b"
  by (simp add: call_account_def budget_ok_def within_limit word_le_nat_alt max_def)

lemma limits_grow:
  assumes "budget_grows b b'"
  shows "ceiling_of r b' = ceiling_of r b" "counted r b' = counted r b"
  using assms by (cases r; simp add: counted_def budget_grows_def)+

lemma account_step:
  assumes "account r b [e] b1" "account r b1 es b2" "budget_grows b b1"
  shows "account r b (e # es) b2"
  using assms(1,2) limits_grow [OF assms(3), of r] by (fastforce simp: account_def split: if_splits)

lemma call_account_step:
  assumes "call_account b [e] b1" "call_account b1 es b2" "budget_grows b b1"
  shows "call_account b (e # es) b2"
  using assms by (auto simp: call_account_def budget_grows_def)

lemma accounts_step: "accounts b [e] b1 \<Longrightarrow> accounts b1 es b2 \<Longrightarrow> accounts b (e # es) b2"
  by (auto simp: accounts_def intro: grows_trans account_step call_account_step)

lemma charge_accounts:
  assumes "budget_ok b" "charge b = (g, b1)"
  shows "accounts b [EvCharge Steps 1 g] b1"
proof -
  have "account r b [EvCharge Steps 1 g] b1" for r
  proof (cases "r = Steps")
    case True
    then show ?thesis
      using assms charge_limited [of b] by (cases "step_limit b")
        (auto simp: account_def counted_def limit_of_def charge_unlimited budget_ok_def split: if_splits)
  next
    case False
    then have "account r b [] b" "spent r b1 = spent r b"
      using account_refl [OF assms(1), of r] assms(2) by (cases r; auto simp: charge_def split: option.splits if_splits)+
    with False show ?thesis by (auto simp: account_def)
  qed
  moreover have "call_account b [EvCharge Steps 1 g] b1"
    using call_account_refl [OF assms(1)] assms(2)
    by (auto simp: call_account_def charge_def split: option.splits if_splits)
  ultimately show ?thesis using charge_step [OF assms(1)] assms(2) by (simp add: accounts_def)
qed

lemma limit_of_less: "limit_of l < 2 ^ 64"
  using unsigned_less [of "the l", where 'a = nat] by (cases l) (simp_all add: limit_of_def)

text \<open>Both collection charges add to a counter within its limit or leave the budget as it is.\<close>

lemma collection_charge:
  assumes "(case u64_try_from n of
      None \<Rightarrow> (False, b)
    | Some a \<Rightarrow>
        (case checked_add c a of
           None \<Rightarrow> (False, b)
         | Some next \<Rightarrow> if over l next then (False, b) else (True, f next))) = (g, b1)"
  shows "if g then \<exists>next. unat next = unat c + n \<and> unat next \<le> limit_of l \<and> b1 = f next
    else b1 = b \<and> limit_of l < unat c + n"
proof (cases "u64_try_from n")
  case None
  with assms limit_of_less [of l] show ?thesis by (auto simp: u64_try_from_def split: if_splits)
next
  case (Some a)
  then have a: "unat a = n" by (simp add: u64_try_from_Some)
  show ?thesis
  proof (cases "checked_add c a")
    case None
    with assms Some a limit_of_less [of l] show ?thesis by (auto simp: checked_add_def split: if_splits)
  next
    case (Some nx)
    with assms \<open>u64_try_from n = Some a\<close> a checked_add_unat [of c a nx] show ?thesis
      by (auto simp: over_limit split: if_splits)
  qed
qed

lemma items_accounts:
  assumes "budget_ok b" "charge_collection_items n b = (g, b1)"
  shows "accounts b [EvCharge Items n g] b1"
proof -
  note c = collection_charge [where n = n and b = b and c = "collection_items b" and l = "collection_item_limit b"
    and f = "\<lambda>m. b\<lparr>collection_items := m\<rparr>",
    OF assms(2) [unfolded charge_collection_items_def]]
  have "account r b [EvCharge Items n g] b1" for r
    using c account_refl [OF assms(1), of r] by (cases r) (auto simp: account_def counted_def split: if_splits)
  moreover have "call_account b [EvCharge Items n g] b1"
    using call_account_refl [OF assms(1)] c by (auto simp: call_account_def split: if_splits)
  ultimately show ?thesis using items_step [OF assms(1), of n] assms(2) by (simp add: accounts_def)
qed

lemma bytes_accounts:
  assumes "budget_ok b" "charge_collection_bytes n b = (g, b1)"
  shows "accounts b [EvCharge Bytes n g] b1"
proof -
  note c = collection_charge [where n = n and b = b and c = "collection_bytes b" and l = "collection_byte_limit b"
    and f = "\<lambda>m. b\<lparr>collection_bytes := m\<rparr>",
    OF assms(2) [unfolded charge_collection_bytes_def]]
  have "account r b [EvCharge Bytes n g] b1" for r
    using c account_refl [OF assms(1), of r] by (cases r) (auto simp: account_def counted_def split: if_splits)
  moreover have "call_account b [EvCharge Bytes n g] b1"
    using call_account_refl [OF assms(1)] c by (auto simp: call_account_def split: if_splits)
  ultimately show ?thesis using bytes_step [OF assms(1), of n] assms(2) by (simp add: accounts_def)
qed

lemma refused_call_accounts:
  assumes "budget_ok b" "enter_call b = (False, b1)"
  shows "b1 = b" "accounts b [EvNoCall] b"
proof -
  show b1: "b1 = b" using assms(2) by (auto simp: enter_call_def split: option.splits if_splits)
  have "limit_of (call_depth_limit b) < unat (call_depth b) + 1"
    using assms(2) limit_of_less [of "call_depth_limit b"]
    by (auto simp: enter_call_def over_limit checked_add_unat split: option.splits if_splits)
      (auto simp: checked_add_def split: if_splits)
  with account_refl [OF assms(1)] call_account_refl [OF assms(1)] assms(1) show "accounts b [EvNoCall] b"
    by (auto simp: accounts_def account_def call_account_def)
qed

lemma call_accounts:
  assumes "budget_ok b" "enter_call b = (True, b1)" "accounts b1 es b2"
  shows "\<exists>b3. leave_call b2 = Some b3 \<and> accounts b [EvCall es] b3"
proof -
  note e = enter_step [OF assms(1,2)]
  from assms(3) have b2: "budget_ok b2" "budget_grows b1 b2" by (simp_all add: accounts_def)
  then have d: "unat (call_depth b2) = Suc (unat (call_depth b))" using e by (simp add: budget_grows_def)
  let ?b3 = "b2\<lparr>call_depth := call_depth b\<rparr>"
  have b3: "leave_call b2 = Some ?b3" "budget_ok ?b3" using leave_step [OF b2(1) d] by auto
  have g: "budget_grows b ?b3" using e b2(2) by (auto simp: budget_grows_def)
  have b1: "peak_call_depth b1 = max (peak_call_depth b) (call_depth b1)" "spent r b1 = spent r b"
    "ceiling_of r b1 = ceiling_of r b" "counted r b1 = counted r b" "call_depth_limit b1 = call_depth_limit b" for r
    using assms(2) by (cases r; auto simp: enter_call_def counted_def split: option.splits if_splits)+
  have "account r b [EvCall es] ?b3" for r
  proof -
    from assms(3) have "account r b1 es b2" by (simp add: accounts_def)
    moreover have "spent r ?b3 = spent r b2" by (cases r) simp_all
    ultimately show ?thesis using b1(2-4) [of r] by (auto simp: account_def split: if_splits)
  qed
  moreover have "call_account b [EvCall es] ?b3"
    using assms(3) b1(1,5) e by (auto simp: accounts_def call_account_def max_def word_le_nat_alt split: if_splits)
  ultimately show ?thesis using b3 g by (simp add: accounts_def)
qed

lemma budget_run_accounts: "budget_ok b \<Longrightarrow> \<exists>es b'. budget_run os b = Some (es, b') \<and> accounts b es b'"
proof (induction os b rule: budget_run.induct)
  case (1 b)
  then show ?case by (simp add: accounts_def account_refl call_account_refl)
next
  case (2 os b)
  obtain g b1 where c: "charge b = (g, b1)" by fastforce
  note a = charge_accounts [OF 2(2) c]
  with 2(1) [OF c [symmetric]] obtain es b' where "budget_run os b1 = Some (es, b')" "accounts b1 es b'"
    by (auto simp: accounts_def)
  with c accounts_step [OF a] show ?case by simp
next
  case (3 n os b)
  obtain g b1 where c: "charge_collection_items n b = (g, b1)" by fastforce
  note a = items_accounts [OF 3(2) c]
  with 3(1) [OF c [symmetric]] obtain es b' where "budget_run os b1 = Some (es, b')" "accounts b1 es b'"
    by (auto simp: accounts_def)
  with c accounts_step [OF a] show ?case by simp
next
  case (4 n os b)
  obtain g b1 where c: "charge_collection_bytes n b = (g, b1)" by fastforce
  note a = bytes_accounts [OF 4(2) c]
  with 4(1) [OF c [symmetric]] obtain es b' where "budget_run os b1 = Some (es, b')" "accounts b1 es b'"
    by (auto simp: accounts_def)
  with c accounts_step [OF a] show ?case by simp
next
  case (5 body os b)
  obtain r b1 where e: "enter_call b = (r, b1)" by fastforce
  show ?case
  proof (cases r)
    case False
    from e False have "enter_call b = (False, b1)" by simp
    note c = refused_call_accounts [OF 5(4) this]
    from 5(3) [OF e [symmetric]] False 5(4) c obtain es b' where "budget_run os b = Some (es, b')" "accounts b es b'"
      by auto
    with e False c(1) accounts_step [OF c(2)] show ?thesis by simp
  next
    case True
    with enter_step [OF 5(4)] e have "budget_ok b1" by simp
    from 5(1) [OF e [symmetric] _ this] True obtain es b2 where b2: "budget_run body b1 = Some (es, b2)" "accounts b1 es b2"
      by auto
    from call_accounts [OF 5(4) _ b2(2)] e True obtain b3 where b3: "leave_call b2 = Some b3" "accounts b [EvCall es] b3"
      by auto
    then have "budget_ok b3" by (simp add: accounts_def)
    from 5(2) [OF e [symmetric] _ b2(1) _ b3(1) this] True obtain es' b' where
      "budget_run os b3 = Some (es', b')" "accounts b3 es' b'" by auto
    with e True b2(1) b3(1) accounts_step [OF b3(2)] show ?thesis by simp
  qed
qed

subsection \<open>Properties\<close>

text \<open>
  C10: No evaluation outruns its budget. From a budget within its limits, whatever tree of calls and charges an
  evaluation makes, no call panics and the call depth is back where it was. The events of the run say what was
  granted and refused: the granted steps, items and bytes are exactly what the counters gained and stay within
  the limits, the deepest granted call is what the peak shows and stays within the depth limit, and a charge or
  a call is refused only when granting it would have passed its limit.
\<close>

theorem budget_never_exceeded:
  assumes "budget_ok b"
  shows "\<exists>es b'. budget_run os b = Some (es, b') \<and> accounts b es b'"
  by (rule budget_run_accounts [OF assms])

text \<open>
  A budget of \<open>n\<close> steps grants exactly \<open>n\<close> charges: after \<open>m\<close> attempts the next one is granted
  exactly when \<open>m < n\<close>, and the counter shows the charges granted.
\<close>

theorem step_budget_exact:
  "(fst (charge (((snd \<circ> charge) ^^ m) (budget_steps n))) \<longleftrightarrow> m < unat n)
    \<and> unat (used_steps (((snd \<circ> charge) ^^ m) (budget_steps n))) = min m (unat n)"
  using charge_pow [of m n] by (auto simp: charge_limited)

theorem budget_never_exceeded_witness:
  "\<exists>es b'. budget_run [BCharge, BCall [BItems 3, BBytes 20, BCall []], BItems 2000000] budget_opaal = Some (es, b')
    \<and> accounts budget_opaal es b'"
  by (rule budget_never_exceeded) (simp add: budget_ok_def budget_opaal_def)

end
