(* ===== verification/Security.thy ===== *)
theory Security
  imports Btree "HOL-Library.Product_Lexorder"
begin

section \<open>Secrets and their redaction\<close>

text \<open>
  The model of \<^verbatim>\<open>crates/opaal-runtime/src/security.rs\<close>: secrets, the store of one evaluation, and the
  redactor every diagnostic passes through. \<open>serde_json::to_vec\<close> is the parameter \<open>to_vec\<close>; what the
  code relies on of it is the locale \<open>json_serializer\<close>. \<open>None\<close> is a panic, or a loop that does not
  end: the replacement loop advances by the length of a needle and \<open>windows(0)\<close> panics, so the
  lemmas show that no empty needle is ever stored. Clearing a buffer before it is freed has no
  effect the model can see and is left out.
\<close>

unbundle bit_operations_syntax

subsection \<open>Data\<close>

definition REDACTED :: string where
  "REDACTED = ''[redacted]''"

definition MAX_SECRETS :: nat where
  "MAX_SECRETS = 8"

definition MAX_SECRET_BYTES :: nat where
  "MAX_SECRET_BYTES = 64 * 1024"

datatype secret_error =
    EmptyId
  | EmptyPayload
  | PayloadTooLarge nat nat
  | TooManySecrets nat
  | DuplicateId string

record secret =
  sc_id :: string
  sc_payload :: string

record secret_store =
  ss_secrets :: "(string \<times> secret) list"
  ss_seen_ids :: "(string \<times> unit) list"
  ss_needles :: "string list"

definition secret_id_new :: "string \<Rightarrow> (string, secret_error) result" where
  "secret_id_new v = (if v = [] then Err EmptyId else Ok v)"

definition secret_new :: "string \<Rightarrow> string \<Rightarrow> (secret, secret_error) result" where
  "secret_new i payload =
     (if payload = [] then Err EmptyPayload
      else if MAX_SECRET_BYTES < length payload then Err (PayloadTooLarge (length payload) MAX_SECRET_BYTES)
      else Ok \<lparr>sc_id = i, sc_payload = payload\<rparr>)"

definition secret_error_display :: "(string \<Rightarrow> string) \<Rightarrow> secret_error \<Rightarrow> string" where
  "secret_error_display debug e =
     (case e of
        EmptyId \<Rightarrow> ''a secret identity cannot be empty''
      | EmptyPayload \<Rightarrow> ''a secret payload cannot be empty''
      | PayloadTooLarge sz mx \<Rightarrow>
          ''secret payload has '' @ show_nat sz @ '' bytes; maximum is '' @ show_nat mx
      | TooManySecrets mx \<Rightarrow> ''an evaluation can contain at most '' @ show_nat mx @ '' secrets''
      | DuplicateId i \<Rightarrow> ''duplicate secret identity '' @ debug i)"

subsection \<open>Encodings of a payload\<close>

definition encode_hex :: "string \<Rightarrow> string" where
  "encode_hex bytes =
     concat (map (\<lambda>b. [''0123456789abcdef'' ! drop_bit 4 (u8 b), ''0123456789abcdef'' ! (u8 b AND 0x0F)]) bytes)"

definition base64_alphabet :: "bool \<Rightarrow> string" where
  "base64_alphabet url_safe =
     (if url_safe then ''ABCDEFGHIJKLMNOPQRSTUVWXYZabcdefghijklmnopqrstuvwxyz0123456789-_''
      else ''ABCDEFGHIJKLMNOPQRSTUVWXYZabcdefghijklmnopqrstuvwxyz0123456789+/'')"

fun chunks3 :: "'a list \<Rightarrow> 'a list list" where
  "chunks3 [] = []"
| "chunks3 (x # xs) = take 3 (x # xs) # chunks3 (drop 2 xs)"

definition base64_chunk :: "bool \<Rightarrow> string \<Rightarrow> string" where
  "base64_chunk url_safe chunk =
     (let alphabet = base64_alphabet url_safe;
          first = u8 (chunk ! 0);
          second = (case get_opt chunk 1 of Some b \<Rightarrow> u8 b | None \<Rightarrow> 0);
          third = (case get_opt chunk 2 of Some b \<Rightarrow> u8 b | None \<Rightarrow> 0)
      in [alphabet ! drop_bit 2 first, alphabet ! (push_bit 4 (first AND 0x03) OR drop_bit 4 second)]
         @ (if 1 < length chunk then [alphabet ! (push_bit 2 (second AND 0x0F) OR drop_bit 6 third)]
            else if \<not> url_safe then ''='' else [])
         @ (if 2 < length chunk then [alphabet ! (third AND 0x3F)]
            else if \<not> url_safe then ''='' else []))"

definition encode_base64 :: "string \<Rightarrow> bool \<Rightarrow> string" where
  "encode_base64 bytes url_safe = concat (map (base64_chunk url_safe) (chunks3 bytes))"

definition encode_percent :: "string \<Rightarrow> string" where
  "encode_percent bytes =
     concat (map (\<lambda>b. [CHR ''%'', ''0123456789ABCDEF'' ! drop_bit 4 (u8 b), ''0123456789ABCDEF'' ! (u8 b AND 0x0F)])
       bytes)"

definition ascii_uppercase :: "byte \<Rightarrow> byte" where
  "ascii_uppercase b = (if 97 \<le> u8 b \<and> u8 b \<le> 122 then char_of (u8 b - 32) else b)"

definition ascii_lowercase :: "byte \<Rightarrow> byte" where
  "ascii_lowercase b = (if 65 \<le> u8 b \<and> u8 b \<le> 90 then char_of (u8 b + 32) else b)"

definition strip_padding :: "string \<Rightarrow> string" where
  "strip_padding s = rev (dropWhile (\<lambda>b. b = CHR ''='') (rev s))"

definition needle_variants :: "(string \<Rightarrow> string option) \<Rightarrow> string \<Rightarrow> string list option" where
  "needle_variants to_vec payload =
     (let hex = encode_hex payload;
          standard_base64 = encode_base64 payload False;
          url_base64 = encode_base64 payload True;
          percent = encode_percent payload;
          variants =
            [payload, hex, map ascii_uppercase hex, standard_base64, strip_padding standard_base64,
             url_base64, url_base64 @ replicate ((4 - length url_base64 mod 4) mod 4) CHR ''='',
             percent, map ascii_lowercase percent]
      in if valid_utf8 payload
         then (case to_vec payload of
             None \<Rightarrow> None
           | Some quoted \<Rightarrow>
               if 2 \<le> length quoted then Some (variants @ [take (length quoted - 2) (drop 1 quoted)]) else None)
         else Some variants)"

subsection \<open>The redactor\<close>

definition starts_with_slice :: "string \<Rightarrow> string \<Rightarrow> bool" where
  "starts_with_slice s n \<longleftrightarrow> take (length n) s = n"

definition sort_longest_first :: "string list \<Rightarrow> string list" where
  "sort_longest_first = sort_key (\<lambda>n. (- int (length n), n))"

function replace_loop :: "string list \<Rightarrow> string \<Rightarrow> nat \<Rightarrow> string \<Rightarrow> string option" where
  "replace_loop needles input offset output =
     (if offset < length input
      then (let matching_needle = find (starts_with_slice (drop offset input)) needles
            in if starts_with_slice (drop offset input) REDACTED
                  \<and> (case matching_needle of None \<Rightarrow> True | Some n \<Rightarrow> length n \<le> length REDACTED)
               then replace_loop needles input (offset + length REDACTED) (output @ REDACTED)
               else (case matching_needle of
                   Some n \<Rightarrow>
                     if n = [] then None
                     else replace_loop needles input (offset + length n) (output @ REDACTED)
                 | None \<Rightarrow> replace_loop needles input (offset + 1) (output @ [input ! offset])))
      else Some output)"
  by pat_completeness auto
termination
  by (relation "measure (\<lambda>(_, input, offset, _). length input - offset)") (auto simp: REDACTED_def intro!: diff_less_mono2)

declare replace_loop.simps [simp del]

definition contained_in_replacement :: "string \<Rightarrow> nat \<Rightarrow> nat \<Rightarrow> bool" where
  "contained_in_replacement input start fin =
     (let earliest = start - (length REDACTED - 1);
          latest = min start (length input - length REDACTED)
      in list_ex (\<lambda>marker_start.
           starts_with_slice (drop marker_start input) REDACTED \<and> fin \<le> marker_start + length REDACTED)
           [earliest..<Suc latest])"

fun contains_unredacted_needle :: "string \<Rightarrow> string list \<Rightarrow> bool option" where
  "contains_unredacted_needle input [] = Some False"
| "contains_unredacted_needle input (n # needles) =
     (if n = [] then None
      else if list_ex (\<lambda>start. take (length n) (drop start input) = n
             \<and> \<not> contained_in_replacement input start (start + length n))
             [0..<Suc (length input) - length n]
      then Some True
      else contains_unredacted_needle input needles)"

definition replace_needles :: "string \<Rightarrow> string list \<Rightarrow> string option" where
  "replace_needles input needles =
     (case replace_loop needles input 0 [] of
        None \<Rightarrow> None
      | Some output \<Rightarrow>
          (case contains_unredacted_needle output needles of
             None \<Rightarrow> None
           | Some True \<Rightarrow> Some REDACTED
           | Some False \<Rightarrow> Some output))"

subsection \<open>The store\<close>

definition store_new :: secret_store where
  "store_new = \<lparr>ss_secrets = [], ss_seen_ids = [], ss_needles = []\<rparr>"

definition store_insert ::
  "(string \<Rightarrow> string option) \<Rightarrow> secret \<Rightarrow> secret_store \<Rightarrow> ((unit, secret_error) result \<times> secret_store) option" where
  "store_insert to_vec s st =
     (if bt_get (ss_seen_ids st) (sc_id s) \<noteq> None then Some (Err (DuplicateId (sc_id s)), st)
      else if length (ss_seen_ids st) = MAX_SECRETS then Some (Err (TooManySecrets MAX_SECRETS), st)
      else (case needle_variants to_vec (sc_payload s) of
          None \<Rightarrow> None
        | Some ns \<Rightarrow>
            Some (Ok (), st\<lparr>ss_needles := sort_longest_first (ss_needles st @ ns),
              ss_seen_ids := bt_insert (sc_id s) () (ss_seen_ids st),
              ss_secrets := bt_insert (sc_id s) s (ss_secrets st)\<rparr>)))"

definition store_contains :: "secret_store \<Rightarrow> string \<Rightarrow> bool" where
  "store_contains st i \<longleftrightarrow> bt_get (ss_secrets st) i \<noteq> None"

definition store_ids :: "secret_store \<Rightarrow> string list" where
  "store_ids st = map fst (ss_secrets st)"

definition consume_with ::
  "string \<Rightarrow> (string \<Rightarrow> ('t, 'e) result) \<Rightarrow> secret_store \<Rightarrow> ('t option, 'e) result \<times> secret_store" where
  "consume_with i sink st =
     (case bt_get (ss_secrets st) i of
        None \<Rightarrow> (Ok None, st)
      | Some s \<Rightarrow>
          (case sink (sc_payload s) of Ok t \<Rightarrow> Ok (Some t) | Err e \<Rightarrow> Err e,
           st\<lparr>ss_secrets := bt_remove i (ss_secrets st)\<rparr>))"

definition redact_bytes :: "secret_store \<Rightarrow> string \<Rightarrow> string option" where
  "redact_bytes st input = replace_needles input (ss_needles st)"

definition redact_text :: "secret_store \<Rightarrow> string \<Rightarrow> string option" where
  "redact_text st input =
     (let needles = sort_longest_first (filter valid_utf8 (ss_needles st))
      in case replace_needles input needles of
           None \<Rightarrow> None
         | Some out \<Rightarrow> if valid_utf8 out then Some out else None)"

definition store_add ::
  "(string \<Rightarrow> string option) \<Rightarrow> string \<Rightarrow> string \<Rightarrow> secret_store
     \<Rightarrow> ((unit, secret_error) result \<times> secret_store) option" where
  "store_add to_vec i payload st =
     (case secret_id_new i of
        Err e \<Rightarrow> Some (Err e, st)
      | Ok i' \<Rightarrow>
          (case secret_new i' payload of
             Err e \<Rightarrow> Some (Err e, st)
           | Ok s \<Rightarrow> store_insert to_vec s st))"

datatype store_op = OpAdd string string | OpConsume string

definition store_exec :: "(string \<Rightarrow> string option) \<Rightarrow> store_op \<Rightarrow> secret_store \<Rightarrow> secret_store option" where
  "store_exec to_vec a st =
     (case a of
        OpAdd i payload \<Rightarrow> map_option snd (store_add to_vec i payload st)
      | OpConsume i \<Rightarrow> Some (snd (consume_with i (Ok :: string \<Rightarrow> (string, unit) result) st)))"

section \<open>Correctness of the redactor\<close>

definition occurs_at :: "string \<Rightarrow> string \<Rightarrow> nat \<Rightarrow> bool" where
  "occurs_at n s k \<longleftrightarrow> take (length n) (drop k s) = n"

definition marked :: "string \<Rightarrow> nat \<Rightarrow> nat \<Rightarrow> bool" where
  "marked s i j \<longleftrightarrow> (\<exists>m \<le> i. occurs_at REDACTED s m \<and> j \<le> m + length REDACTED)"

lemma occurs_at_bound: "occurs_at n s k \<Longrightarrow> n \<noteq> [] \<Longrightarrow> k + length n \<le> length s"
  unfolding occurs_at_def using length_take [of "length n" "drop k s"]
  by (cases "k < length s") (auto simp: min_def split: if_splits)

lemma starts_with_occurs: "starts_with_slice (drop k s) n \<longleftrightarrow> occurs_at n s k"
  by (simp add: starts_with_slice_def occurs_at_def)

lemma contained_marked: "contained_in_replacement s i j \<Longrightarrow> marked s i j"
  unfolding marked_def contained_in_replacement_def Let_def list_ex_iff starts_with_occurs
  by (metis atLeastLessThan_iff less_Suc_eq_le min.boundedE set_upt)

lemma replace_loop_returns: "[] \<notin> set needles \<Longrightarrow> \<exists>out. replace_loop needles input k acc = Some out"
proof (induction needles input k acc rule: replace_loop.induct)
  case (1 needles input k acc)
  show ?case
  proof (cases "find (starts_with_slice (drop k input)) needles")
    case None
    with 1 show ?thesis by (subst replace_loop.simps) (simp add: Let_def)
  next
    case (Some n)
    then have "n \<noteq> []" using 1(4) by (metis find_Some_iff nth_mem)
    with Some 1 show ?thesis by (subst replace_loop.simps) (simp add: Let_def)
  qed
qed

lemma contains_unredacted_returns:
  assumes "[] \<notin> set needles"
  shows "contains_unredacted_needle s needles =
    Some (\<exists>n \<in> set needles. \<exists>k < Suc (length s) - length n.
      occurs_at n s k \<and> \<not> contained_in_replacement s k (k + length n))"
  using assms by (induction needles) (auto simp: list_ex_iff occurs_at_def)

lemma replace_needles_returns:
  assumes "[] \<notin> set needles"
  shows "\<exists>out. replace_needles input needles = Some out"
  using replace_loop_returns [OF assms, of input 0 "[]"]
  by (auto simp: replace_needles_def contains_unredacted_returns [OF assms] split: bool.split)

lemma replace_needles_hides:
  assumes ne: "[] \<notin> set needles" and r: "replace_needles input needles = Some out"
    and n: "n \<in> set needles" and o: "occurs_at n out k"
  shows "marked out k (k + length n)"
proof -
  have "n \<noteq> []" using ne n by auto
  with o have b: "k + length n \<le> length out" by (rule occurs_at_bound)
  from r consider "out = REDACTED" | "contains_unredacted_needle out needles = Some False"
    by (auto simp: replace_needles_def split: option.splits bool.splits)
  then show ?thesis
  proof cases
    case 1
    with b show ?thesis unfolding marked_def by (intro exI [of _ 0]) (simp add: occurs_at_def)
  next
    case 2
    with n o b have "contained_in_replacement out k (k + length n)"
      by (auto simp: contains_unredacted_returns [OF ne])
    then show ?thesis by (rule contained_marked)
  qed
qed

lemma replace_loop_clean:
  assumes "\<And>n j. n \<in> set needles \<Longrightarrow> \<not> occurs_at n input j" "k \<le> length input"
  shows "replace_loop needles input k acc = Some (acc @ drop k input)"
  using assms
proof (induction needles input k acc rule: replace_loop.induct)
  case (1 needles input k acc)
  have f: "find (starts_with_slice (drop k input)) needles = None"
    using 1(4) by (auto simp: find_None_iff starts_with_occurs)
  show ?case
  proof (cases "k < length input")
    case True
    have "k + length REDACTED \<le> length input
      \<and> REDACTED @ drop (k + length REDACTED) input = drop k input" if "occurs_at REDACTED input k"
    proof
      show "k + length REDACTED \<le> length input" using that by (rule occurs_at_bound) (simp add: REDACTED_def)
      show "REDACTED @ drop (k + length REDACTED) input = drop k input"
        using that append_take_drop_id [of "length REDACTED" "drop k input"]
        by (simp add: occurs_at_def add.commute)
    qed
    moreover have "input ! k # drop (Suc k) input = drop k input" using True by (rule Cons_nth_drop_Suc)
    ultimately show ?thesis
      using 1(1) [OF True refl] 1(2) [OF True refl _ f] 1(4,5) True f
      by (subst replace_loop.simps) (auto simp: starts_with_occurs)
  next
    case False
    with 1(5) show ?thesis by (simp add: replace_loop.simps)
  qed
qed

lemma replace_needles_clean:
  assumes "[] \<notin> set needles" "\<And>n j. n \<in> set needles \<Longrightarrow> \<not> occurs_at n input j"
  shows "replace_needles input needles = Some input"
  using assms replace_loop_clean [OF assms(2), of needles 0 "[]"]
  by (auto simp: replace_needles_def contains_unredacted_returns)

subsection \<open>Redacted text stays text\<close>

lemma valid_utf8_cancel: "valid_utf8 n \<Longrightarrow> valid_utf8 (n @ c) \<longleftrightarrow> valid_utf8 c"
proof (induction rule: valid_utf8_induct)
  case (Scalar s cp w)
  from str_next_ScalarD(4) [OF Scalar.hyps(1)] have "drop w (s @ c) = drop w s @ c" by simp
  with Scalar valid_utf8_step [OF str_next_append [OF Scalar.hyps(1), of c]] show ?case by simp
qed simp

lemma valid_utf8_around:
  assumes v: "valid_utf8 (a @ n @ c)" and n: "valid_utf8 n" "n \<noteq> []"
  shows "valid_utf8 a \<and> valid_utf8 c"
proof -
  from n obtain cp w where "str_next n = Utf8_Scalar cp w" by (rule valid_utf8_next)
  from str_next_ScalarD(5) [OF this] n(2) have b: "is_char_boundary (a @ n @ c) (length a)"
    by (cases n) (simp_all add: is_char_boundary_def nth_append)
  from valid_utf8_prefix [OF v b] have "valid_utf8 a" by simp
  moreover from valid_drop_boundary [OF v b] have "valid_utf8 (n @ c)" by simp
  ultimately show ?thesis using n by (simp add: valid_utf8_cancel)
qed

lemma valid_REDACTED: "valid_utf8 REDACTED"
  using valid_utf8_ascii [of REDACTED] by (simp add: REDACTED_def)

lemma replace_loop_text:
  assumes "replace_loop needles input k acc = Some out" "\<And>n. n \<in> set needles \<Longrightarrow> valid_utf8 n"
    and "valid_utf8 (acc @ drop k input)"
  shows "valid_utf8 out"
  using assms
proof (induction needles input k acc rule: replace_loop.induct)
  case (1 needles input k acc)
  let ?f = "find (starts_with_slice (drop k input)) needles"
  have split: "drop k input = n @ drop (k + length n) input" if "occurs_at n input k" for n
    using that append_take_drop_id [of "length n" "drop k input"] by (simp add: occurs_at_def add.commute)
  have swap: "valid_utf8 ((acc @ REDACTED) @ drop (k + length n) input)"
    if "occurs_at n input k" "valid_utf8 n" "n \<noteq> []" for n
    using valid_utf8_around [of acc n "drop (k + length n) input"] 1(6) split [OF that(1)] that valid_REDACTED
    by auto
  show ?case
  proof (cases "k < length input")
    case True
    consider
        (mark) "occurs_at REDACTED input k" "case ?f of None \<Rightarrow> True | Some n \<Rightarrow> length n \<le> length REDACTED"
      | (needle) n where "\<not> (occurs_at REDACTED input k
          \<and> (case ?f of None \<Rightarrow> True | Some n \<Rightarrow> length n \<le> length REDACTED))" "?f = Some n"
      | (push) "\<not> occurs_at REDACTED input k" "?f = None"
      by (cases ?f) auto
    then show ?thesis
    proof cases
      case mark
      have "valid_utf8 ((acc @ REDACTED) @ drop (k + length REDACTED) input)"
        using swap [OF mark(1) valid_REDACTED] by (simp add: REDACTED_def)
      with 1(1) [OF True refl] 1(4,5) mark True show ?thesis
        by (subst (asm) replace_loop.simps) (simp add: starts_with_occurs)
    next
      case needle
      then have n: "n \<in> set needles" "occurs_at n input k"
        by (auto simp: find_Some_iff starts_with_occurs in_set_conv_nth)
      from 1(4) needle True have ne: "n \<noteq> []"
        by (subst (asm) replace_loop.simps) (auto simp: starts_with_occurs split: if_splits)
      from swap [OF n(2) 1(5) [OF n(1)] ne] 1(3) [OF True refl _ needle(2) ne] 1(4,5) needle True ne
      show ?thesis by (subst (asm) replace_loop.simps) (auto simp: starts_with_occurs split: if_splits)
    next
      case push
      have "valid_utf8 ((acc @ [input ! k]) @ drop (k + 1) input)"
        using 1(6) Cons_nth_drop_Suc [OF True] by simp
      with 1(2) [OF True refl _ push(2)] 1(4,5) push True show ?thesis
        by (subst (asm) replace_loop.simps) (simp add: starts_with_occurs)
    qed
  next
    case False
    with 1(4,6) show ?thesis by (simp add: replace_loop.simps)
  qed
qed

lemma replace_needles_text:
  assumes "replace_needles input needles = Some out" "\<And>n. n \<in> set needles \<Longrightarrow> valid_utf8 n" "valid_utf8 input"
  shows "valid_utf8 out"
  using assms replace_loop_text [of needles input 0 "[]"] valid_REDACTED
  by (auto simp: replace_needles_def split: option.splits bool.splits)

section \<open>Correctness of the store\<close>

definition store_ok :: "secret_store \<Rightarrow> bool" where
  "store_ok st \<longleftrightarrow> bt_sorted (ss_secrets st) \<and> bt_sorted (ss_seen_ids st)
     \<and> length (ss_seen_ids st) \<le> MAX_SECRETS
     \<and> fst ` set (ss_secrets st) \<subseteq> fst ` set (ss_seen_ids st)
     \<and> [] \<notin> set (ss_needles st)"

definition store_before :: "secret_store \<Rightarrow> secret_store \<Rightarrow> bool" where
  "store_before s t \<longleftrightarrow> set (ss_needles s) \<subseteq> set (ss_needles t)
     \<and> fst ` set (ss_seen_ids s) \<subseteq> fst ` set (ss_seen_ids t)
     \<and> (\<forall>i \<in> fst ` set (ss_seen_ids s).
          bt_get (ss_secrets t) i = bt_get (ss_secrets s) i \<or> bt_get (ss_secrets t) i = None)"

lemma store_new_ok: "store_ok store_new"
  by (simp add: store_ok_def store_new_def)

lemma set_sort_longest_first [simp]: "set (sort_longest_first ns) = set ns"
  by (simp add: sort_longest_first_def)

lemma base64_digit: "k < 64 \<Longrightarrow> base64_alphabet u ! k \<noteq> CHR ''=''"
proof
  assume k: "k < 64" and e: "base64_alphabet u ! k = CHR ''=''"
  have "length (base64_alphabet u) = 64" by (simp add: base64_alphabet_def)
  with k e have "CHR ''='' \<in> set (base64_alphabet u)" by (metis nth_mem)
  then show False by (simp add: base64_alphabet_def split: if_splits)
qed

lemma encode_base64_hd:
  assumes "p \<noteq> []"
  obtains c s where "encode_base64 p u = c # s" "c \<noteq> CHR ''=''"
proof -
  obtain x xs where p: "p = x # xs" using assms by (cases p) auto
  have "drop_bit 2 (u8 x) < 64" using u8_less [of x] by (simp add: drop_bit_eq_div less_mult_imp_div_less)
  then have "base64_alphabet u ! drop_bit 2 (u8 x) \<noteq> CHR ''=''" by (rule base64_digit)
  with p that show thesis by (simp add: encode_base64_def base64_chunk_def Let_def)
qed

lemma strip_padding_Cons: "c \<noteq> CHR ''='' \<Longrightarrow> strip_padding (c # s) \<noteq> []"
  by (simp add: strip_padding_def dropWhile_append)

text \<open>What the code relies on of \<open>serde_json::to_vec\<close>: text serializes, between two quotes.\<close>

locale json_serializer =
  fixes to_vec :: "string \<Rightarrow> string option"
  assumes quotes: "valid_utf8 t \<Longrightarrow>
    \<exists>body. to_vec t = Some (CHR 0x22 # body @ [CHR 0x22]) \<and> (t \<noteq> [] \<longrightarrow> body \<noteq> [])"
begin

lemma variants:
  assumes "payload \<noteq> []"
  shows "\<exists>ns. needle_variants to_vec payload = Some ns \<and> payload \<in> set ns \<and> [] \<notin> set ns"
proof -
  obtain c s where b: "encode_base64 payload False = c # s" "c \<noteq> CHR ''=''"
    using encode_base64_hd [OF assms] .
  obtain d t where u: "encode_base64 payload True = d # t" using encode_base64_hd [OF assms] .
  have h: "encode_hex payload \<noteq> []" "encode_percent payload \<noteq> []"
    using assms by (cases payload; simp add: encode_hex_def encode_percent_def)+
  show ?thesis
  proof (cases "valid_utf8 payload")
    case True
    from quotes [OF this] assms obtain body where "to_vec payload = Some (CHR 0x22 # body @ [CHR 0x22])" "body \<noteq> []"
      by blast
    with True b u h assms strip_padding_Cons [OF b(2), of s] show ?thesis
      by (auto simp: needle_variants_def Let_def)
  next
    case False
    with b u h assms strip_padding_Cons [OF b(2), of s] show ?thesis
      by (auto simp: needle_variants_def Let_def)
  qed
qed

lemma insert_step:
  assumes ok: "store_ok st" and p: "sc_payload s \<noteq> []"
  shows "\<exists>r st'. store_insert to_vec s st = Some (r, st') \<and> store_ok st' \<and> store_before st st'
    \<and> (r = Ok () \<longrightarrow> (\<exists>ns. needle_variants to_vec (sc_payload s) = Some ns \<and> sc_payload s \<in> set ns
          \<and> set ns \<subseteq> set (ss_needles st')))"
proof -
  obtain ns where ns: "needle_variants to_vec (sc_payload s) = Some ns" "sc_payload s \<in> set ns" "[] \<notin> set ns"
    using variants [OF p] by blast
  have new: "length (bt_insert (sc_id s) () (ss_seen_ids st)) \<le> MAX_SECRETS"
    if "length (ss_seen_ids st) \<noteq> MAX_SECRETS"
    using ok that by (simp add: store_ok_def length_bt_insert)
  show ?thesis
    using ok ns new bt_get_None [of "ss_seen_ids st" "sc_id s"]
    by (auto simp: store_insert_def store_ok_def store_before_def bt_sorted_insert set_bt_insert
        bt.lookup_insert image_iff)
qed

lemma add_step:
  assumes "store_ok st"
  shows "\<exists>r st'. store_add to_vec i p st = Some (r, st') \<and> store_ok st' \<and> store_before st st'
    \<and> (r = Ok () \<longrightarrow> (\<exists>ns. needle_variants to_vec p = Some ns \<and> p \<in> set ns \<and> set ns \<subseteq> set (ss_needles st')))"
proof (cases "i = [] \<or> p = [] \<or> MAX_SECRET_BYTES < length p")
  case True
  then show ?thesis using assms by (auto simp: store_add_def secret_id_new_def secret_new_def store_before_def)
next
  case False
  then show ?thesis using insert_step [OF assms, of "\<lparr>sc_id = i, sc_payload = p\<rparr>"]
    by (simp add: store_add_def secret_id_new_def secret_new_def)
qed

end

lemma consume_step: "store_ok st \<Longrightarrow> store_ok (snd (consume_with i k st)) \<and> store_before st (snd (consume_with i k st))"
  using set_bt_remove [of i "ss_secrets st"]
  by (auto simp: consume_with_def store_ok_def store_before_def bt_sorted_remove bt_get_remove
      split: option.splits)

lemma store_before_get:
  "store_before s t \<Longrightarrow> i \<in> fst ` set (ss_seen_ids s) \<Longrightarrow>
     bt_get (ss_secrets t) i = None \<or> bt_get (ss_secrets t) i = bt_get (ss_secrets s) i"
  unfolding store_before_def by (drule conjunct2, drule conjunct2, drule (1) bspec, rule disj_commute [THEN iffD1])

lemma store_before_trans:
  assumes "store_before s t" "store_before t u"
  shows "store_before s u"
  unfolding store_before_def
proof (intro conjI ballI)
  show seen: "fst ` set (ss_seen_ids s) \<subseteq> fst ` set (ss_seen_ids u)"
    and "set (ss_needles s) \<subseteq> set (ss_needles u)"
    using assms by (simp_all only: store_before_def) (elim conjE, erule (1) subset_trans)+
  fix i
  assume i: "i \<in> fst ` set (ss_seen_ids s)"
  then have "i \<in> fst ` set (ss_seen_ids t)"
    by (rule subsetD [rotated]) (use assms(1) in \<open>simp add: store_before_def\<close>)
  from store_before_get [OF assms(2) this] store_before_get [OF assms(1) i]
  show "bt_get (ss_secrets u) i = bt_get (ss_secrets s) i \<or> bt_get (ss_secrets u) i = None"
    by (elim disjE) simp_all
qed

sublocale json_serializer \<subseteq> store: ordered_machine "store_exec to_vec" store_ok store_before
proof
  fix st a
  assume ok: "store_ok st"
  have step: "\<exists>st'. store_exec to_vec a st = Some st' \<and> store_ok st' \<and> store_before st st'"
  proof (cases a)
    case (OpAdd i p)
    with add_step [OF ok, of i p] show ?thesis by (auto simp: store_exec_def)
  next
    case (OpConsume i)
    with consume_step [OF ok] show ?thesis by (simp add: store_exec_def)
  qed
  then show "\<exists>st'. store_exec to_vec a st = Some st' \<and> store_ok st'" by blast
  show "store_before st st" by (simp add: store_before_def)
  show "store_before st st'" if "store_exec to_vec a st = Some st'" for st'
    using that step by simp
next
  fix s t u
  assume "store_before s t" "store_before t u"
  then show "store_before s u" by (rule store_before_trans)
qed

lemma redact_text_returns:
  assumes "store_ok st" "valid_utf8 input"
  shows "\<exists>out. redact_text st input = Some out \<and> valid_utf8 out"
proof -
  let ?ns = "sort_longest_first (filter valid_utf8 (ss_needles st))"
  have "[] \<notin> set ?ns" using assms(1) by (simp add: store_ok_def)
  from replace_needles_returns [OF this] obtain out where r: "replace_needles input ?ns = Some out" by blast
  then have "valid_utf8 out" by (rule replace_needles_text) (use assms(2) in simp_all)
  with r show ?thesis by (simp add: redact_text_def)
qed

text \<open>A serializer with JSON's escapes, on which the contract can be met.\<close>

definition json_escape :: "byte \<Rightarrow> string" where
  "json_escape b =
     (if b = CHR 0x22 then [CHR 0x5C, CHR 0x22]
      else if b = CHR 0x5C then [CHR 0x5C, CHR 0x5C]
      else if u8 b = 8 then [CHR 0x5C, CHR ''b'']
      else if u8 b = 9 then [CHR 0x5C, CHR ''t'']
      else if u8 b = 10 then [CHR 0x5C, CHR ''n'']
      else if u8 b = 12 then [CHR 0x5C, CHR ''f'']
      else if u8 b = 13 then [CHR 0x5C, CHR ''r'']
      else if u8 b < 32 then CHR 0x5C # ''u00'' @ encode_hex [b]
      else [b])"

definition json_quote :: "string \<Rightarrow> string option" where
  "json_quote t = Some (CHR 0x22 # concat (map json_escape t) @ [CHR 0x22])"

interpretation json: json_serializer json_quote
proof
  fix t :: string
  have "concat (map json_escape t) \<noteq> []" if "t \<noteq> []" using that by (cases t) (auto simp: json_escape_def)
  then show "\<exists>body. json_quote t = Some (CHR 0x22 # body @ [CHR 0x22]) \<and> (t \<noteq> [] \<longrightarrow> body \<noteq> [])"
    by (simp add: json_quote_def)
qed

context json_serializer
begin

lemma reached_ok: "run_ops (store_exec to_vec) ops store_new = Some st \<Longrightarrow> store_ok st"
  using store.run_inv [OF store_new_ok, of ops] by simp

lemma accepted:
  assumes "run_ops (store_exec to_vec) ops store_new = Some st"
    and "store_add to_vec i payload st = Some (Ok (), st1)"
    and "run_ops (store_exec to_vec) ops' st1 = Some st2"
  shows "\<exists>ns. needle_variants to_vec payload = Some ns \<and> payload \<in> set ns
    \<and> set ns \<subseteq> set (ss_needles st2) \<and> [] \<notin> set (ss_needles st2)"
proof -
  from add_step [OF reached_ok [OF assms(1)], of i payload] assms(2) obtain ns where ok: "store_ok st1"
    and ns: "needle_variants to_vec payload = Some ns" "payload \<in> set ns" "set ns \<subseteq> set (ss_needles st1)"
    by auto
  have "[] \<notin> set (ss_needles st2)"
    using store.run_inv [OF ok, of ops'] assms(3) by (simp add: store_ok_def)
  moreover have "set ns \<subseteq> set (ss_needles st2)"
    using store.run_before [OF ok assms(3)] ns(3) by (auto simp: store_before_def)
  ultimately show ?thesis using ns by blast
qed

lemma hides:
  assumes "run_ops (store_exec to_vec) ops store_new = Some st"
    and "store_add to_vec i payload st = Some (Ok (), st1)"
    and "run_ops (store_exec to_vec) ops' st1 = Some st2"
  shows "\<exists>ns out. needle_variants to_vec payload = Some ns \<and> payload \<in> set ns
    \<and> redact_bytes st2 input = Some out
    \<and> (\<forall>n \<in> set ns. \<forall>k. occurs_at n out k \<longrightarrow> marked out k (k + length n))"
proof -
  from accepted [OF assms] obtain ns where ns: "needle_variants to_vec payload = Some ns" "payload \<in> set ns"
    and sub: "set ns \<subseteq> set (ss_needles st2)" and ne: "[] \<notin> set (ss_needles st2)"
    by blast
  from replace_needles_returns [OF ne] obtain out where "redact_bytes st2 input = Some out"
    unfolding redact_bytes_def by blast
  with ns replace_needles_hides [OF ne] sub show ?thesis unfolding redact_bytes_def by blast
qed

lemma hides_text:
  assumes "run_ops (store_exec to_vec) ops store_new = Some st"
    and "store_add to_vec i payload st = Some (Ok (), st1)"
    and "run_ops (store_exec to_vec) ops' st1 = Some st2" "valid_utf8 input"
  shows "\<exists>ns out. needle_variants to_vec payload = Some ns
    \<and> redact_text st2 input = Some out \<and> valid_utf8 out
    \<and> (\<forall>n \<in> set ns. valid_utf8 n \<longrightarrow> (\<forall>k. occurs_at n out k \<longrightarrow> marked out k (k + length n)))"
proof -
  from accepted [OF assms(1-3)] obtain ns where ns: "needle_variants to_vec payload = Some ns"
    and sub: "set ns \<subseteq> set (ss_needles st2)" and "[] \<notin> set (ss_needles st2)"
    by blast
  then have ne: "[] \<notin> set (sort_longest_first (filter valid_utf8 (ss_needles st2)))" by simp
  from replace_needles_returns [OF this] obtain out
    where r: "replace_needles input (sort_longest_first (filter valid_utf8 (ss_needles st2))) = Some out"
    by blast
  then have v: "valid_utf8 out" by (rule replace_needles_text) (use assms(4) in simp_all)
  have "marked out k (k + length n)" if "n \<in> set ns" "valid_utf8 n" "occurs_at n out k" for n k
    using that sub by (intro replace_needles_hides [OF ne r]) auto
  with ns r v show ?thesis by (auto simp: redact_text_def)
qed

lemma consumed_once:
  assumes "run_ops (store_exec to_vec) ops store_new = Some st" "bt_get (ss_secrets st) i = Some s"
    and "consume_with i sink st = (r, st1)" "run_ops (store_exec to_vec) ops' st1 = Some st2" "sc_id s' = i"
  shows "consume_with i sink' st2 = (Ok None, st2) \<and> store_insert to_vec s' st2 = Some (Err (DuplicateId i), st2)"
proof -
  have ok: "store_ok st" by (rule reached_ok [OF assms(1)])
  have st1: "st1 = st\<lparr>ss_secrets := bt_remove i (ss_secrets st)\<rparr>"
    using assms(2,3) by (simp add: consume_with_def split: sum.splits)
  have "store_ok st1" using consume_step [OF ok, of i sink] assms(3) by simp
  from store.run_before [OF this assms(4)] have b: "store_before st1 st2" .
  have seen: "i \<in> fst ` set (ss_seen_ids st1)"
    using ok bt_get_mem [OF assms(2)] unfolding store_ok_def st1 by force
  with b have "bt_get (ss_secrets st2) i = None" "i \<in> fst ` set (ss_seen_ids st2)"
    unfolding store_before_def by (auto simp: st1 bt_get_remove)
  then show ?thesis using bt_get_None [of "ss_seen_ids st2" i] assms(5)
    by (simp add: consume_with_def store_insert_def)
qed

end

subsection \<open>Properties\<close>

text \<open>
  C2: No representation of a secret leaves the redactor. Once a secret is accepted by a store, then
  after any further additions and consumptions, redaction of any bytes returns, and in what it
  returns the payload, its hexadecimal, base64, percent and JSON forms occur only inside a
  redaction marker.
\<close>

theorem redaction_hides:
  assumes "json_serializer to_vec" "run_ops (store_exec to_vec) ops store_new = Some st"
    and "store_add to_vec i payload st = Some (Ok (), st1)"
    and "run_ops (store_exec to_vec) ops' st1 = Some st2"
  shows "\<exists>ns out. needle_variants to_vec payload = Some ns \<and> payload \<in> set ns
    \<and> redact_bytes st2 input = Some out
    \<and> (\<forall>n \<in> set ns. \<forall>k. occurs_at n out k \<longrightarrow> marked out k (k + length n))"
  by (rule json_serializer.hides [OF assms])

text \<open>
  Redaction of text gives text. For a secret accepted by a store, redaction of valid text never
  reaches the \<open>expect\<close> on its UTF-8, what it returns is valid UTF-8, and every form of the payload
  that is text occurs there only inside a redaction marker.
\<close>

theorem redact_text_hides:
  assumes "json_serializer to_vec" "run_ops (store_exec to_vec) ops store_new = Some st"
    and "store_add to_vec i payload st = Some (Ok (), st1)"
    and "run_ops (store_exec to_vec) ops' st1 = Some st2" "valid_utf8 input"
  shows "\<exists>ns out. needle_variants to_vec payload = Some ns
    \<and> redact_text st2 input = Some out \<and> valid_utf8 out
    \<and> (\<forall>n \<in> set ns. valid_utf8 n \<longrightarrow> (\<forall>k. occurs_at n out k \<longrightarrow> marked out k (k + length n)))"
  by (rule json_serializer.hides_text [OF assms])

text \<open>
  Redaction changes nothing else: bytes in which no needle of the store occurs are returned as
  they are, markers in them included.
\<close>

theorem redaction_keeps_clean:
  assumes "json_serializer to_vec" "run_ops (store_exec to_vec) ops store_new = Some st"
    and "\<forall>n \<in> set (ss_needles st). \<forall>k. \<not> occurs_at n input k"
  shows "redact_bytes st input = Some input"
  using json_serializer.reached_ok [OF assms(1,2)] assms(3) replace_needles_clean
  by (auto simp: redact_bytes_def store_ok_def)

text \<open>
  C32: A secret is used once. After a secret was consumed, whatever its sink answered, no later sink
  gets it, and its identity can never be given to another secret of the evaluation.
\<close>

theorem secret_used_once:
  assumes "json_serializer to_vec" "run_ops (store_exec to_vec) ops store_new = Some st"
    and "bt_get (ss_secrets st) i = Some s" "consume_with i sink st = (r, st1)"
    and "run_ops (store_exec to_vec) ops' st1 = Some st2" "sc_id s' = i"
  shows "consume_with i sink' st2 = (Ok None, st2) \<and> store_insert to_vec s' st2 = Some (Err (DuplicateId i), st2)"
  by (rule json_serializer.consumed_once [OF assms])

subsection \<open>Witnesses\<close>

definition demo_store :: secret_store where
  "demo_store = snd (the (store_add json_quote ''k'' ''ab'' store_new))"

lemma demo_store_eq:
  "store_add json_quote ''k'' ''ab'' store_new = Some (Ok (), demo_store)
    \<and> ss_secrets demo_store = [(''k'', \<lparr>sc_id = ''k'', sc_payload = ''ab''\<rparr>)]
    \<and> set (ss_needles demo_store) = set (the (needle_variants json_quote ''ab''))"
proof -
  obtain ns where "needle_variants json_quote ''ab'' = Some ns" using json.variants [of "''ab''"] by auto
  then show ?thesis
    by (simp add: demo_store_def store_add_def secret_id_new_def secret_new_def store_insert_def store_new_def
        MAX_SECRETS_def MAX_SECRET_BYTES_def bt_get_def)
qed

lemmas demo_store_added = demo_store_eq [THEN conjunct1]

lemma demo_store_run: "run_ops (store_exec json_quote) [OpAdd ''k'' ''ab''] store_new = Some demo_store"
  by (simp add: store_exec_def demo_store_added)

theorem redaction_hides_witness:
  "\<exists>ns out. needle_variants json_quote ''ab'' = Some ns \<and> ''ab'' \<in> set ns
    \<and> redact_bytes demo_store ''ab 6162'' = Some out
    \<and> (\<forall>n \<in> set ns. \<forall>k. occurs_at n out k \<longrightarrow> marked out k (k + length n))"
  by (rule redaction_hides [OF json.json_serializer_axioms, of "[]" store_new "''k''" "''ab''" demo_store "[]" demo_store])
    (simp_all add: demo_store_added)

theorem redact_text_hides_witness:
  "\<exists>ns out. needle_variants json_quote ''ab'' = Some ns
    \<and> redact_text demo_store ''x ab'' = Some out \<and> valid_utf8 out
    \<and> (\<forall>n \<in> set ns. valid_utf8 n \<longrightarrow> (\<forall>k. occurs_at n out k \<longrightarrow> marked out k (k + length n)))"
  by (rule redact_text_hides [OF json.json_serializer_axioms, of "[]" store_new "''k''" "''ab''" demo_store "[]" demo_store])
    (simp_all add: demo_store_added valid_utf8_ascii)

theorem redaction_keeps_clean_witness: "redact_bytes demo_store ''z'' = Some ''z''"
proof (rule redaction_keeps_clean [OF json.json_serializer_axioms demo_store_run])
  have "list_all (\<lambda>n. 1 < length n) (the (needle_variants json_quote ''ab''))" by code_simp
  then have "1 < length n" if "n \<in> set (ss_needles demo_store)" for n
    using that demo_store_eq by (simp add: list_all_iff)
  then show "\<forall>n \<in> set (ss_needles demo_store). \<forall>k. \<not> occurs_at n ''z'' k"
    using occurs_at_bound [of _ "''z''"] by fastforce
qed

theorem secret_used_once_witness:
  "let st1 = snd (consume_with ''k'' (Ok :: string \<Rightarrow> (string, unit) result) demo_store) in
     consume_with ''k'' (Ok :: string \<Rightarrow> (string, unit) result) st1 = (Ok None, st1)
     \<and> store_insert json_quote \<lparr>sc_id = ''k'', sc_payload = ''cd''\<rparr> st1 = Some (Err (DuplicateId ''k''), st1)"
proof -
  have s: "bt_get (ss_secrets demo_store) ''k'' = Some \<lparr>sc_id = ''k'', sc_payload = ''ab''\<rparr>"
    by (simp add: demo_store_eq bt_get_def)
  show ?thesis unfolding Let_def
    by (rule secret_used_once [OF json.json_serializer_axioms demo_store_run s prod.collapse [symmetric], of "[]"]) simp_all
qed

end
