(* ===== verification/Lifetime.thy ===== *)
theory Lifetime
  imports Budget Security
begin

section \<open>Cancellation tokens\<close>

text \<open>
  The model of \<open>CancellationToken\<close> of \<^verbatim>\<open>crates/opaal-runtime/src/eval.rs\<close> and of
  \<^verbatim>\<open>crates/opaal-runtime/src/lifetime.rs\<close>. A token's reason is an atomic byte shared by its clones: it is
  a cell of a store, and a token holds its address, so a token that wraps another and a clone of the
  inner one see the same cell. Predicates and clocks are outside: a \<open>world\<close> says what they answer at
  one poll, and the theorems quantify over the worlds of all polls.
\<close>

datatype cancel_reason = Requested | Timeout

record world =
  w_pred :: "nat \<Rightarrow> bool"
  w_clock :: "nat \<Rightarrow> u64"

datatype signal_source =
    SgNever
  | SgFn nat
  | SgDeadline nat u64
  | SgRequested signal_source nat nat nat
  | SgUntil signal_source nat nat u64 nat

text \<open>
  \<open>SgRequested inner r p a\<close> is the closure of \<open>with_requested_cancellation\<close> over the token with signal
  \<open>inner\<close> and reason cell \<open>r\<close>, the predicate \<open>p\<close> and its own cell \<open>a\<close>; \<open>SgUntil inner r c d a\<close> that of
  \<open>with_deadline\<close> with the clock \<open>c\<close> and the deadline \<open>d\<close>.
\<close>

record cancellation_token =
  tk_signal :: signal_source
  tk_reason :: nat

type_synonym cells = "nat \<Rightarrow> nat"

definition compare_exchange :: "nat \<Rightarrow> nat \<Rightarrow> nat \<Rightarrow> cells \<Rightarrow> cells" where
  "compare_exchange a old new c = (if c a = old then c(a := new) else c)"

definition reason_of :: "nat \<Rightarrow> cancel_reason" where
  "reason_of v = (if v = 1 then Timeout else Requested)"

fun signal_poll :: "world \<Rightarrow> signal_source \<Rightarrow> cells \<Rightarrow> bool \<times> cells" where
  "signal_poll w SgNever c = (False, c)"
| "signal_poll w (SgFn p) c = (w_pred w p, c)"
| "signal_poll w (SgDeadline k d) c = (d \<le> w_clock w k, c)"
| "signal_poll w (SgRequested inner r p a) c =
     (if c a \<noteq> 2 then (True, c)
      else if w_pred w p then (True, compare_exchange a 2 0 c)
      else (case signal_poll w inner c of
          (True, c') \<Rightarrow> (True, compare_exchange a 2 (if reason_of (c' r) = Timeout then 1 else 0) c')
        | (False, c') \<Rightarrow> (False, c')))"
| "signal_poll w (SgUntil inner r k d a) c =
     (if c a \<noteq> 2 then (True, c)
      else (case signal_poll w inner c of
          (True, c') \<Rightarrow> (True, compare_exchange a 2 (if reason_of (c' r) = Timeout then 1 else 0) c')
        | (False, c') \<Rightarrow>
            if d \<le> w_clock w k then (True, compare_exchange a 2 1 c') else (False, c')))"

definition token_never :: "nat \<Rightarrow> cells \<Rightarrow> cancellation_token \<times> cells" where
  "token_never a c = (\<lparr>tk_signal = SgNever, tk_reason = a\<rparr>, c(a := 0))"

definition token_from_fn :: "nat \<Rightarrow> nat \<Rightarrow> cells \<Rightarrow> cancellation_token \<times> cells" where
  "token_from_fn p a c = (\<lparr>tk_signal = SgFn p, tk_reason = a\<rparr>, c(a := 0))"

definition token_deadline :: "nat \<Rightarrow> u64 \<Rightarrow> nat \<Rightarrow> cells \<Rightarrow> cancellation_token \<times> cells" where
  "token_deadline k d a c = (\<lparr>tk_signal = SgDeadline k d, tk_reason = a\<rparr>, c(a := 1))"

definition with_requested_cancellation ::
  "cancellation_token \<Rightarrow> nat \<Rightarrow> nat \<Rightarrow> cells \<Rightarrow> cancellation_token \<times> cells" where
  "with_requested_cancellation t p a c =
     (\<lparr>tk_signal = SgRequested (tk_signal t) (tk_reason t) p a, tk_reason = a\<rparr>, c(a := 2))"

definition with_deadline :: "cancellation_token \<Rightarrow> nat \<Rightarrow> u64 \<Rightarrow> nat \<Rightarrow> cells \<Rightarrow> cancellation_token \<times> cells" where
  "with_deadline t k d a c =
     (\<lparr>tk_signal = SgUntil (tk_signal t) (tk_reason t) k d a, tk_reason = a\<rparr>, c(a := 2))"

definition token_is_cancelled :: "world \<Rightarrow> cancellation_token \<Rightarrow> cells \<Rightarrow> bool \<times> cells" where
  "token_is_cancelled w t = signal_poll w (tk_signal t)"

definition token_reason :: "cancellation_token \<Rightarrow> cells \<Rightarrow> cancel_reason" where
  "token_reason t c = reason_of (c (tk_reason t))"

subsection \<open>Cells settle once\<close>

definition settled :: "cells \<Rightarrow> cells \<Rightarrow> bool" where
  "settled c c' \<longleftrightarrow> (\<forall>a. c a \<noteq> 2 \<longrightarrow> c' a = c a)"

definition latched :: "signal_source \<Rightarrow> nat \<Rightarrow> bool" where
  "latched s a = (case s of SgRequested _ _ _ b \<Rightarrow> a = b | SgUntil _ _ _ _ b \<Rightarrow> a = b | _ \<Rightarrow> False)"

lemma settled_refl [simp]: "settled c c"
  by (simp add: settled_def)

lemma settled_trans: "settled c c' \<Longrightarrow> settled c' c'' \<Longrightarrow> settled c c''"
  by (simp add: settled_def)

lemma settled_exchange: "settled c (compare_exchange a 2 v c)"
  by (simp add: settled_def compare_exchange_def)

lemma signal_poll_settles: "settled c (snd (signal_poll w s c))"
proof (induction s arbitrary: c)
  case (SgRequested s r p a)
  then show ?case
    by (auto simp: settled_exchange split: prod.splits bool.splits intro: settled_trans [OF _ settled_exchange])
      (metis settled_exchange settled_trans snd_conv)+
next
  case (SgUntil s r k d a)
  then show ?case
    by (auto simp: settled_exchange split: prod.splits bool.splits intro: settled_trans [OF _ settled_exchange])
      (metis settled_exchange settled_trans snd_conv)+
qed simp_all

lemma latched_settled: "latched s a \<Longrightarrow> c a \<noteq> 2 \<Longrightarrow> signal_poll w s c = (True, c)"
  by (cases s) (auto simp: latched_def)

lemma latched_trips: "latched s a \<Longrightarrow> signal_poll w s c = (True, c') \<Longrightarrow> c' a \<noteq> 2"
  by (cases s) (auto simp: latched_def compare_exchange_def split: if_splits prod.splits bool.splits)

fun poll_all :: "(world \<times> cancellation_token) list \<Rightarrow> cells \<Rightarrow> cells" where
  "poll_all [] c = c"
| "poll_all ((w, t) # ps) c = poll_all ps (snd (token_is_cancelled w t c))"

lemma poll_all_settles: "settled c (poll_all ps c)"
proof (induction ps arbitrary: c)
  case (Cons p ps)
  obtain w t where p: "p = (w, t)" by fastforce
  have "settled c (snd (token_is_cancelled w t c))" by (simp add: token_is_cancelled_def signal_poll_settles)
  with Cons.IH show ?case unfolding p by (simp add: settled_trans)
qed simp

section \<open>Cancellation scopes\<close>

record cancellation_scope =
  cs_id :: u64
  cs_token :: cancellation_token
  cs_clock :: nat
  cs_deadline :: "u64 option"
  cs_state :: nat

definition narrowed_to :: "u64 \<Rightarrow> u64 \<Rightarrow> u64" where
  "narrowed_to d other = (if d \<le> other then d else other)"

definition cancellation_scope_new ::
  "u64 \<Rightarrow> cancellation_token \<Rightarrow> nat \<Rightarrow> u64 option \<Rightarrow> cancellation_scope" where
  "cancellation_scope_new i t k d =
     \<lparr>cs_id = i, cs_token = t, cs_clock = k, cs_deadline = d, cs_state = 0\<rparr>"

definition token_until ::
  "cancellation_scope \<Rightarrow> cancellation_token \<Rightarrow> u64 \<Rightarrow> nat \<Rightarrow> cells \<Rightarrow> cancellation_token \<times> cells" where
  "token_until s t d a c = with_deadline t (cs_clock s) d a c"

definition narrow_deadline :: "u64 \<Rightarrow> cancellation_scope \<Rightarrow> cancellation_scope" where
  "narrow_deadline d s =
     s\<lparr>cs_deadline := Some (case cs_deadline s of Some current \<Rightarrow> narrowed_to current d | None \<Rightarrow> d)\<rparr>"

definition operation_deadline :: "world \<Rightarrow> nat \<Rightarrow> cancellation_scope \<Rightarrow> u64" where
  "operation_deadline w timeout s =
     (let deadline = saturating_add (w_clock w (cs_clock s))
            (case u64_try_from timeout of Some n \<Rightarrow> n | None \<Rightarrow> - 1)
      in case cs_deadline s of None \<Rightarrow> deadline | Some current \<Rightarrow> narrowed_to current deadline)"

definition remaining_until :: "world \<Rightarrow> u64 \<Rightarrow> cancellation_scope \<Rightarrow> u64" where
  "remaining_until w deadline s = saturating_sub deadline (w_clock w (cs_clock s))"

definition reason_code :: "cancel_reason \<Rightarrow> nat" where
  "reason_code r = (case r of Requested \<Rightarrow> 1 | Timeout \<Rightarrow> 2)"

definition observed :: "nat \<Rightarrow> cancel_reason option" where
  "observed v = (if v = 1 then Some Requested else if v = 2 then Some Timeout else None)"

definition state_exchange :: "nat \<Rightarrow> cancellation_scope \<Rightarrow> cancellation_scope" where
  "state_exchange v s = (if cs_state s = 0 then s\<lparr>cs_state := v\<rparr> else s)"

text \<open>
  What one poll sees once the latch is open: the token first, then the clock. The token and the
  clock are read at two moments, so each has its world.
\<close>

definition poll_reason ::
  "world \<Rightarrow> world \<Rightarrow> cancellation_scope \<Rightarrow> cells \<Rightarrow> cancel_reason option \<times> cells" where
  "poll_reason w w' s c =
     (case token_is_cancelled w (cs_token s) c of
        (True, c') \<Rightarrow> (Some (token_reason (cs_token s) c'), c')
      | (False, c') \<Rightarrow>
          (case cs_deadline s of
             Some d \<Rightarrow> (if d \<le> w_clock w' (cs_clock s) then Some Timeout else None, c')
           | None \<Rightarrow> (None, c')))"

definition scope_poll ::
  "world \<Rightarrow> world \<Rightarrow> cancellation_scope \<Rightarrow> cells \<Rightarrow> cancel_reason option \<times> cancellation_scope \<times> cells" where
  "scope_poll w w' s c =
     (case observed (cs_state s) of
        Some r \<Rightarrow> (Some r, s, c)
      | None \<Rightarrow>
          (case poll_reason w w' s c of
             (None, c') \<Rightarrow> (None, s, c')
           | (Some r, c') \<Rightarrow>
               (let s' = state_exchange (reason_code r) s
                in (Some (if cs_state s' = 2 then Timeout else Requested), s', c'))))"

record poll_worlds =
  pw_token :: world
  pw_clock :: world
  pw_operation :: world
  pw_token2 :: world
  pw_clock2 :: world

definition scope_poll_until ::
  "poll_worlds \<Rightarrow> u64 \<Rightarrow> cancellation_scope \<Rightarrow> cells \<Rightarrow> cancel_reason option \<times> cancellation_scope \<times> cells" where
  "scope_poll_until ws deadline s c =
     (case scope_poll (pw_token ws) (pw_clock ws) s c of
        (Some r, s', c') \<Rightarrow> (Some r, s', c')
      | (None, s', c') \<Rightarrow>
          if deadline \<le> w_clock (pw_operation ws) (cs_clock s')
          then scope_poll (pw_token2 ws) (pw_clock2 ws) (state_exchange 2 s') c'
          else (None, s', c'))"

text \<open>The operations on a scope, for sequences of them.\<close>

datatype scope_op =
    OpPoll world world
  | OpPollUntil poll_worlds u64
  | OpNarrow u64

definition cancel_apply ::
  "scope_op \<Rightarrow> cancellation_scope \<times> cells \<Rightarrow> cancel_reason option \<times> cancellation_scope \<times> cells" where
  "cancel_apply a sc =
     (case (a, sc) of
        (OpPoll w w', s, c) \<Rightarrow> scope_poll w w' s c
      | (OpPollUntil ws d, s, c) \<Rightarrow> scope_poll_until ws d s c
      | (OpNarrow d, s, c) \<Rightarrow> (observed (cs_state s), narrow_deadline d s, c))"

definition cancel_exec :: "scope_op \<Rightarrow> cancellation_scope \<times> cells \<Rightarrow> (cancellation_scope \<times> cells) option" where
  "cancel_exec a sc = Some (snd (cancel_apply a sc))"

definition state_ok :: "cancellation_scope \<times> cells \<Rightarrow> bool" where
  "state_ok sc \<longleftrightarrow> cs_state (fst sc) \<in> {0, 1, 2}"

definition cancel_before :: "cancellation_scope \<times> cells \<Rightarrow> cancellation_scope \<times> cells \<Rightarrow> bool" where
  "cancel_before sc sc' \<longleftrightarrow> cs_id (fst sc') = cs_id (fst sc)
     \<and> (cs_state (fst sc) \<noteq> 0 \<longrightarrow> cs_state (fst sc') = cs_state (fst sc))
     \<and> (\<forall>d. cs_deadline (fst sc) = Some d \<longrightarrow> (\<exists>d'. cs_deadline (fst sc') = Some d' \<and> d' \<le> d))
     \<and> settled (snd sc) (snd sc')"

lemma narrowed_to_min: "narrowed_to d e = min d e"
  by (simp add: narrowed_to_def min_def)

lemma reason_code_range [simp]: "reason_code r = Suc 0 \<or> reason_code r = 2" "reason_code r \<noteq> 0"
  by (cases r; simp add: reason_code_def)+

lemma reason_code_2 [simp]: "reason_code r = 2 \<longleftrightarrow> r = Timeout"
  by (cases r) (simp_all add: reason_code_def)

lemma poll_reason_settles: "settled c (snd (poll_reason w w' s c))"
  using signal_poll_settles [of c w "tk_signal (cs_token s)"]
  by (auto simp: poll_reason_def token_is_cancelled_def split: prod.splits bool.splits option.splits)

lemma scope_poll_eq:
  assumes "cs_state s \<in> {0, 1, 2}" "scope_poll w w' s c = (r, s', c')"
  shows "settled c c' \<and> observed (cs_state s') = r \<and> cs_state s' \<in> {0, 1, 2}
    \<and> (cs_state s \<noteq> 0 \<longrightarrow> s' = s) \<and> s' = s\<lparr>cs_state := cs_state s'\<rparr>"
proof -
  have "settled c (snd (poll_reason w w' s c))" by (rule poll_reason_settles)
  with assms show ?thesis
    by (auto simp: scope_poll_def state_exchange_def observed_def Let_def reason_code_def
        split: option.splits prod.splits if_splits cancel_reason.splits)
qed

lemma poll_before:
  assumes "cs_state s \<in> {0, 1, 2}" "scope_poll w w' s c = (r, s', c')"
  shows "cancel_before (s, c) (s', c') \<and> cs_state s' \<in> {0, 1, 2}"
proof -
  note p = scope_poll_eq [OF assms]
  then have "cs_id s' = cs_id s" "cs_deadline s' = cs_deadline s"
    by (metis cancellation_scope.ext_inject cancellation_scope.surjective cancellation_scope.update_convs(5))+
  with p show ?thesis by (simp add: cancel_before_def)
qed

lemma exchange_before: "v \<in> {1, 2} \<Longrightarrow> cs_state s \<in> {0, 1, 2} \<Longrightarrow>
    cancel_before (s, c) (state_exchange v s, c) \<and> cs_state (state_exchange v s) \<in> {0, 1, 2}"
  by (auto simp: cancel_before_def state_exchange_def)

lemma cancel_before_trans:
  assumes "cancel_before x y" "cancel_before y z"
  shows "cancel_before x z"
  unfolding cancel_before_def
proof (intro conjI allI impI)
  fix d
  assume "cs_deadline (fst x) = Some d"
  with assms(1) obtain d1 where "cs_deadline (fst y) = Some d1" "d1 \<le> d" by (auto simp: cancel_before_def)
  moreover from this assms(2) obtain d2 where "cs_deadline (fst z) = Some d2" "d2 \<le> d1"
    by (auto simp: cancel_before_def)
  ultimately show "\<exists>d'. cs_deadline (fst z) = Some d' \<and> d' \<le> d" by auto
qed (use assms in \<open>auto simp: cancel_before_def intro: settled_trans\<close>)

lemma poll_until_before:
  assumes "cs_state s \<in> {0, 1, 2}" "scope_poll_until ws d s c = (r, s', c')"
  shows "cancel_before (s, c) (s', c') \<and> cs_state s' \<in> {0, 1, 2} \<and> observed (cs_state s') = r"
proof -
  obtain r1 s1 c1 where p: "scope_poll (pw_token ws) (pw_clock ws) s c = (r1, s1, c1)" by (metis prod_cases3)
  note b1 = poll_before [OF assms(1) p] and o1 = scope_poll_eq [OF assms(1) p]
  show ?thesis
  proof (cases "r1 = None \<and> d \<le> w_clock (pw_operation ws) (cs_clock s1)")
    case False
    with assms(2) p have "s' = s1" "c' = c1" "r = r1" by (auto simp: scope_poll_until_def split: option.splits)
    with b1 o1 show ?thesis by simp
  next
    case True
    with assms(2) p
    have p2: "scope_poll (pw_token2 ws) (pw_clock2 ws) (state_exchange 2 s1) c1 = (r, s', c')"
      by (simp add: scope_poll_until_def)
    from exchange_before [of 2 s1 c1] b1
    have e: "cancel_before (s1, c1) (state_exchange 2 s1, c1)" "cs_state (state_exchange 2 s1) \<in> {0, 1, 2}" by auto
    note b2 = poll_before [OF e(2) p2]
    show ?thesis
      using cancel_before_trans [OF conjunct1 [OF b1] cancel_before_trans [OF e(1) conjunct1 [OF b2]]]
        scope_poll_eq [OF e(2) p2] by simp
  qed
qed

lemma cancel_apply_before:
  assumes "state_ok sc" "cancel_apply a sc = (r, sc')"
  shows "cancel_before sc sc' \<and> state_ok sc' \<and> observed (cs_state (fst sc')) = r"
proof -
  obtain s c where sc: "sc = (s, c)" by fastforce
  obtain s' c' where sc': "sc' = (s', c')" by fastforce
  have ok: "cs_state s \<in> {0, 1, 2}" using assms(1) by (simp add: sc state_ok_def)
  show ?thesis
  proof (cases a)
    case (OpPoll w w')
    then have "scope_poll w w' s c = (r, s', c')" using assms(2) by (simp add: cancel_apply_def sc sc')
    with poll_before [OF ok this] scope_poll_eq [OF ok this] show ?thesis by (simp add: sc sc' state_ok_def)
  next
    case (OpPollUntil ws d)
    then have "scope_poll_until ws d s c = (r, s', c')" using assms(2) by (simp add: cancel_apply_def sc sc')
    with poll_until_before [OF ok this] show ?thesis by (simp add: sc sc' state_ok_def)
  next
    case (OpNarrow d)
    with assms ok show ?thesis
      by (auto simp: cancel_apply_def sc sc' state_ok_def cancel_before_def narrow_deadline_def narrowed_to_min)
  qed
qed

interpretation cancel: ordered_machine cancel_exec state_ok cancel_before
proof
  fix sc a
  assume ok: "state_ok sc"
  obtain r sc1 where e: "cancel_apply a sc = (r, sc1)" by (cases "cancel_apply a sc") blast
  from cancel_apply_before [OF ok e] e show "\<exists>sc'. cancel_exec a sc = Some sc' \<and> state_ok sc'"
    by (simp add: cancel_exec_def)
  show "cancel_before sc sc" by (simp add: cancel_before_def)
  show "cancel_before sc sc'" if "cancel_exec a sc = Some sc'" for sc'
    using cancel_apply_before [OF ok e] e that by (simp add: cancel_exec_def)
qed (rule cancel_before_trans)

section \<open>Concurrent polls\<close>

text \<open>
  A scope is polled from several threads, which share its atomic state. One poll is the load at its
  start, what it then sees of the token and the clock, the exchange, and the second load; threads
  interleave between them in any order. What a thread sees is free, and the exchange of
  \<open>poll_until\<close> may happen at any time a thread is between polls.
\<close>

datatype poll_pc =
    PcIdle
  | PcLoaded
  | PcSeen cancel_reason
  | PcSwapped
  | PcDone "cancel_reason option"

type_synonym poll_state = "nat \<times> (nat \<Rightarrow> poll_pc)"

inductive poll_step :: "poll_state \<Rightarrow> poll_state \<Rightarrow> bool" where
  hit: "pcs i = PcIdle \<Longrightarrow> observed v = Some r \<Longrightarrow> poll_step (v, pcs) (v, pcs(i := PcDone (Some r)))"
| miss: "pcs i = PcIdle \<Longrightarrow> observed v = None \<Longrightarrow> poll_step (v, pcs) (v, pcs(i := PcLoaded))"
| see: "pcs i = PcLoaded \<Longrightarrow> poll_step (v, pcs) (v, pcs(i := PcSeen r))"
| clear: "pcs i = PcLoaded \<Longrightarrow> poll_step (v, pcs) (v, pcs(i := PcDone None))"
| swap: "pcs i = PcSeen r \<Longrightarrow>
    poll_step (v, pcs) (if v = 0 then reason_code r else v, pcs(i := PcSwapped))"
| load: "pcs i = PcSwapped \<Longrightarrow>
    poll_step (v, pcs) (v, pcs(i := PcDone (Some (if v = 2 then Timeout else Requested))))"
| expire: "pcs i = PcIdle \<Longrightarrow> poll_step (v, pcs) (if v = 0 then 2 else v, pcs)"
| again: "pcs i = PcDone r \<Longrightarrow> poll_step (v, pcs) (v, pcs(i := PcIdle))"

definition polls :: "poll_state \<Rightarrow> poll_state \<Rightarrow> bool" where
  "polls = poll_step\<^sup>*\<^sup>*"

definition pc_ok :: "nat \<Rightarrow> poll_pc \<Rightarrow> bool" where
  "pc_ok v pc = (case pc of PcSwapped \<Rightarrow> v \<noteq> 0 | PcDone (Some r) \<Rightarrow> observed v = Some r | _ \<Rightarrow> True)"

definition polls_ok :: "poll_state \<Rightarrow> bool" where
  "polls_ok s \<longleftrightarrow> fst s \<in> {0, 1, 2} \<and> (\<forall>i. pc_ok (fst s) (snd s i))"

inductive_cases poll_stepE: "poll_step s s'"

lemma observed_iff: "v \<in> {0, 1, 2} \<Longrightarrow> observed v = None \<longleftrightarrow> v = 0"
  by (auto simp: observed_def)

lemma observed_nonzero: "observed v = Some r \<Longrightarrow> v \<noteq> 0"
  by (cases "v = 0") (simp_all add: observed_def)

lemma pc_ok_latch: "pc_ok 0 pc \<Longrightarrow> v \<in> {1, 2} \<Longrightarrow> pc_ok v pc"
  by (auto simp: pc_ok_def observed_def split: poll_pc.splits option.splits)

lemma poll_step_ok: "poll_step s s' \<Longrightarrow> polls_ok s \<Longrightarrow> polls_ok s' \<and> (fst s \<noteq> 0 \<longrightarrow> fst s' = fst s)"
proof (induction rule: poll_step.induct)
  case (swap pcs i r v)
  have "pc_ok (reason_code r) (pcs j)" if "v = 0" for j
    using swap(2) that pc_ok_latch [of "pcs j" "reason_code r"] reason_code_range [of r] by (auto simp: polls_ok_def)
  with swap reason_code_range [of r] show ?case by (auto simp: polls_ok_def pc_ok_def split: if_splits)
next
  case (expire pcs i v)
  then show ?case using pc_ok_latch [of _ 2] by (auto simp: polls_ok_def)
next
  case (load pcs i v)
  then have "pc_ok v PcSwapped" unfolding polls_ok_def by (metis fst_conv snd_conv)
  with load show ?case by (auto simp: polls_ok_def pc_ok_def observed_def)
qed (auto simp: polls_ok_def pc_ok_def observed_def split: if_splits)

lemma polls_okD: "polls s s' \<Longrightarrow> polls_ok s \<Longrightarrow> polls_ok s' \<and> (fst s \<noteq> 0 \<longrightarrow> fst s' = fst s)"
  unfolding polls_def by (induction rule: rtranclp_induct) (auto dest: poll_step_ok)

lemma polls_after_latch:
  assumes "polls s s'" "polls_ok s" "fst s \<noteq> 0" "snd s j = PcIdle \<or> (\<exists>r. snd s j = PcDone (Some r))"
  shows "snd s' j = PcIdle \<or> (\<exists>r. snd s' j = PcDone (Some r))"
  using assms(1) unfolding polls_def
proof (induction rule: rtranclp_induct)
  case (step t u)
  then have "polls s t" by (simp add: polls_def)
  from polls_okD [OF this assms(2)] assms(3) have "fst t \<noteq> 0" "fst t \<in> {0, 1, 2}" by (auto simp: polls_ok_def)
  with step(2,3) show ?case by (cases rule: poll_step.cases) (auto simp: observed_iff split: if_splits)
qed (use assms(4) in simp)

lemma poll_alone:
  assumes "cs_state s \<in> {0, 1, 2}" "scope_poll w w' s c = (r, s', c')" "pcs i = PcIdle"
  shows "polls (cs_state s, pcs) (cs_state s', pcs(i := PcDone r))"
proof (cases "observed (cs_state s)")
  case (Some q)
  with assms have "r = Some q" "s' = s" by (auto simp: scope_poll_def)
  with Some assms(3) show ?thesis unfolding polls_def by (auto intro: poll_step.hit)
next
  case None
  then have v: "cs_state s = 0" using assms(1) by (simp add: observed_iff)
  have l: "poll_step (cs_state s, pcs) (cs_state s, pcs(i := PcLoaded))"
    using assms(3) None by (rule poll_step.miss)
  obtain q c1 where q: "poll_reason w w' s c = (q, c1)" by fastforce
  show ?thesis
  proof (cases q)
    case None
    then have "r = None" "s' = s" using assms(2) q v by (auto simp: scope_poll_def observed_def)
    moreover have "poll_step (cs_state s, pcs(i := PcLoaded)) (cs_state s, pcs(i := PcDone None))"
      using poll_step.clear [of "pcs(i := PcLoaded)" i] by simp
    ultimately show ?thesis using l unfolding polls_def by auto
  next
    case (Some z)
    then have r: "r = Some z" "cs_state s' = reason_code z"
      using assms(2) q v by (cases z; auto simp: scope_poll_def observed_def state_exchange_def reason_code_def)+
    have "poll_step (cs_state s, pcs(i := PcLoaded)) (cs_state s, pcs(i := PcSeen z))"
      using poll_step.see [of "pcs(i := PcLoaded)" i] by simp
    moreover have "poll_step (cs_state s, pcs(i := PcSeen z)) (reason_code z, pcs(i := PcSwapped))"
      using poll_step.swap [of "pcs(i := PcSeen z)" i z 0] v by simp
    moreover have "poll_step (reason_code z, pcs(i := PcSwapped)) (reason_code z, pcs(i := PcDone (Some z)))"
      using poll_step.load [of "pcs(i := PcSwapped)" i "reason_code z"] by (cases z) (simp_all add: reason_code_def)
    ultimately show ?thesis using l unfolding polls_def r
      by (meson converse_rtranclp_into_rtranclp r_into_rtranclp)
  qed
qed

section \<open>Owned resources\<close>

text \<open>
  The cleanup stack of adapter-owned resources. A cleanup is a closure run once on the outside
  world \<open>'w\<close>, which it changes, and which fails with a message or not; a failure is kept redacted.
  \<open>None\<close> is a panic: of the \<open>expect\<close> on a cleanup already taken, or of the redactor.
\<close>

type_synonym 'w cleanup = "'w \<Rightarrow> (unit, string) result \<times> 'w"

record resource_id =
  rid_owner :: u64
  rid_ordinal :: "32 word"

datatype cleanup_status = Succeeded | Failed string

record cleanup_outcome =
  co_resource :: resource_id
  co_status :: cleanup_status

record 'w registered_resource =
  rr_id :: resource_id
  rr_cleanup :: "'w cleanup option"

record 'w resource_scope =
  rs_owner :: u64
  rs_next_ordinal :: "32 word"
  rs_resources :: "'w registered_resource list"
  rs_closed :: bool

definition resource_scope_new :: "u64 \<Rightarrow> 'w resource_scope" where
  "resource_scope_new owner = \<lparr>rs_owner = owner, rs_next_ordinal = 0, rs_resources = [], rs_closed = False\<rparr>"

definition register :: "'w cleanup \<Rightarrow> 'w resource_scope \<Rightarrow> resource_id option \<times> 'w resource_scope" where
  "register cleanup s =
     (if rs_closed s then (None, s)
      else let i = \<lparr>rid_owner = rs_owner s, rid_ordinal = rs_next_ordinal s\<rparr>
        in if rs_next_ordinal s = - 1 then (None, s)
           else (Some i, s\<lparr>rs_next_ordinal := rs_next_ordinal s + 1,
             rs_resources := rs_resources s @ [\<lparr>rr_id = i, rr_cleanup = Some cleanup\<rparr>]\<rparr>))"

fun close_loop ::
  "secret_store \<Rightarrow> 'w registered_resource list \<Rightarrow> 'w \<Rightarrow> cleanup_outcome list \<Rightarrow> (cleanup_outcome list \<times> 'w) option" where
  "close_loop secrets [] w outs = Some (outs, w)"
| "close_loop secrets (r # popped) w outs =
     (case rr_cleanup r of
        None \<Rightarrow> None
      | Some cleanup \<Rightarrow>
          (case cleanup w of
             (Ok _, w') \<Rightarrow>
               close_loop secrets popped w' (outs @ [\<lparr>co_resource = rr_id r, co_status = Succeeded\<rparr>])
           | (Err message, w') \<Rightarrow>
               (case redact_text secrets message of
                  None \<Rightarrow> None
                | Some text \<Rightarrow>
                    close_loop secrets popped w' (outs @ [\<lparr>co_resource = rr_id r, co_status = Failed text\<rparr>]))))"

definition close_scope ::
  "secret_store \<Rightarrow> 'w resource_scope \<Rightarrow> 'w \<Rightarrow> (cleanup_outcome list \<times> 'w resource_scope \<times> 'w) option" where
  "close_scope secrets s w =
     (if rs_closed s then Some ([], s, w)
      else map_option (\<lambda>(outs, w'). (outs, s\<lparr>rs_closed := True, rs_resources := []\<rparr>, w'))
        (close_loop secrets (rev (rs_resources s)) w []))"

fun drop_loop :: "'w registered_resource list \<Rightarrow> 'w \<Rightarrow> 'w" where
  "drop_loop [] w = w"
| "drop_loop (r # popped) w =
     (case rr_cleanup r of None \<Rightarrow> drop_loop popped w | Some cleanup \<Rightarrow> drop_loop popped (snd (cleanup w)))"

definition drop_scope :: "'w resource_scope \<Rightarrow> 'w \<Rightarrow> 'w" where
  "drop_scope s w = (if rs_closed s then w else drop_loop (rev (rs_resources s)) w)"

fun register_all :: "'w cleanup list \<Rightarrow> 'w resource_scope \<Rightarrow> resource_id option list \<times> 'w resource_scope" where
  "register_all [] s = ([], s)"
| "register_all (c # cs) s =
     (case register c s of (i, s') \<Rightarrow> case register_all cs s' of (is, s'') \<Rightarrow> (i # is, s''))"

definition run_cleanups :: "'w cleanup list \<Rightarrow> 'w \<Rightarrow> 'w" where
  "run_cleanups cs w = foldl (\<lambda>w c. snd (c w)) w cs"

definition registration :: "u64 \<Rightarrow> nat \<Rightarrow> resource_id" where
  "registration owner k = \<lparr>rid_owner = owner, rid_ordinal = of_nat k\<rparr>"

lemma ordinal_bound: "n < 2 ^ 32 - 1 \<Longrightarrow> (of_nat n :: 32 word) \<noteq> - 1"
proof
  assume n: "n < 2 ^ 32 - 1" and e: "(of_nat n :: 32 word) = - 1"
  have "unat (of_nat n :: 32 word) = n" using n by (simp add: unsigned_of_nat take_bit_nat_eq_self)
  moreover have "unat (- 1 :: 32 word) = 2 ^ 32 - 1" by (simp add: unsigned_minus_1_eq_mask mask_eq_exp_minus_1)
  ultimately show False using n e by simp
qed

lemma registration_inj: "j < 2 ^ 32 \<Longrightarrow> k < 2 ^ 32 \<Longrightarrow> registration ow j = registration ow k \<Longrightarrow> j = k"
proof -
  assume jk: "j < 2 ^ 32" "k < 2 ^ 32" and "registration ow j = registration ow k"
  then have "unat (of_nat j :: 32 word) = unat (of_nat k :: 32 word)" by (simp add: registration_def)
  with jk show "j = k" by (simp add: unsigned_of_nat take_bit_nat_eq_self)
qed

lemma register_all_eq:
  assumes "k + length cs < 2 ^ 32" "\<not> rs_closed s" "rs_next_ordinal s = of_nat k"
  shows "register_all cs s =
    (map (\<lambda>j. Some (registration (rs_owner s) j)) [k..<k + length cs],
     s\<lparr>rs_next_ordinal := of_nat (k + length cs),
       rs_resources := rs_resources s @
         map2 (\<lambda>j c. \<lparr>rr_id = registration (rs_owner s) j, rr_cleanup = Some c\<rparr>) [k..<k + length cs] cs\<rparr>)"
  using assms
proof (induction cs arbitrary: k s)
  case (Cons c cs)
  let ?s = "snd (register c s)"
  have n: "(of_nat k :: 32 word) \<noteq> - 1" using Cons.prems(1) by (intro ordinal_bound) simp
  have r: "register c s = (Some (registration (rs_owner s) k),
      s\<lparr>rs_next_ordinal := of_nat (Suc k),
        rs_resources := rs_resources s @ [\<lparr>rr_id = registration (rs_owner s) k, rr_cleanup = Some c\<rparr>]\<rparr>)"
    using Cons.prems n by (simp add: register_def registration_def Let_def add.commute)
  have "register_all cs ?s = (map (\<lambda>j. Some (registration (rs_owner ?s) j)) [Suc k..<Suc k + length cs],
     ?s\<lparr>rs_next_ordinal := of_nat (Suc k + length cs),
       rs_resources := rs_resources ?s @
         map2 (\<lambda>j c. \<lparr>rr_id = registration (rs_owner ?s) j, rr_cleanup = Some c\<rparr>) [Suc k..<Suc k + length cs] cs\<rparr>)"
    using Cons.prems r by (intro Cons.IH) simp_all
  moreover have "[k..<k + length (c # cs)] = k # [Suc k..<Suc k + length cs]"
    using upt_conv_Cons [of k "k + length (c # cs)"] by simp
  ultimately show ?case using r by simp
qed simp

definition run_ok :: "'w cleanup list \<Rightarrow> bool" where
  "run_ok cs \<longleftrightarrow> (\<forall>c \<in> set cs. \<forall>w e w'. c w = (Err e, w') \<longrightarrow> valid_utf8 e)"

lemma close_loop_eq:
  assumes "store_ok secrets" "run_ok cs" "length is = length cs"
  shows "\<exists>outs. close_loop secrets (map2 (\<lambda>i c. \<lparr>rr_id = i, rr_cleanup = Some c\<rparr>) is cs) w acc
      = Some (acc @ outs, run_cleanups cs w) \<and> map co_resource outs = is"
  using assms(3,2)
proof (induction "is" cs arbitrary: w acc rule: list_induct2)
  case (Cons i "is" c cs)
  then have ok: "run_ok cs" by (simp add: run_ok_def)
  obtain r w' where c: "c w = (r, w')" by fastforce
  show ?case
  proof (cases r)
    case (Inl e)
    with Cons.prems c have "valid_utf8 e" by (auto simp: run_ok_def)
    from redact_text_returns [OF assms(1) this] obtain t where t: "redact_text secrets e = Some t" by blast
    from Cons.IH [OF ok, of w' "acc @ [\<lparr>co_resource = i, co_status = Failed t\<rparr>]"] Inl c t
    show ?thesis by (fastforce simp: run_cleanups_def)
  next
    case (Inr u)
    from Cons.IH [OF ok, of w' "acc @ [\<lparr>co_resource = i, co_status = Succeeded\<rparr>]"] Inr c
    show ?thesis by (fastforce simp: run_cleanups_def)
  qed
qed (simp add: run_cleanups_def)

lemma drop_loop_eq:
  "length is = length cs \<Longrightarrow>
     drop_loop (map2 (\<lambda>i c. \<lparr>rr_id = i, rr_cleanup = Some c\<rparr>) is cs) w = run_cleanups cs w"
  by (induction "is" cs arbitrary: w rule: list_induct2) (simp_all add: run_cleanups_def)

lemma close_registered:
  assumes ok: "store_ok secrets" "run_ok cs" and n: "length cs < 2 ^ 32"
    and r: "register_all cs (resource_scope_new owner) = (ids, s)"
  shows "\<exists>outs. close_scope secrets s w = Some (outs, s\<lparr>rs_closed := True, rs_resources := []\<rparr>, run_cleanups (rev cs) w)
      \<and> map (Some \<circ> co_resource) outs = rev ids"
    and "distinct ids" "drop_scope s w = run_cleanups (rev cs) w"
proof -
  let ?is = "map (registration owner) [0..<length cs]"
  have e: "ids = map Some ?is" "\<not> rs_closed s"
    "rs_resources s = map2 (\<lambda>i c. \<lparr>rr_id = i, rr_cleanup = Some c\<rparr>) ?is cs"
    using register_all_eq [of 0 cs "resource_scope_new owner :: 'a resource_scope"] n r
    by (auto simp: resource_scope_new_def map2_map_map zip_map1 split_def)
  have rv: "rev (rs_resources s) = map2 (\<lambda>i c. \<lparr>rr_id = i, rr_cleanup = Some c\<rparr>) (rev ?is) (rev cs)"
    unfolding e(3) by (simp add: rev_map [symmetric] zip_rev)
  have "run_ok (rev cs)" using ok(2) by (simp add: run_ok_def)
  from close_loop_eq [OF ok(1) this, of "rev ?is" w "[]"] obtain outs
    where "close_loop secrets (rev (rs_resources s)) w [] = Some (outs, run_cleanups (rev cs) w)"
      "map co_resource outs = rev ?is"
    unfolding rv by auto
  moreover from this(2) have "map (Some \<circ> co_resource) outs = rev ids"
    unfolding e(1) by (metis list.map_comp rev_map)
  ultimately show "\<exists>outs. close_scope secrets s w
      = Some (outs, s\<lparr>rs_closed := True, rs_resources := []\<rparr>, run_cleanups (rev cs) w)
      \<and> map (Some \<circ> co_resource) outs = rev ids"
    using e(2) by (simp add: close_scope_def)
  show "distinct ids"
    using n registration_inj [of _ _ owner] unfolding e(1) by (auto simp: distinct_map inj_on_def)
  show "drop_scope s w = run_cleanups (rev cs) w"
    unfolding drop_scope_def rv using e(2) by (simp add: drop_loop_eq)
qed

lemma closed_inert:
  assumes "rs_closed s"
  shows "close_scope secrets s w = Some ([], s, w) \<and> drop_scope s w = w \<and> register c s = (None, s)"
  using assms by (simp add: close_scope_def drop_scope_def register_def)

section \<open>Properties\<close>

text \<open>
  A token that latches keeps its answer. Once a token made by \<open>with_requested_cancellation\<close> or
  \<open>with_deadline\<close> reported cancellation, every later poll reports it with the same reason, whatever
  its predicates and clocks answer then and whichever tokens over the same cells were polled in
  between.
\<close>

theorem token_latches:
  assumes "latched (tk_signal t) (tk_reason t)" "token_is_cancelled w t c = (True, c1)"
  shows "fst (token_is_cancelled w' t (poll_all ps c1))
    \<and> token_reason t (snd (token_is_cancelled w' t (poll_all ps c1))) = token_reason t c1"
proof -
  from latched_trips [OF assms(1)] assms(2) have l: "c1 (tk_reason t) \<noteq> 2" by (simp add: token_is_cancelled_def)
  then have "poll_all ps c1 (tk_reason t) = c1 (tk_reason t)"
    using poll_all_settles [of c1 ps] by (simp add: settled_def)
  with l latched_settled [OF assms(1)] show ?thesis by (simp add: token_is_cancelled_def token_reason_def)
qed

text \<open>
  C30: Cancellation of a scope is sticky and its deadline only moves closer. Once a poll answered with
  a reason, then after any sequence of polls, bounded polls and narrowings in any worlds, a poll
  answers that reason; and along any sequence of operations the deadline never gets later.
\<close>

theorem cancellation_sticky:
  assumes "state_ok sc" "cancel_apply a sc = (Some r, sc1)" "run_ops cancel_exec ops sc1 = Some sc2"
  shows "fst (scope_poll w w' (fst sc2) (snd sc2)) = Some r
    \<and> (\<forall>d. cs_deadline (fst sc) = Some d \<longrightarrow> (\<exists>d'. cs_deadline (fst sc2) = Some d' \<and> d' \<le> d))"
proof -
  from cancel_apply_before [OF assms(1,2)]
  have b: "cancel_before sc sc1" "state_ok sc1" "observed (cs_state (fst sc1)) = Some r" by auto
  from cancel.run_before [OF b(2) assms(3)] have b2: "cancel_before sc1 sc2" .
  have "cs_state (fst sc1) \<noteq> 0" using b(3) by (rule observed_nonzero)
  with b2 b(3) have "observed (cs_state (fst sc2)) = Some r" by (simp add: cancel_before_def)
  moreover have "cancel_before sc sc2" using b(1) b2 by (rule cancel_before_trans)
  ultimately show ?thesis by (simp add: scope_poll_def cancel_before_def)
qed

text \<open>
  C8: Concurrent polls agree. In any interleaving of any number of threads, two polls that answer with
  a reason answer the same one, even when they ran at different times; and once some poll has
  answered, a thread that starts polling afterwards never gets the answer that nothing happened.
\<close>

theorem concurrent_polls_agree:
  assumes "polls (0, \<lambda>_. PcIdle) s" "snd s i = PcDone (Some r)" "polls s s'"
  shows "(\<forall>j r'. snd s' j = PcDone (Some r') \<longrightarrow> r' = r)
    \<and> (\<forall>j. snd s j = PcIdle \<longrightarrow> snd s' j \<noteq> PcDone None)"
proof -
  have "polls_ok (0, \<lambda>_. PcIdle)" by (simp add: polls_ok_def pc_ok_def)
  with assms(1) have ok: "polls_ok s" by (simp add: polls_okD)
  then have "pc_ok (fst s) (snd s i)" by (simp add: polls_ok_def)
  then have o: "observed (fst s) = Some r" by (simp add: assms(2) pc_ok_def)
  then have v: "fst s \<noteq> 0" by (rule observed_nonzero)
  with polls_okD [OF assms(3) ok] have ok': "polls_ok s'" "fst s' = fst s" by auto
  have "r' = r" if "snd s' j = PcDone (Some r')" for j r'
  proof -
    have "pc_ok (fst s') (snd s' j)" using ok'(1) by (simp add: polls_ok_def)
    with that o ok'(2) show ?thesis by (simp add: pc_ok_def)
  qed
  moreover have "snd s' j \<noteq> PcDone None" if "snd s j = PcIdle" for j
    using polls_after_latch [OF assms(3) ok v, of j] that by auto
  ultimately show ?thesis by blast
qed

text \<open>
  A poll is an interleaving of one thread: from any consistent state, what \<open>poll\<close> returns and the
  state it leaves are reached by that thread's own atomic steps.
\<close>

theorem poll_refines_steps:
  assumes "cs_state s \<in> {0, 1, 2}" "scope_poll w w' s c = (r, s', c')" "pcs i = PcIdle"
  shows "polls (cs_state s, pcs) (cs_state s', pcs(i := PcDone r))"
  by (rule poll_alone [where pcs = pcs and i = i, OF assms])

text \<open>
  The interval of an operation never outlives the evaluation and never wraps: its deadline is the
  sum of the reading and the timeout, cut at the largest instant and at the scope's deadline, and
  the remaining time is the difference, cut at zero.
\<close>

theorem operation_deadline_exact:
  "unat (operation_deadline w timeout s) =
     (let latest = min (unat (w_clock w (cs_clock s)) + timeout) (2 ^ 64 - 1)
      in case cs_deadline s of None \<Rightarrow> latest | Some d \<Rightarrow> min (unat d) latest)
   \<and> unat (remaining_until w d s) = unat d - unat (w_clock w (cs_clock s))"
proof -
  have t: "unat (saturating_add x (case u64_try_from timeout of Some n \<Rightarrow> n | None \<Rightarrow> - 1))
      = min (unat x + timeout) (2 ^ 64 - 1)" for x :: u64
  proof (cases "u64_try_from timeout")
    case None
    then have "2 ^ 64 \<le> timeout" by (simp add: u64_try_from_def split: if_splits)
    moreover have "unat (- 1 :: u64) = 2 ^ 64 - 1" by (simp add: unsigned_minus_1_eq_mask mask_eq_exp_minus_1)
    ultimately show ?thesis using None by (simp add: saturating_add_unat)
  next
    case (Some n)
    then have "unat n = timeout" by (simp add: u64_try_from_Some)
    with Some show ?thesis by (simp add: saturating_add_unat)
  qed
  have m: "unat (min x y) = min (unat x) (unat y)" for x y :: u64 by (simp add: min_def word_le_nat_alt)
  show ?thesis
    by (cases "cs_deadline s")
      (simp_all only: operation_deadline_def Let_def remaining_until_def narrowed_to_min saturating_sub_unat
        option.case m t simp_thms)
qed

text \<open>
  C11: Owned resources are cleaned exactly once, last registered first. When cleanups were registered
  with a new scope, closing it runs each of them once, in reverse order, through failures, and
  reports one outcome per resource in that order; afterwards closing and dropping run nothing and
  nothing can be registered. A scope dropped without being closed runs the same cleanups.
\<close>

theorem resources_cleaned_once:
  assumes "store_ok secrets" "run_ok cs" "length cs < 2 ^ 32"
    and "register_all cs (resource_scope_new owner) = (ids, s)"
  shows "distinct ids \<and> drop_scope s w = run_cleanups (rev cs) w
    \<and> (\<exists>outs s'. close_scope secrets s w = Some (outs, s', run_cleanups (rev cs) w)
        \<and> map (Some \<circ> co_resource) outs = rev ids
        \<and> close_scope secrets s' w' = Some ([], s', w') \<and> drop_scope s' w' = w' \<and> register c s' = (None, s'))"
proof -
  note c = close_registered [OF assms]
  obtain outs where o: "close_scope secrets s w
      = Some (outs, s\<lparr>rs_closed := True, rs_resources := []\<rparr>, run_cleanups (rev cs) w)"
    "map (Some \<circ> co_resource) outs = rev ids"
    using c(1) [of w] by blast
  have "rs_closed (s\<lparr>rs_closed := True, rs_resources := []\<rparr>)" by simp
  from closed_inert [OF this, of secrets w' c] o c(2,3) show ?thesis by blast
qed

subsection \<open>Witnesses\<close>

definition noon :: world where
  "noon = \<lparr>w_pred = (\<lambda>p. p = 0), w_clock = (\<lambda>_. 12)\<rparr>"

definition dawn :: world where
  "dawn = \<lparr>w_pred = (\<lambda>_. False), w_clock = (\<lambda>_. 6)\<rparr>"

definition demo_token :: cancellation_token where
  "demo_token = fst (with_deadline \<lparr>tk_signal = SgNever, tk_reason = 0\<rparr> 0 10 1 (\<lambda>_. 0))"

definition demo_cells :: cells where
  "demo_cells = (\<lambda>_. 0)(1 := 2)"

lemma demo_trips: "token_is_cancelled noon demo_token demo_cells = (True, demo_cells(1 := 1))"
  by (simp add: token_is_cancelled_def demo_token_def with_deadline_def demo_cells_def noon_def compare_exchange_def)

theorem token_latches_witness:
  "fst (token_is_cancelled dawn demo_token (poll_all [(dawn, demo_token)] (demo_cells(1 := 1))))
    \<and> token_reason demo_token
        (snd (token_is_cancelled dawn demo_token (poll_all [(dawn, demo_token)] (demo_cells(1 := 1)))))
      = token_reason demo_token (demo_cells(1 := 1))"
  by (rule token_latches [OF _ demo_trips]) (simp add: demo_token_def with_deadline_def latched_def)

definition demo_scope :: cancellation_scope where
  "demo_scope = cancellation_scope_new 1 demo_token 0 (Some 100)"

lemma demo_poll: "cancel_apply (OpPoll noon noon) (demo_scope, demo_cells)
    = (Some Timeout, demo_scope\<lparr>cs_state := 2\<rparr>, demo_cells(1 := 1))"
  by (simp add: cancel_apply_def scope_poll_def demo_scope_def cancellation_scope_new_def observed_def
      poll_reason_def demo_trips token_reason_def reason_of_def state_exchange_def reason_code_def
      demo_token_def with_deadline_def token_is_cancelled_def demo_cells_def noon_def compare_exchange_def)

theorem cancellation_sticky_witness:
  "fst (scope_poll dawn dawn (narrow_deadline 50 (demo_scope\<lparr>cs_state := 2\<rparr>)) (demo_cells(1 := 1))) = Some Timeout
    \<and> (\<exists>d'. cs_deadline (narrow_deadline 50 (demo_scope\<lparr>cs_state := 2\<rparr>)) = Some d' \<and> d' \<le> 100)"
proof -
  let ?s = "narrow_deadline 50 (demo_scope\<lparr>cs_state := 2\<rparr>)"
  have "state_ok (demo_scope, demo_cells)" "cs_deadline demo_scope = Some 100"
    by (simp_all add: state_ok_def demo_scope_def cancellation_scope_new_def)
  then show ?thesis
    using cancellation_sticky [OF _ demo_poll, of "[OpNarrow 50]" "(?s, demo_cells(1 := 1))" dawn dawn]
    by (simp add: cancel_exec_def cancel_apply_def)
qed

lemma demo_polls: "polls (0, \<lambda>_. PcIdle) (2, (\<lambda>_. PcIdle)(0 := PcDone (Some Timeout)))"
proof -
  have "poll_step (0, \<lambda>_. PcIdle) (2, \<lambda>_. PcIdle)" using poll_step.expire [of "\<lambda>_. PcIdle" 0 0] by simp
  moreover have "poll_step (2, \<lambda>_. PcIdle) (2, (\<lambda>_. PcIdle)(0 := PcDone (Some Timeout)))"
    by (rule poll_step.hit) (simp_all add: observed_def)
  ultimately show ?thesis unfolding polls_def by (meson converse_rtranclp_into_rtranclp r_into_rtranclp)
qed

theorem concurrent_polls_agree_witness:
  "\<exists>s. polls (0, \<lambda>_. PcIdle) s \<and> snd s 0 = PcDone (Some Timeout)
    \<and> \<not> (\<exists>s' j. polls s s' \<and> snd s' j = PcDone (Some Requested))
    \<and> \<not> (\<exists>s'. polls s s' \<and> snd s' 1 = PcDone None)"
proof -
  let ?s = "(2, (\<lambda>_. PcIdle)(0 := PcDone (Some Timeout)))"
  have "r' = Timeout" if "polls ?s s'" "snd s' j = PcDone (Some r')" for s' j r'
    using concurrent_polls_agree [OF demo_polls _ that(1), of 0 Timeout] that(2) by simp
  moreover have "snd s' 1 \<noteq> PcDone None" if "polls ?s s'" for s'
    using concurrent_polls_agree [OF demo_polls _ that, of 0 Timeout] by simp
  ultimately show ?thesis using demo_polls
    by (intro exI [of _ ?s]) (metis cancel_reason.distinct(1) fun_upd_same snd_conv)
qed

theorem poll_refines_steps_witness:
  "polls (0, \<lambda>_. PcIdle) (2, (\<lambda>_. PcIdle)(5 := PcDone (Some Timeout)))"
  using poll_refines_steps [of demo_scope noon noon demo_cells "Some Timeout" "demo_scope\<lparr>cs_state := 2\<rparr>"
      "demo_cells(1 := 1)" "\<lambda>_. PcIdle" 5] demo_poll
  by (simp add: cancel_apply_def demo_scope_def cancellation_scope_new_def)

definition demo_cleanups :: "nat list cleanup list" where
  "demo_cleanups = [\<lambda>w. (Ok (), w @ [1]), \<lambda>w. (Err ''no'', w @ [2])]"

theorem resources_cleaned_once_witness:
  "let (ids, s) = register_all demo_cleanups (resource_scope_new 7) in
    distinct ids \<and> drop_scope s [] = run_cleanups (rev demo_cleanups) []
    \<and> (\<exists>outs s'. close_scope store_new s [] = Some (outs, s', run_cleanups (rev demo_cleanups) [])
        \<and> map (Some \<circ> co_resource) outs = rev ids
        \<and> close_scope store_new s' [0] = Some ([], s', [0]) \<and> drop_scope s' [0] = [0]
        \<and> register (\<lambda>w. (Ok (), w)) s' = (None, s'))"
proof -
  have "run_ok demo_cleanups" "length demo_cleanups < 2 ^ 32"
    by (auto simp: demo_cleanups_def run_ok_def valid_utf8_ascii)
  from resources_cleaned_once [OF store_new_ok this prod.collapse [symmetric]] show ?thesis
    unfolding split_def Let_def by blast
qed

end
