(* ===== verification/Outcome.thy ===== *)
theory Outcome
  imports Value Source Authority Lifetime
begin

section \<open>Outcomes and their metadata\<close>

text \<open>
  The model of \<^verbatim>\<open>crates/opaal-runtime/src/seam.rs\<close> and \<^verbatim>\<open>outcome.rs\<close>: the metadata of a call and of an
  outcome, the primary result of an execution boundary with its ordered evidence, and their
  composition. The lemmas show that composition never loses or reorders evidence, never replaces a
  primary, and promotes the first cleanup failure exactly when there is none.
\<close>

subsection \<open>Metadata of calls and outcomes\<close>

datatype opaque_slot = SlotAbsent | SlotUnknown

record action_id =
  act_module :: module_id
  act_name :: string
  act_contract_digest :: string

record project_id =
  pj_name :: string
  pj_manifest_path :: string
  pj_root :: string
  pj_manifest_digest :: string

record task_id =
  tsk_project :: project_id
  tsk_name :: string

record tool_id =
  tool_project :: project_id
  tool_name :: string

record environment_id =
  eid_project :: project_id
  eid_name :: string

type_synonym effect_set = "(request_key \<times> capability_request) list"

record call_metadata =
  cm_evaluation_context :: "u64 option"
  cm_effects :: effect_set
  cm_capability_request :: "capability_request option"
  cm_authority_verdict :: "authority_verdict option"
  cm_resource_owner :: "u64 option"
  cm_cancellation_scope :: "u64 option"
  cm_deadline :: "u64 option"
  cm_action :: "action_id option"
  cm_project :: "project_id option"
  cm_task :: "task_id option"
  cm_tool :: "tool_id option"
  cm_environment :: "environment_id option"
  cm_declared_inputs :: opaque_slot
  cm_declared_outputs :: opaque_slot

definition call_foundation :: call_metadata where
  "call_foundation =
     \<lparr>cm_evaluation_context = None, cm_effects = effect_set_new [], cm_capability_request = None,
      cm_authority_verdict = None, cm_resource_owner = None, cm_cancellation_scope = None,
      cm_deadline = None, cm_action = None, cm_project = None, cm_task = None, cm_tool = None,
      cm_environment = None, cm_declared_inputs = SlotAbsent, cm_declared_outputs = SlotAbsent\<rparr>"

definition call_operational ::
  "u64 \<Rightarrow> effect_set \<Rightarrow> capability_request option \<Rightarrow> authority_verdict option \<Rightarrow> u64 \<Rightarrow> u64 \<Rightarrow> u64 option
     \<Rightarrow> call_metadata" where
  "call_operational evaluation_context effects request v resource_owner cancellation_scope deadline =
     \<lparr>cm_evaluation_context = Some evaluation_context, cm_effects = effects,
      cm_capability_request = request, cm_authority_verdict = v,
      cm_resource_owner = Some resource_owner, cm_cancellation_scope = Some cancellation_scope,
      cm_deadline = deadline, cm_action = None, cm_project = None, cm_task = None, cm_tool = None,
      cm_environment = None, cm_declared_inputs = SlotAbsent, cm_declared_outputs = SlotAbsent\<rparr>"

definition with_action :: "action_id \<Rightarrow> call_metadata \<Rightarrow> call_metadata" where
  "with_action action m = m\<lparr>cm_action := Some action\<rparr>"

definition with_declared_request :: "capability_request \<Rightarrow> call_metadata \<Rightarrow> call_metadata" where
  "with_declared_request request m =
     m\<lparr>cm_effects := effect_set_new [request], cm_capability_request := Some request\<rparr>"

definition with_project_task ::
  "project_id \<Rightarrow> task_id \<Rightarrow> environment_id \<Rightarrow> call_metadata \<Rightarrow> call_metadata" where
  "with_project_task project task env m =
     m\<lparr>cm_project := Some project, cm_task := Some task, cm_environment := Some env\<rparr>"

definition call_is_foundation_only :: "call_metadata \<Rightarrow> bool" where
  "call_is_foundation_only m \<longleftrightarrow>
     cm_evaluation_context m = None \<and> effect_set_is_empty (cm_effects m)
       \<and> cm_capability_request m = None \<and> cm_authority_verdict m = None
       \<and> cm_resource_owner m = None \<and> cm_cancellation_scope m = None \<and> cm_deadline m = None
       \<and> cm_action m = None \<and> cm_project m = None \<and> cm_task m = None \<and> cm_tool m = None
       \<and> cm_environment m = None \<and> cm_declared_inputs m = SlotAbsent
       \<and> cm_declared_outputs m = SlotAbsent"

record outcome_metadata =
  om_evaluation_context :: "u64 option"
  om_resource_owner :: "u64 option"
  om_cancellation_scope :: "u64 option"
  om_deadline :: "u64 option"
  om_cleanup :: "cleanup_outcome list"

definition outcome_foundation :: outcome_metadata where
  "outcome_foundation =
     \<lparr>om_evaluation_context = None, om_resource_owner = None, om_cancellation_scope = None,
      om_deadline = None, om_cleanup = []\<rparr>"

definition outcome_operational ::
  "u64 \<Rightarrow> u64 \<Rightarrow> u64 \<Rightarrow> u64 option \<Rightarrow> cleanup_outcome list \<Rightarrow> outcome_metadata" where
  "outcome_operational evaluation_context resource_owner cancellation_scope deadline cleanup =
     \<lparr>om_evaluation_context = Some evaluation_context, om_resource_owner = Some resource_owner,
      om_cancellation_scope = Some cancellation_scope, om_deadline = deadline, om_cleanup = cleanup\<rparr>"

definition outcome_is_foundation_only :: "outcome_metadata \<Rightarrow> bool" where
  "outcome_is_foundation_only m \<longleftrightarrow>
     om_evaluation_context m = None \<and> om_resource_owner m = None \<and> om_cancellation_scope m = None
       \<and> om_deadline m = None \<and> om_cleanup m = []"

subsection \<open>Primary outcomes and evidence\<close>

datatype refusal_reason = RefusedDenied | RefusedUnsupported | RefusedUnknown

definition refusal_reason_name :: "refusal_reason \<Rightarrow> string" where
  "refusal_reason_name r =
     (case r of
        RefusedDenied \<Rightarrow> ''denied''
      | RefusedUnsupported \<Rightarrow> ''unsupported''
      | RefusedUnknown \<Rightarrow> ''unknown'')"

record refusal =
  rf_reason :: refusal_reason
  rf_operation :: string
  rf_span :: span

definition refusal_display :: "refusal \<Rightarrow> string" where
  "refusal_display r =
     refusal_reason_name (rf_reason r) @ '' operation `'' @ rf_operation r
       @ ''` was refused before execution''"

datatype fatal_host_failure_kind = FatalOutput | FatalReporting | FatalSession

definition fatal_kind_name :: "fatal_host_failure_kind \<Rightarrow> string" where
  "fatal_kind_name k =
     (case k of
        FatalOutput \<Rightarrow> ''output''
      | FatalReporting \<Rightarrow> ''reporting''
      | FatalSession \<Rightarrow> ''session'')"

record fatal_host_failure =
  fh_kind :: fatal_host_failure_kind
  fh_message :: string

definition fatal_display :: "fatal_host_failure \<Rightarrow> string" where
  "fatal_display f = fatal_kind_name (fh_kind f) @ '' failure: '' @ fh_message f"

record completed_evidence =
  ce_operation :: string
  ce_status :: "status option"

record partial_effect_evidence =
  pe_operation :: string
  pe_detail :: string

record cancellation =
  cn_reason :: cancel_reason
  cn_span :: span

datatype ('t, 'e) primary_outcome =
    PrimaryCompleted 't
  | PrimaryError 'e
  | PrimaryCancelled cancellation
  | PrimaryRefused refusal
  | PrimaryFatal fatal_host_failure

datatype 'e outcome_evidence =
    EvidenceCompleted completed_evidence
  | EvidencePartialEffect partial_effect_evidence
  | EvidenceCleanupFailure 'e

record ('t, 'e) execution_outcome =
  eo_primary :: "('t, 'e) primary_outcome"
  eo_evidence :: "'e outcome_evidence list"
  eo_downstream :: outcome_metadata

definition outcome_new ::
  "('t, 'e) primary_outcome \<Rightarrow> 'e outcome_evidence list \<Rightarrow> ('t, 'e) execution_outcome" where
  "outcome_new primary evidence =
     \<lparr>eo_primary = primary, eo_evidence = evidence, eo_downstream = outcome_foundation\<rparr>"

definition with_downstream ::
  "('t, 'e) primary_outcome \<Rightarrow> 'e outcome_evidence list \<Rightarrow> outcome_metadata \<Rightarrow> ('t, 'e) execution_outcome" where
  "with_downstream primary evidence downstream =
     \<lparr>eo_primary = primary, eo_evidence = evidence, eo_downstream = downstream\<rparr>"

definition is_cleanup_failure :: "'e outcome_evidence \<Rightarrow> bool" where
  "is_cleanup_failure item \<longleftrightarrow> (case item of EvidenceCleanupFailure _ \<Rightarrow> True | _ \<Rightarrow> False)"

fun first_position :: "('a \<Rightarrow> bool) \<Rightarrow> 'a list \<Rightarrow> nat option" where
  "first_position P [] = None"
| "first_position P (x # xs) = (if P x then Some 0 else map_option Suc (first_position P xs))"

datatype missing_primary = MissingPrimary

text \<open>The outer option is the \<open>unreachable!\<close> of the code.\<close>

definition compose_outcome ::
  "('t, 'e) primary_outcome option \<Rightarrow> 'e outcome_evidence list
     \<Rightarrow> (('t, 'e) execution_outcome, missing_primary) result option" where
  "compose_outcome primary evidence =
     (case primary of
        Some p \<Rightarrow> Some (Ok (outcome_new p evidence))
      | None \<Rightarrow>
          (case first_position is_cleanup_failure evidence of
             None \<Rightarrow> Some (Err MissingPrimary)
           | Some index \<Rightarrow>
               (case evidence ! index of
                  EvidenceCleanupFailure e \<Rightarrow>
                    Some (Ok (outcome_new (PrimaryError e) (take index evidence @ drop (Suc index) evidence)))
                | _ \<Rightarrow> None)))"

lemma first_position_Some:
  "first_position P xs = Some i \<Longrightarrow> i < length xs \<and> P (xs ! i) \<and> (\<forall>x \<in> set (take i xs). \<not> P x)"
  by (induction xs arbitrary: i) (auto split: if_splits)

lemma first_position_None: "first_position P xs = None \<longleftrightarrow> (\<forall>x \<in> set xs. \<not> P x)"
  by (induction xs) auto

text \<open>
  Composition of an outcome never panics. A known primary is kept with all of its evidence; without
  one the first cleanup failure becomes the primary and the other evidence keeps its order; there is
  no outcome exactly when neither exists.
\<close>

theorem compose_outcome_exact:
  "case compose_outcome primary evidence of
     Some (Ok r) \<Rightarrow>
       (case primary of
          Some p \<Rightarrow> eo_primary r = p \<and> eo_evidence r = evidence
        | None \<Rightarrow> \<exists>as e bs. evidence = as @ EvidenceCleanupFailure e # bs \<and> eo_primary r = PrimaryError e
            \<and> eo_evidence r = as @ bs \<and> \<not> list_ex is_cleanup_failure as)
   | Some (Err _) \<Rightarrow> primary = None \<and> \<not> list_ex is_cleanup_failure evidence
   | None \<Rightarrow> False"
proof (cases primary)
  case (Some p)
  then show ?thesis by (simp add: compose_outcome_def outcome_new_def)
next
  case None
  show ?thesis
  proof (cases "first_position is_cleanup_failure evidence")
    case none: None
    then have "\<not> list_ex is_cleanup_failure evidence" by (simp add: first_position_None list_ex_iff)
    with None none show ?thesis by (simp add: compose_outcome_def)
  next
    case (Some i)
    note first = first_position_Some [OF Some]
    then obtain e where e: "evidence ! i = EvidenceCleanupFailure e"
      by (auto simp: is_cleanup_failure_def split: outcome_evidence.splits)
    have "evidence = take i evidence @ EvidenceCleanupFailure e # drop (Suc i) evidence"
      using first id_take_nth_drop [of i evidence] e by simp
    moreover have "\<not> list_ex is_cleanup_failure (take i evidence)" using first by (simp add: list_ex_iff)
    ultimately show ?thesis using None Some e
      by (auto simp: compose_outcome_def outcome_new_def)
  qed
qed

end
