(* ===== verification/Operational_Context.thy ===== *)
theory Operational_Context
  imports Outcome
begin

section \<open>The operational context\<close>

text \<open>
  The model of \<^verbatim>\<open>crates/opaal-runtime/src/context.rs\<close> and of the gate in \<^verbatim>\<open>operational/mod.rs\<close>: the one
  record that joins the authority, the cancellation scope, the cleanup stack and the secrets of an
  evaluation, with \<open>authorize\<close> and \<open>adapter_error\<close>, through which every effectful operation passes. A poll
  of the cancellation scope reads the world at two moments, so a call takes the worlds its polls
  see. The platform's enforcement answer is an argument, as in the theory of the authority.
\<close>

subsection \<open>Errors\<close>

text \<open>The standard library's \<open>io::ErrorKind\<close> by its name.\<close>

datatype operational_error_kind =
    OeInvalidInput | OeNotFound | OeNotRegular | OeSymlink | OeOutsideRoot | OeAlreadyExists
  | OeLimitExceeded | OeCancelled | OeTimedOut | OeUnsupported | OeNetwork | OeTls | OeProtocol
  | OeIo string

record operational_error =
  oe_kind :: operational_error_kind
  oe_message :: string

datatype module_error =
    ModInvalid string string
  | ModAuthority authority_verdict
  | ModCancelled cancel_reason
  | ModAdapter operational_error

definition module_error_code :: "module_error \<Rightarrow> string" where
  "module_error_code e =
     (case e of
        ModInvalid code _ \<Rightarrow> code
      | ModAuthority _ \<Rightarrow> ''OPERATION002''
      | ModCancelled _ \<Rightarrow> ''OPERATION003''
      | ModAdapter _ \<Rightarrow> ''OPERATION004'')"

definition module_error_from :: "operational_error \<Rightarrow> module_error" where
  "module_error_from e =
     (case oe_kind e of
        OeCancelled \<Rightarrow> ModCancelled Requested
      | OeTimedOut \<Rightarrow> ModCancelled Timeout
      | _ \<Rightarrow> ModAdapter e)"

definition STANDARD_MODULES :: "string list" where
  "STANDARD_MODULES =
     [''std::random'', ''std::io'', ''std::data'', ''std::path'', ''std::filesystem'', ''std::time'',
      ''std::version'', ''std::integrity'', ''std::url'', ''std::http'', ''std::process'', ''std::docker'']"

definition is_source_module :: "string \<Rightarrow> bool" where
  "is_source_module m \<longleftrightarrow> m \<noteq> ''data'' \<and> list_ex (\<lambda>c. c = ''std::'' @ m) STANDARD_MODULES"

subsection \<open>The context\<close>

record 'w operational_context =
  oc_authority :: authority_context
  oc_cancellation :: cancellation_scope
  oc_resources :: "'w resource_scope"
  oc_secrets :: secret_store

definition context_new ::
  "authority_context \<Rightarrow> cancellation_token \<Rightarrow> nat \<Rightarrow> u64 option \<Rightarrow> 'w operational_context" where
  "context_new authority token clock deadline =
     (let evaluation = ac_evaluation authority
      in \<lparr>oc_authority = authority,
          oc_cancellation = cancellation_scope_new evaluation token clock deadline,
          oc_resources = resource_scope_new evaluation,
          oc_secrets = store_new\<rparr>)"

text \<open>The cell of the fresh token and the other cells are passed as in the theory of the tokens.\<close>

definition context_empty ::
  "u64 \<Rightarrow> nat \<Rightarrow> nat \<Rightarrow> cells \<Rightarrow> 'w operational_context \<times> cells" where
  "context_empty evaluation clock a c =
     (case token_never a c of
        (token, c') \<Rightarrow> (context_new (authority_context_empty evaluation) token clock None, c'))"

definition context_narrow_deadline :: "u64 \<Rightarrow> 'w operational_context \<Rightarrow> 'w operational_context" where
  "context_narrow_deadline d ctx = ctx\<lparr>oc_cancellation := narrow_deadline d (oc_cancellation ctx)\<rparr>"

definition poll_cancellation ::
  "world \<times> world \<Rightarrow> 'w operational_context \<Rightarrow> cells
     \<Rightarrow> cancel_reason option \<times> 'w operational_context \<times> cells" where
  "poll_cancellation ws ctx c =
     (case scope_poll (fst ws) (snd ws) (oc_cancellation ctx) c of
        (r, s, c') \<Rightarrow> (r, ctx\<lparr>oc_cancellation := s\<rparr>, c'))"

definition context_verdict ::
  "'w operational_context \<Rightarrow> effect_set \<Rightarrow> capability_request
     \<Rightarrow> (authority_query \<Rightarrow> authority_enforcement) \<Rightarrow> authority_verdict" where
  "context_verdict ctx effects request platform =
     (if effect_set_contains effects request then verdict (oc_authority ctx) request platform
      else Unknown)"

definition call_metadata_of ::
  "'w operational_context \<Rightarrow> effect_set \<Rightarrow> capability_request option
     \<Rightarrow> (authority_query \<Rightarrow> authority_enforcement) \<Rightarrow> call_metadata" where
  "call_metadata_of ctx effects request platform =
     call_operational (ac_evaluation (oc_authority ctx)) effects request
       (map_option (\<lambda>r. context_verdict ctx effects r platform) request)
       (rs_owner (oc_resources ctx)) (cs_id (oc_cancellation ctx)) (cs_deadline (oc_cancellation ctx))"

definition register_resource ::
  "'w cleanup \<Rightarrow> 'w operational_context \<Rightarrow> resource_id option \<times> 'w operational_context" where
  "register_resource cleanup ctx =
     (case register cleanup (oc_resources ctx) of (i, rs) \<Rightarrow> (i, ctx\<lparr>oc_resources := rs\<rparr>))"

definition insert_secret ::
  "(string \<Rightarrow> string option) \<Rightarrow> secret \<Rightarrow> 'w operational_context
     \<Rightarrow> ((unit, secret_error) result \<times> 'w operational_context) option" where
  "insert_secret to_vec s ctx =
     map_option (\<lambda>(r, st). (r, ctx\<lparr>oc_secrets := st\<rparr>)) (store_insert to_vec s (oc_secrets ctx))"

definition contains_secret :: "'w operational_context \<Rightarrow> string \<Rightarrow> bool" where
  "contains_secret ctx i \<longleftrightarrow> store_contains (oc_secrets ctx) i"

definition consume_secret_with_cancellation ::
  "string \<Rightarrow> (string \<Rightarrow> cancellation_scope \<Rightarrow> ('t, 'e) result) \<Rightarrow> 'w operational_context
     \<Rightarrow> ('t option, 'e) result \<times> 'w operational_context" where
  "consume_secret_with_cancellation i sink ctx =
     (case consume_with i (\<lambda>bytes. sink bytes (oc_cancellation ctx)) (oc_secrets ctx) of
        (r, st) \<Rightarrow> (r, ctx\<lparr>oc_secrets := st\<rparr>))"

definition context_redact_bytes :: "'w operational_context \<Rightarrow> string \<Rightarrow> string option" where
  "context_redact_bytes ctx input = redact_bytes (oc_secrets ctx) input"

definition context_redact_text :: "'w operational_context \<Rightarrow> string \<Rightarrow> string option" where
  "context_redact_text ctx input = redact_text (oc_secrets ctx) input"

text \<open>\<open>finish\<close> consumes the context; the outer option is a panic of a cleanup's report.\<close>

definition finish ::
  "'w operational_context \<Rightarrow> ('t, 'e) primary_outcome \<Rightarrow> 'e outcome_evidence list \<Rightarrow> 'w
     \<Rightarrow> (('t, 'e) execution_outcome \<times> 'w) option" where
  "finish ctx primary evidence w =
     (case close_scope (oc_secrets ctx) (oc_resources ctx) w of
        None \<Rightarrow> None
      | Some (cleanup, rs, w') \<Rightarrow>
          Some (with_downstream primary evidence
            (outcome_operational (ac_evaluation (oc_authority ctx)) (rs_owner rs)
              (cs_id (oc_cancellation ctx)) (cs_deadline (oc_cancellation ctx)) cleanup), w'))"

subsection \<open>The gate\<close>

definition authorize ::
  "world \<times> world \<Rightarrow> effect_set \<Rightarrow> capability_request \<Rightarrow> (authority_query \<Rightarrow> authority_enforcement)
     \<Rightarrow> 'w operational_context \<Rightarrow> cells \<Rightarrow> (unit, module_error) result \<times> 'w operational_context \<times> cells" where
  "authorize ws effects request platform ctx c =
     (case poll_cancellation ws ctx c of
        (Some reason, ctx', c') \<Rightarrow> (Err (ModCancelled reason), ctx', c')
      | (None, ctx', c') \<Rightarrow>
          let v = context_verdict ctx' effects request platform
          in (if is_executable v then Ok () else Err (ModAuthority v), ctx', c'))"

text \<open>The outer option is a panic of the redaction.\<close>

definition adapter_error ::
  "world \<times> world \<Rightarrow> operational_error \<Rightarrow> 'w operational_context \<Rightarrow> cells
     \<Rightarrow> (module_error \<times> 'w operational_context \<times> cells) option" where
  "adapter_error ws e ctx c =
     (case context_redact_text ctx (oe_message e) of
        None \<Rightarrow> None
      | Some text \<Rightarrow>
          let e' = \<lparr>oe_kind = oe_kind e, oe_message = text\<rparr>
          in (case oe_kind e' of
                OeCancelled \<Rightarrow>
                  (case poll_cancellation ws ctx c of
                     (r, ctx', c') \<Rightarrow>
                       Some (case r of None \<Rightarrow> ModAdapter e' | Some reason \<Rightarrow> ModCancelled reason, ctx', c'))
              | OeTimedOut \<Rightarrow> Some (ModCancelled Timeout, ctx, c)
              | _ \<Rightarrow> Some (ModAdapter e', ctx, c)))"

text \<open>
  The common end of the gated operations: the adapter's result is mapped through \<open>adapter_error\<close>, and a
  result that arrives after a cancellation is dropped.
\<close>

definition adapter_result ::
  "world \<times> world \<Rightarrow> ('a, operational_error) result \<Rightarrow> 'w operational_context \<Rightarrow> cells
     \<Rightarrow> (('a, module_error) result \<times> 'w operational_context \<times> cells) option" where
  "adapter_result ws r ctx c =
     (case r of
        Err e \<Rightarrow> map_option (\<lambda>(e', ctx', c'). (Err e', ctx', c')) (adapter_error ws e ctx c)
      | Ok a \<Rightarrow>
          (case poll_cancellation ws ctx c of
             (Some reason, ctx', c') \<Rightarrow> Some (Err (ModCancelled reason), ctx', c')
           | (None, ctx', c') \<Rightarrow> Some (Ok a, ctx', c')))"

subsection \<open>What the gate keeps\<close>

text \<open>
  No operation changes the authority or the owner of the cleanups, and the cells and scope evolve as
  along polls of the scope.
\<close>

definition same_authority :: "'w operational_context \<Rightarrow> 'w operational_context \<Rightarrow> bool" where
  "same_authority ctx ctx' \<longleftrightarrow>
     oc_authority ctx' = oc_authority ctx \<and> oc_secrets ctx' = oc_secrets ctx
       \<and> oc_resources ctx' = oc_resources ctx"

lemma same_authority_refl [simp]: "same_authority ctx ctx"
  by (simp add: same_authority_def)

lemma same_authority_trans: "same_authority a b \<Longrightarrow> same_authority b d \<Longrightarrow> same_authority a d"
  by (simp add: same_authority_def)

lemma poll_same: "poll_cancellation ws ctx c = (r, ctx', c') \<Longrightarrow> same_authority ctx ctx'"
  by (auto simp: poll_cancellation_def same_authority_def split: prod.splits)

lemma authorize_same: "authorize ws effects request platform ctx c = (r, ctx', c') \<Longrightarrow> same_authority ctx ctx'"
  by (auto simp: authorize_def Let_def dest: poll_same split: prod.splits option.splits)

lemma verdict_same:
  "same_authority ctx ctx' \<Longrightarrow> context_verdict ctx' effects request platform = context_verdict ctx effects request platform"
  by (simp add: context_verdict_def same_authority_def)

lemma authorize_Ok:
  assumes "authorize ws effects request platform ctx c = (Ok (), ctx', c')"
  shows "is_executable (context_verdict ctx effects request platform)"
    and "poll_cancellation ws ctx c = (None, ctx', c')"
  using assms
  by (auto simp: authorize_def Let_def verdict_same dest: poll_same split: prod.splits option.splits if_splits)

lemma adapter_error_same: "adapter_error ws e ctx c = Some (m, ctx', c') \<Longrightarrow> same_authority ctx ctx'"
  by (auto simp: adapter_error_def Let_def dest: poll_same
      split: option.splits prod.splits operational_error_kind.splits)

lemma adapter_result_same: "adapter_result ws r ctx c = Some (m, ctx', c') \<Longrightarrow> same_authority ctx ctx'"
  by (auto simp: adapter_result_def dest: poll_same adapter_error_same
      split: sum.splits option.splits prod.splits)

lemma adapter_result_Ok: "adapter_result ws r ctx c = Some (Ok a, ctx', c') \<Longrightarrow> r = Ok a"
  by (auto simp: adapter_result_def split: sum.splits option.splits prod.splits)

end
