(* ===== verification/Lexical_Paths.thy ===== *)
theory Lexical_Paths
  imports Operational_Context
begin

section \<open>Lexical path operations\<close>

text \<open>
  The model of \<^verbatim>\<open>crates/opaal-runtime/src/operational/path.rs\<close>: normalization, joining and containment of native paths, on the bytes of
  the path as the code works on a \<open>PathBuf\<close>. The abstract specification \<open>resolve\<close> walks the
  components with a stack; the lemmas show that the byte-level routine implements it, that what is
  granted lies under its root without a parent component, and when each refusal is given.
\<close>

subsection \<open>The standard library's paths\<close>

fun join_slash :: "string list \<Rightarrow> string" where
  "join_slash [] = []"
| "join_slash [w] = w"
| "join_slash (w # ws) = w @ CHR ''/'' # join_slash ws"

text \<open>Trailing separators and \<open>.\<close> components are no components of a path.\<close>

definition trim_end :: "string list \<Rightarrow> string list" where
  "trim_end ws = rev (dropWhile (\<lambda>w. single_component w = None) (rev ws))"

text \<open>
  \<open>Path::parent\<close>: the part of the path before its last component, without the separators and \<open>.\<close>
  components that end it. A root has no parent. \<open>PathBuf::pop\<close> answers whether there was one and
  cuts the path to it.
\<close>

definition path_parent :: "string \<Rightarrow> string option" where
  "path_parent p =
     (if is_absolute p then
        (case trim_end (split_slash (tl p)) of
           [] \<Rightarrow> None
         | ws \<Rightarrow> Some (CHR ''/'' # join_slash (trim_end (butlast ws))))
      else
        let ws = split_slash p;
            lead = (if hd ws = ''.'' then [''.''] else []);
            body = (if hd ws = ''.'' then tl ws else ws)
        in case trim_end body of
             [] \<Rightarrow> if lead = [] then None else Some []
           | body' \<Rightarrow> Some (join_slash (lead @ trim_end (butlast body'))))"

definition path_pop :: "string \<Rightarrow> bool \<times> string" where
  "path_pop p = (case path_parent p of Some q \<Rightarrow> (True, q) | None \<Rightarrow> (False, p))"

definition path_starts_with :: "string \<Rightarrow> string \<Rightarrow> bool" where
  "path_starts_with p base \<longleftrightarrow> prefix (path_components base) (path_components p)"

subsection \<open>The operations\<close>

text \<open>A Unix path has no prefix component, so the code's refusal of one has no case.\<close>

fun normalize_loop ::
  "string \<Rightarrow> string \<Rightarrow> path_component list \<Rightarrow> (string, module_error) result" where
  "normalize_loop path out [] = Ok out"
| "normalize_loop path out (CompRootDir # cs) = normalize_loop path (path_push out ''/'') cs"
| "normalize_loop path out (CompCurDir # cs) = normalize_loop path out cs"
| "normalize_loop path out (CompParentDir # cs) =
     (let (popped, out) = path_pop out
      in if \<not> popped \<or> out = [] \<and> is_absolute path
         then Err (ModInvalid ''PATH003'' ''a path escapes its lexical root'')
         else normalize_loop path out cs)"
| "normalize_loop path out (CompNormal v # cs) = normalize_loop path (path_push out v) cs"

definition normalize_path :: "string \<Rightarrow> (string, module_error) result" where
  "normalize_path path =
     (if path = [] then Err (ModInvalid ''PATH001'' ''a path cannot be empty'')
      else (case normalize_loop path [] (path_components path) of
          Err e \<Rightarrow> Err e
        | Ok out \<Rightarrow> Ok (if out = [] then path_push out ''.'' else out)))"

fun join_loop ::
  "string \<Rightarrow> string \<Rightarrow> string list \<Rightarrow> (string, module_error) result" where
  "join_loop root result [] = Ok result"
| "join_loop root result (component # components) =
     (if is_absolute component
      then Err (ModInvalid ''PATH005'' ''joined components must be relative'')
      else (case normalize_path (path_push result component) of
          Err e \<Rightarrow> Err e
        | Ok result \<Rightarrow>
            if \<not> path_starts_with result root
            then Err (ModInvalid ''PATH003'' ''the joined path escapes its lexical root'')
            else join_loop root result components))"

definition join_paths ::
  "string \<Rightarrow> string list \<Rightarrow> (string, module_error) result" where
  "join_paths root components =
     (case normalize_path root of
        Err e \<Rightarrow> Err e
      | Ok root \<Rightarrow>
          if \<not> is_absolute root
          then Err (ModInvalid ''PATH004'' ''the containment root must be absolute'')
          else join_loop root root components)"

definition contained :: "string \<Rightarrow> string \<Rightarrow> (string, module_error) result" where
  "contained root target =
     (case normalize_path root of
        Err e \<Rightarrow> Err e
      | Ok root \<Rightarrow>
          (case normalize_path target of
             Err e \<Rightarrow> Err e
           | Ok target \<Rightarrow>
               if \<not> is_absolute root \<or> \<not> is_absolute target \<or> \<not> path_starts_with target root
               then Err (ModInvalid ''PATH006'' ''target is outside the lexical root'')
               else Ok target))"

subsection \<open>Rendered stacks of names\<close>

text \<open>A name is a normal component; a stack of names is rendered as a path without detours.\<close>

definition is_name :: "string \<Rightarrow> bool" where
  "is_name w \<longleftrightarrow> w \<noteq> [] \<and> w \<noteq> ''.'' \<and> w \<noteq> ''..'' \<and> CHR ''/'' \<notin> set w"

definition render :: "bool \<Rightarrow> string list \<Rightarrow> string" where
  "render rooted ws = (if rooted then ''/'' else []) @ join_slash ws"

lemma single_component_name [simp]: "is_name w \<Longrightarrow> single_component w = Some (CompNormal w)"
  by (simp add: is_name_def single_component_def)

lemma name_not_absolute: "is_name w \<Longrightarrow> \<not> is_absolute w"
  by (cases w) (auto simp: is_name_def is_absolute_def)

lemma split_join: "ws \<noteq> [] \<Longrightarrow> \<forall>w \<in> set ws. CHR ''/'' \<notin> set w \<Longrightarrow> split_slash (join_slash ws) = ws"
  by (induction ws rule: join_slash.induct) (simp_all add: split_slash_plain split_slash_append)

lemma join_snoc: "ws \<noteq> [] \<Longrightarrow> join_slash (ws @ [w]) = join_slash ws @ CHR ''/'' # w"
  by (induction ws rule: join_slash.induct) simp_all

lemma join_eq_Nil: "\<forall>w \<in> set ws. is_name w \<Longrightarrow> join_slash ws = [] \<longleftrightarrow> ws = []"
  by (cases ws rule: join_slash.cases) (auto simp: is_name_def)

lemma join_last: "\<forall>w \<in> set ws. is_name w \<Longrightarrow> ws \<noteq> [] \<Longrightarrow> last (join_slash ws) \<noteq> CHR ''/''"
proof (induction ws rule: join_slash.induct)
  case (2 w)
  then show ?case by (auto simp: is_name_def dest: last_in_set)
next
  case (3 w w' ws)
  then show ?case using join_eq_Nil [of "w' # ws"] by simp
qed simp

lemma name_hd: "is_name w \<Longrightarrow> w \<noteq> [] \<and> hd w \<noteq> CHR ''/''"
  using name_not_absolute [of w] by (auto simp: is_absolute_def is_name_def)

lemma join_hd: "\<forall>w \<in> set ws. is_name w \<Longrightarrow> ws \<noteq> [] \<Longrightarrow> hd (join_slash ws) \<noteq> CHR ''/''"
  by (cases ws rule: join_slash.cases) (simp_all add: name_hd)

lemma render_absolute: "\<forall>w \<in> set ws. is_name w \<Longrightarrow> is_absolute (render rooted ws) \<longleftrightarrow> rooted"
  using join_hd [of ws] by (cases "ws = []") (auto simp: render_def is_absolute_def)

lemma map_filter_names:
  "\<forall>w \<in> set ws. is_name w \<Longrightarrow> List.map_filter single_component ws = map CompNormal ws"
  by (induction ws) (auto simp: List.map_filter_simps)

lemma name_no_slash: "\<forall>w \<in> set ws. is_name w \<Longrightarrow> \<forall>w \<in> set ws. CHR ''/'' \<notin> set w"
  by (simp add: is_name_def)

lemma single_component_Nil [simp]: "single_component [] = None"
  by (simp add: single_component_def)

lemma components_render:
  assumes "\<forall>w \<in> set ws. is_name w"
  shows "path_components (render rooted ws) = (if rooted then [CompRootDir] else []) @ map CompNormal ws"
proof (cases "ws = []")
  case True
  then show ?thesis by (simp add: path_components_def render_def is_absolute_def List.map_filter_simps)
next
  case False
  have "hd ws \<noteq> ''.''" using assms False by (cases ws) (auto simp: is_name_def)
  with False render_absolute [OF assms, of rooted] show ?thesis
    using map_filter_names [OF assms] split_join [OF False name_no_slash [OF assms]]
    by (auto simp: path_components_def render_def List.map_filter_simps)
qed

lemma push_render:
  assumes "\<forall>w \<in> set ws. is_name w" "is_name w"
  shows "path_push (render rooted ws) w = render rooted (ws @ [w])"
proof -
  have "\<not> is_absolute w" using assms(2) by (rule name_not_absolute)
  with join_last [OF assms(1)] join_eq_Nil [OF assms(1)] show ?thesis
    by (cases "ws = []") (auto simp: path_push_def render_def join_snoc)
qed

lemma trim_end_names: "\<forall>w \<in> set ws. is_name w \<Longrightarrow> trim_end ws = ws"
  by (cases ws rule: rev_cases) (simp_all add: trim_end_def)

lemma pop_render:
  assumes "\<forall>w \<in> set ws. is_name w"
  shows "path_pop (render rooted ws) =
    (if ws = [] then (False, render rooted ws) else (True, render rooted (butlast ws)))"
proof (cases "ws = []")
  case True
  then show ?thesis
    by (auto simp: path_pop_def path_parent_def render_def is_absolute_def trim_end_def
        single_component_def)
next
  case False
  then have "hd ws \<noteq> ''.''" using assms by (cases ws) (auto simp: is_name_def)
  moreover have "trim_end (butlast ws) = butlast ws"
    using assms by (intro trim_end_names) (auto dest: in_set_butlastD)
  ultimately show ?thesis
    using False render_absolute [OF assms, of rooted] split_join [OF False name_no_slash [OF assms]]
    by (auto simp: path_pop_def path_parent_def trim_end_names [OF assms] render_def
        split: list.split)
qed

lemma components_kinds:
  "path_components p = (if is_absolute p then [CompRootDir] else []) @ cs \<Longrightarrow>
     \<forall>c \<in> set cs. c = CompCurDir \<or> c = CompParentDir \<or> (\<exists>w. c = CompNormal w \<and> is_name w)"
  using split_slash_no_slash [of _ p]
  by (fastforce simp: path_components_def List.map_filter_def single_component_def is_name_def
      split: if_splits)

lemma components_rooted:
  "\<exists>cs. path_components p = (if is_absolute p then [CompRootDir] else []) @ cs"
  by (auto simp: path_components_def)

subsection \<open>The specification\<close>

text \<open>
  The components of a path walk a stack of names: a name is pushed, \<open>.\<close> stays, \<open>..\<close> pops, and
  there is no way out of the empty stack.
\<close>

fun resolve :: "string list \<Rightarrow> path_component list \<Rightarrow> string list option" where
  "resolve ws [] = Some ws"
| "resolve ws (CompNormal w # cs) = resolve (ws @ [w]) cs"
| "resolve ws (CompParentDir # cs) = (if ws = [] then None else resolve (butlast ws) cs)"
| "resolve ws (_ # cs) = resolve ws cs"

definition resolve_path :: "string \<Rightarrow> (bool \<times> string list) option" where
  "resolve_path p = map_option (\<lambda>ws. (is_absolute p, ws)) (resolve [] (path_components p))"

definition path_of :: "bool \<times> string list \<Rightarrow> string" where
  "path_of r = (if r = (False, []) then ''.'' else render (fst r) (snd r))"

lemma resolve_names:
  "resolve ws cs = Some us \<Longrightarrow> \<forall>w \<in> set ws. is_name w
     \<Longrightarrow> \<forall>c \<in> set cs. \<forall>w. c = CompNormal w \<longrightarrow> is_name w \<Longrightarrow> \<forall>w \<in> set us. is_name w"
proof (induction ws cs rule: resolve.induct)
  case (3 ws cs)
  then show ?case by (auto split: if_splits dest: in_set_butlastD)
qed auto

lemma normalize_loop_resolve:
  assumes "\<forall>c \<in> set cs. c = CompCurDir \<or> c = CompParentDir \<or> (\<exists>w. c = CompNormal w \<and> is_name w)"
    and "\<forall>w \<in> set ws. is_name w"
  shows "normalize_loop path (render (is_absolute path) ws) cs =
    (case resolve ws cs of
       Some us \<Rightarrow> Ok (render (is_absolute path) us)
     | None \<Rightarrow> Err (ModInvalid ''PATH003'' ''a path escapes its lexical root''))"
  using assms
proof (induction ws cs rule: resolve.induct)
  case (2 ws w cs)
  then show ?case by (auto simp: push_render)
next
  case (3 ws cs)
  have "render True us \<noteq> []" for us by (simp add: render_def)
  with 3 show ?case
    by (cases "is_absolute path") (auto simp: pop_render Let_def dest: in_set_butlastD)
qed auto

lemma components_root_loop:
  "normalize_loop path [] ((if is_absolute path then [CompRootDir] else []) @ cs) =
     normalize_loop path (render (is_absolute path) []) cs"
  by (simp add: path_push_def is_absolute_def render_def)

lemma normalize_resolve:
  "normalize_path p =
     (if p = [] then Err (ModInvalid ''PATH001'' ''a path cannot be empty'')
      else case resolve_path p of
        Some r \<Rightarrow> Ok (path_of r)
      | None \<Rightarrow> Err (ModInvalid ''PATH003'' ''a path escapes its lexical root''))"
proof -
  obtain cs where cs: "path_components p = (if is_absolute p then [CompRootDir] else []) @ cs"
    using components_rooted by blast
  have kinds: "\<forall>c \<in> set cs. c = CompCurDir \<or> c = CompParentDir \<or> (\<exists>w. c = CompNormal w \<and> is_name w)"
    by (rule components_kinds [OF cs])
  have res: "resolve [] (path_components p) = resolve [] cs" by (simp add: cs)
  show ?thesis
  proof (cases "resolve [] cs")
    case None
    then show ?thesis
      unfolding normalize_path_def resolve_path_def res
      by (simp add: cs components_root_loop normalize_loop_resolve [OF kinds, of "[]"])
  next
    case (Some us)
    have names: "\<forall>w \<in> set us. is_name w" using resolve_names [OF Some] kinds by auto
    have "render (is_absolute p) us = [] \<longleftrightarrow> \<not> is_absolute p \<and> us = []"
      using join_eq_Nil [OF names] by (auto simp: render_def)
    then show ?thesis
      using Some unfolding normalize_path_def resolve_path_def res
      by (auto simp: cs components_root_loop normalize_loop_resolve [OF kinds, of "[]"] path_of_def
          path_push_def is_absolute_def [of "''.''"])
  qed
qed

lemma resolve_append: "resolve ws (map CompNormal us) = Some (ws @ us)"
  by (induction us arbitrary: ws) simp_all

lemma resolve_render:
  "\<forall>w \<in> set ws. is_name w \<Longrightarrow> resolve_path (render rooted ws) = Some (rooted, ws)"
  by (simp add: resolve_path_def components_render render_absolute resolve_append)

lemma resolve_path_names: "resolve_path p = Some (rooted, ws) \<Longrightarrow> \<forall>w \<in> set ws. is_name w"
proof -
  assume "resolve_path p = Some (rooted, ws)"
  then have ws: "resolve [] (path_components p) = Some ws" by (auto simp: resolve_path_def)
  obtain cs where cs: "path_components p = (if is_absolute p then [CompRootDir] else []) @ cs"
    using components_rooted by blast
  have "\<forall>c \<in> set (path_components p). \<forall>w. c = CompNormal w \<longrightarrow> is_name w"
    using components_kinds [OF cs] by (auto simp: cs split: if_splits)
  with resolve_names [OF ws] show ?thesis by simp
qed

lemma resolve_path_root: "resolve_path p = Some (rooted, ws) \<Longrightarrow> rooted = is_absolute p"
  by (auto simp: resolve_path_def)

lemma normalize_Ok:
  "normalize_path p = Ok q \<longleftrightarrow> p \<noteq> [] \<and> (\<exists>r. resolve_path p = Some r \<and> q = path_of r)"
  by (auto simp: normalize_resolve split: option.split)

lemma path_of_absolute:
  "\<forall>w \<in> set ws. is_name w \<Longrightarrow> is_absolute (path_of (rooted, ws)) \<longleftrightarrow> rooted"
  by (auto simp: path_of_def render_absolute is_absolute_def [of "''.''"])

lemma path_of_rooted: "path_of (True, ws) = render True ws"
  by (simp add: path_of_def)

lemma map_prefix_iff: "inj f \<Longrightarrow> prefix (map f xs) (map f ys) \<longleftrightarrow> prefix xs ys"
  by (auto simp: map_mono_prefix inj_map_eq_map dest!: prefix_map_rightE)

lemma inj_CompNormal [simp]: "inj CompNormal"
  by (simp add: inj_def)

lemma starts_with_render:
  "\<forall>w \<in> set ws. is_name w \<Longrightarrow> \<forall>w \<in> set us. is_name w
     \<Longrightarrow> path_starts_with (render True us) (render True ws) \<longleftrightarrow> prefix ws us"
  using map_prefix_iff [of CompNormal ws us] by (auto simp: path_starts_with_def components_render)

lemma rooted_nonempty: "resolve_path p = Some (True, ws) \<Longrightarrow> p \<noteq> []"
  by (auto simp: resolve_path_def is_absolute_def)

lemma join_loop_under:
  "join_loop (render True rs) (render True us) cs = Ok p \<Longrightarrow> \<forall>w \<in> set rs. is_name w
     \<Longrightarrow> \<forall>w \<in> set us. is_name w \<Longrightarrow> prefix rs us
     \<Longrightarrow> \<exists>ws. p = render True (rs @ ws) \<and> (\<forall>w \<in> set ws. is_name w)"
proof (induction cs arbitrary: us)
  case Nil
  then show ?case by (auto simp: prefix_def)
next
  case (Cons c cs)
  let ?p = "path_push (render True us) c"
  from Cons.prems(1) obtain q where q: "\<not> is_absolute c" "normalize_path ?p = Ok q"
    "path_starts_with q (render True rs)" "join_loop (render True rs) q cs = Ok p"
    by (auto split: if_splits sum.splits)
  from q(2) obtain rooted vs where r: "resolve_path ?p = Some (rooted, vs)" "q = path_of (rooted, vs)"
    by (auto simp: normalize_Ok)
  have "rooted" using q(1) by (simp add: resolve_path_root [OF r(1)] path_push_def render_def is_absolute_def)
  with r resolve_path_names [OF r(1)] q(3,4) Cons show ?case
    by (auto simp: path_of_rooted starts_with_render)
qed

lemma join_loop_names:
  "\<forall>w \<in> set us. is_name w \<Longrightarrow> \<forall>w \<in> set cs. is_name w \<Longrightarrow> \<forall>w \<in> set rs. is_name w \<Longrightarrow> prefix rs us
     \<Longrightarrow> join_loop (render True rs) (render True us) cs = Ok (render True (us @ cs))"
proof (induction cs arbitrary: us)
  case (Cons c cs)
  have abs: "\<not> is_absolute c" using Cons.prems(2) by (simp add: name_not_absolute)
  have names: "\<forall>w \<in> set (us @ [c]). is_name w" using Cons.prems by auto
  have "normalize_path (render True (us @ [c])) = Ok (render True (us @ [c]))"
    using resolve_render [OF names, of True] by (simp add: normalize_Ok path_of_rooted render_def)
  with Cons.IH [OF names] Cons.prems abs names show ?case
    by (simp add: push_render starts_with_render)
qed simp

lemma contained_iff:
  "contained root target = Ok p \<longleftrightarrow>
     (\<exists>rs ws. resolve_path root = Some (True, rs) \<and> resolve_path target = Some (True, rs @ ws)
        \<and> p = render True (rs @ ws))"
proof
  assume "contained root target = Ok p"
  then obtain r t where n: "normalize_path root = Ok r" "normalize_path target = Ok t" "p = t"
    and ok: "is_absolute r" "is_absolute t" "path_starts_with t r"
    by (auto simp: contained_def split: sum.splits if_splits)
  from n obtain a rs b ts where r: "resolve_path root = Some (a, rs)" "r = path_of (a, rs)"
    and t: "resolve_path target = Some (b, ts)" "t = path_of (b, ts)" by (auto simp: normalize_Ok)
  note names = resolve_path_names [OF r(1)] resolve_path_names [OF t(1)]
  from ok names r t have "a" "b" by (simp_all add: path_of_absolute)
  with ok(3) r t n(3) names show "\<exists>rs ws. resolve_path root = Some (True, rs)
    \<and> resolve_path target = Some (True, rs @ ws) \<and> p = render True (rs @ ws)"
    by (auto simp: path_of_rooted starts_with_render prefix_def)
next
  assume "\<exists>rs ws. resolve_path root = Some (True, rs) \<and> resolve_path target = Some (True, rs @ ws)
    \<and> p = render True (rs @ ws)"
  then obtain rs ws where r: "resolve_path root = Some (True, rs)"
    and t: "resolve_path target = Some (True, rs @ ws)" and p: "p = render True (rs @ ws)" by blast
  note names = resolve_path_names [OF r] resolve_path_names [OF t]
  have "normalize_path root = Ok (render True rs)" "normalize_path target = Ok (render True (rs @ ws))"
    using r t by (simp_all add: normalize_Ok rooted_nonempty path_of_rooted)
  then show "contained root target = Ok p"
    unfolding contained_def using names p
    by (simp add: render_absolute starts_with_render)
qed

text \<open>
  C12: Normalization computes, on the bytes of the path, what walking its components with a stack
  of names computes, and refuses exactly an empty path and one that leaves its root; a normalized
  path normalizes to itself.
\<close>

theorem normalize_refines:
  "normalize_path p =
     (if p = [] then Err (ModInvalid ''PATH001'' ''a path cannot be empty'')
      else case resolve_path p of
        Some r \<Rightarrow> Ok (path_of r)
      | None \<Rightarrow> Err (ModInvalid ''PATH003'' ''a path escapes its lexical root''))
   \<and> (case normalize_path p of Ok q \<Rightarrow> normalize_path q = Ok q | Err _ \<Rightarrow> True)"
proof -
  have "normalize_path q = Ok q" if "normalize_path p = Ok q" for q
  proof -
    from that obtain rooted ws where r: "resolve_path p = Some (rooted, ws)" "q = path_of (rooted, ws)"
      by (auto simp: normalize_Ok)
    from resolve_path_names [OF r(1)] have names: "\<forall>w \<in> set ws. is_name w" .
    show ?thesis
    proof (cases "(rooted, ws) = (False, [])")
      case True
      then show ?thesis using r by (simp add: path_of_def) code_simp
    next
      case False
      then have "q = render rooted ws" "q \<noteq> []" using r join_eq_Nil [OF names]
        by (auto simp: path_of_def render_def)
      with resolve_render [OF names, of rooted] False show ?thesis
        by (auto simp: normalize_Ok path_of_def)
    qed
  qed
  then show ?thesis by (auto simp: normalize_resolve [of p] split: option.splits sum.splits if_splits)
qed

text \<open>
  C13: A target is contained in a root exactly when both are absolute, neither leaves the root
  directory, and the target's names extend the root's; the granted path is then the target without
  detours.
\<close>

theorem contained_exact:
  "contained root target = Ok p \<longleftrightarrow>
     (\<exists>rs ws. resolve_path root = Some (True, rs) \<and> resolve_path target = Some (True, rs @ ws)
        \<and> p = render True (rs @ ws))"
  by (rule contained_iff)

text \<open>
  C14: What joining grants lies under the root without a parent component, whatever the joined
  components are; joining plain names appends them, and an absolute component is refused.
\<close>

theorem join_stays_under_root:
  assumes "resolve_path root = Some (True, rs)"
  shows "(case join_paths root cs of
      Ok p \<Rightarrow> \<exists>ws. p = render True (rs @ ws) \<and> (\<forall>w \<in> set ws. is_name w)
    | Err _ \<Rightarrow> \<not> (\<forall>w \<in> set cs. is_name w))
    \<and> ((\<forall>w \<in> set cs. is_name w) \<longrightarrow> join_paths root cs = Ok (render True (rs @ cs)))
    \<and> ((\<exists>c \<in> set cs. is_absolute c) \<longrightarrow> \<not> is_ok (join_paths root cs))"
proof -
  note names = resolve_path_names [OF assms]
  have "normalize_path root = Ok (render True rs)"
    using assms by (simp add: normalize_Ok rooted_nonempty path_of_rooted)
  then have join: "join_paths root cs = join_loop (render True rs) (render True rs) cs"
    by (simp add: join_paths_def render_absolute [OF names])
  have abs: "\<exists>c \<in> set cs. is_absolute c \<Longrightarrow> \<not> is_ok (join_loop a b cs)" for a b
    by (induction cs arbitrary: b) (auto split: sum.splits)
  have all: "\<forall>w \<in> set cs. is_name w \<Longrightarrow> join_paths root cs = Ok (render True (rs @ cs))"
    unfolding join by (rule join_loop_names [OF names _ names]) simp_all
  have under: "join_paths root cs = Ok p \<Longrightarrow> \<exists>ws. p = render True (rs @ ws) \<and> (\<forall>w \<in> set ws. is_name w)" for p
    unfolding join by (rule join_loop_under [OF _ names names]) simp_all
  from abs have "\<exists>c \<in> set cs. is_absolute c \<Longrightarrow> \<not> is_ok (join_paths root cs)" by (simp add: join)
  with all under show ?thesis by (cases "join_paths root cs") auto
qed

theorem join_stays_under_root_witness:
  "join_paths ''/srv/app'' [''logs'', ''day''] = Ok ''/srv/app/logs/day''
   \<and> \<not> is_ok (join_paths ''/srv/app'' [''a'', ''/etc''])"
proof -
  have r: "resolve_path ''/srv/app'' = Some (True, [''srv'', ''app''])" by code_simp
  have n: "is_name ''logs''" "is_name ''day''" by code_simp+
  have a: "is_absolute ''/etc''" by code_simp
  show ?thesis
    using join_stays_under_root [OF r, of "[''logs'', ''day'']"] join_stays_under_root [OF r, of "[''a'', ''/etc'']"]
      n a by (simp add: render_def)
qed

end
