(* ===== verification/Operational_Files.thy ===== *)
theory Operational_Files
  imports Lexical_Paths
begin

section \<open>Authorized file operations\<close>

text \<open>
  The model of \<^verbatim>\<open>crates/opaal-runtime/src/operational/filesystem.rs\<close>: bounded reads under an aggregate
  budget and atomic writes, each behind the path rules and the authority gate. The adapter that
  touches the host is the interface \<open>file_adapter\<close>, an argument of the operations; its contract, that
  a read returns no more bytes than were asked for, is a locale. It is interpreted on the
  deterministic adapter of \<^verbatim>\<open>crates/opaal-platform/src/operational.rs\<close>, which is modelled with its
  validation of requests. The lemmas show that the adapter sees a request only after the path was
  contained, the exact authority granted and no cancellation seen, that reads keep to the aggregate
  budget, and that what was written is read back.
\<close>

definition MAX_FILE_BYTES :: nat where
  "MAX_FILE_BYTES = 16 * 1024 * 1024"

definition MAX_TOTAL_READ_BYTES :: nat where
  "MAX_TOTAL_READ_BYTES = 32 * 1024 * 1024"

subsection \<open>The read budget\<close>

record read_budget =
  rb_used :: nat

definition admit :: "nat \<Rightarrow> read_budget \<Rightarrow> (unit, module_error) result \<times> read_budget" where
  "admit bytes budget =
     (if USIZE_MAX < rb_used budget + bytes
      then (Err (ModInvalid ''FS001'' ''aggregate read size overflow''), budget)
      else if MAX_TOTAL_READ_BYTES < rb_used budget + bytes
      then (Err (ModInvalid ''FS002'' ''aggregate reads exceed 32 MiB''), budget)
      else (Ok (), budget\<lparr>rb_used := rb_used budget + bytes\<rparr>))"

subsection \<open>The operations\<close>

record read_file_request =
  rf_root :: string
  rf_path :: string
  rf_max_bytes :: nat

record atomic_write_request =
  aw_root :: string
  aw_path :: string
  aw_bytes :: string
  aw_max_bytes :: nat

type_synonym 'h reader = "read_file_request \<Rightarrow> 'h \<Rightarrow> (string, operational_error) result \<times> 'h"
type_synonym 'h writer = "atomic_write_request \<Rightarrow> 'h \<Rightarrow> (unit, operational_error) result \<times> 'h"

text \<open>Equality of paths is that of their components.\<close>

definition path_eq :: "string \<Rightarrow> string \<Rightarrow> bool" where
  "path_eq a b \<longleftrightarrow> path_components a = path_components b"

definition read_request ::
  "string \<Rightarrow> string \<Rightarrow> string \<Rightarrow> nat
     \<Rightarrow> (string \<times> string \<times> capability_request, module_error) result" where
  "read_request authority_scope root target max_bytes =
     (if MAX_FILE_BYTES < max_bytes
      then Err (ModInvalid ''FS003'' ''one file read may request at most 16 MiB'')
      else (case normalize_path root of
          Err e \<Rightarrow> Err e
        | Ok root \<Rightarrow>
            (case contained root target of
               Err e \<Rightarrow> Err e
             | Ok target \<Rightarrow>
                 (case normalize_path authority_scope of
                    Err e \<Rightarrow> Err e
                  | Ok scope \<Rightarrow>
                      if \<not> path_eq scope root
                      then Err (ModInvalid ''FS004''
                        ''filesystem read authority must name the exact containment root'')
                      else (case filesystem_read root of
                          Err e \<Rightarrow> Err (ModInvalid ''FS004'' (request_error_display e))
                        | Ok request \<Rightarrow> Ok (root, target, request))))))"

definition write_request ::
  "string \<Rightarrow> string \<Rightarrow> string \<Rightarrow> string
     \<Rightarrow> (string \<times> string \<times> capability_request, module_error) result" where
  "write_request authority_scope root target bytes =
     (if MAX_FILE_BYTES < length bytes
      then Err (ModInvalid ''FS005'' ''one atomic write exceeds 16 MiB'')
      else (case normalize_path root of
          Err e \<Rightarrow> Err e
        | Ok root \<Rightarrow>
            (case contained root target of
               Err e \<Rightarrow> Err e
             | Ok target \<Rightarrow>
                 (case normalize_path authority_scope of
                    Err e \<Rightarrow> Err e
                  | Ok scope \<Rightarrow>
                      if \<not> path_eq scope target
                      then Err (ModInvalid ''FS006''
                        ''filesystem write authority must name the exact evidence target'')
                      else (case filesystem_write target of
                          Err e \<Rightarrow> Err (ModInvalid ''FS006'' (request_error_display e))
                        | Ok request \<Rightarrow> Ok (root, target, request))))))"

text \<open>
  What a call leaves behind, besides its result: the context and cells of the cancellation, the
  budget and the host. The worlds are those of the poll in \<open>authorize\<close> and of the poll after the
  adapter's answer. The outer option is a panic of the redaction.
\<close>

record ('w, 'h) file_state =
  fs_context :: "'w operational_context"
  fs_cells :: cells
  fs_budget :: read_budget
  fs_host :: 'h

definition file_read ::
  "(world \<times> world) \<times> (world \<times> world) \<Rightarrow> effect_set \<Rightarrow> (authority_query \<Rightarrow> authority_enforcement)
     \<Rightarrow> 'h reader \<Rightarrow> string \<Rightarrow> string \<Rightarrow> string \<Rightarrow> nat \<Rightarrow> ('w, 'h) file_state
     \<Rightarrow> ((string, module_error) result \<times> ('w, 'h) file_state) option" where
  "file_read ws effects platform read_file authority_scope root target max_bytes st =
     (case read_request authority_scope root target max_bytes of
        Err e \<Rightarrow> Some (Err e, st)
      | Ok (root, target, request) \<Rightarrow>
          (case authorize (fst ws) effects request platform (fs_context st) (fs_cells st) of
             (Err e, ctx, c) \<Rightarrow> Some (Err e, st\<lparr>fs_context := ctx, fs_cells := c\<rparr>)
           | (Ok _, ctx, c) \<Rightarrow>
               (let remaining = MAX_TOTAL_READ_BYTES - rb_used (fs_budget st);
                    (answer, host) = read_file \<lparr>rf_root = root, rf_path = target,
                      rf_max_bytes = min max_bytes remaining\<rparr> (fs_host st)
                in case adapter_result (snd ws) answer ctx c of
                     None \<Rightarrow> None
                   | Some (Err e, ctx, c) \<Rightarrow>
                       Some (Err e, st\<lparr>fs_context := ctx, fs_cells := c, fs_host := host\<rparr>)
                   | Some (Ok bytes, ctx, c) \<Rightarrow>
                       (case admit (length bytes) (fs_budget st) of
                          (r, budget) \<Rightarrow>
                            Some (case r of Err e \<Rightarrow> Err e | Ok _ \<Rightarrow> Ok bytes,
                              st\<lparr>fs_context := ctx, fs_cells := c, fs_budget := budget, fs_host := host\<rparr>)))))"

definition write_atomic ::
  "(world \<times> world) \<times> (world \<times> world) \<Rightarrow> effect_set \<Rightarrow> (authority_query \<Rightarrow> authority_enforcement)
     \<Rightarrow> 'h writer \<Rightarrow> string \<Rightarrow> string \<Rightarrow> string \<Rightarrow> string \<Rightarrow> ('w, 'h) file_state
     \<Rightarrow> ((unit, module_error) result \<times> ('w, 'h) file_state) option" where
  "write_atomic ws effects platform write_file authority_scope root target bytes st =
     (case write_request authority_scope root target bytes of
        Err e \<Rightarrow> Some (Err e, st)
      | Ok (root, target, request) \<Rightarrow>
          (case authorize (fst ws) effects request platform (fs_context st) (fs_cells st) of
             (Err e, ctx, c) \<Rightarrow> Some (Err e, st\<lparr>fs_context := ctx, fs_cells := c\<rparr>)
           | (Ok _, ctx, c) \<Rightarrow>
               (let (answer, host) = write_file \<lparr>aw_root = root, aw_path = target, aw_bytes = bytes,
                      aw_max_bytes = MAX_FILE_BYTES\<rparr> (fs_host st)
                in case adapter_result (snd ws) answer ctx c of
                     None \<Rightarrow> None
                   | Some (r, ctx, c) \<Rightarrow>
                       Some (r, st\<lparr>fs_context := ctx, fs_cells := c, fs_host := host\<rparr>))))"

subsection \<open>The deterministic adapter\<close>

fun normalized_loop :: "string \<Rightarrow> path_component list \<Rightarrow> string option" where
  "normalized_loop normalized [] = Some normalized"
| "normalized_loop normalized (CompRootDir # cs) = normalized_loop normalized cs"
| "normalized_loop normalized (CompNormal name # cs) = normalized_loop (path_push normalized name) cs"
| "normalized_loop normalized (_ # cs) = None"

definition is_normalized_absolute :: "string \<Rightarrow> bool" where
  "is_normalized_absolute p \<longleftrightarrow>
     is_absolute p
       \<and> (case normalized_loop ''/'' (path_components p) of
            None \<Rightarrow> False
          | Some normalized \<Rightarrow> path_eq normalized p)"

definition is_normal_component :: "path_component \<Rightarrow> bool" where
  "is_normal_component c \<longleftrightarrow> (case c of CompNormal _ \<Rightarrow> True | _ \<Rightarrow> False)"

definition validate_file_path :: "string \<Rightarrow> string \<Rightarrow> (unit, operational_error) result" where
  "validate_file_path root target =
     (if \<not> is_normalized_absolute root \<or> \<not> is_normalized_absolute target
        \<or> \<not> path_starts_with target root
      then Err \<lparr>oe_kind = OeOutsideRoot, oe_message = ''path is outside its lexical root''\<rparr>
      else
        let relative = drop (length (path_components root)) (path_components target)
        in if relative = [] \<or> list_ex (\<lambda>c. \<not> is_normal_component c) relative
           then Err \<lparr>oe_kind = OeInvalidInput,
             oe_message = ''file path must be a normalized child of its root''\<rparr>
           else Ok ())"

datatype operational_call =
    CallRead string string nat
  | CallWrite string string nat nat

text \<open>The map of files compares paths by their components.\<close>

record fake_files =
  ff_files :: "path_component list \<rightharpoonup> string"
  ff_calls :: "operational_call list"

definition fake_new :: fake_files where
  "fake_new = \<lparr>ff_files = Map.empty, ff_calls = []\<rparr>"

definition insert_file :: "string \<Rightarrow> string \<Rightarrow> fake_files \<Rightarrow> fake_files" where
  "insert_file path bytes st = st\<lparr>ff_files := (ff_files st)(path_components path \<mapsto> bytes)\<rparr>"

definition fake_file :: "fake_files \<Rightarrow> string \<Rightarrow> string option" where
  "fake_file st path = ff_files st (path_components path)"

definition fake_read_file :: "fake_files reader" where
  "fake_read_file request st =
     (case validate_file_path (rf_root request) (rf_path request) of
        Err e \<Rightarrow> (Err e, st)
      | Ok _ \<Rightarrow>
          let st' = st\<lparr>ff_calls := ff_calls st
                @ [CallRead (rf_root request) (rf_path request) (rf_max_bytes request)]\<rparr>
          in (case ff_files st' (path_components (rf_path request)) of
                None \<Rightarrow> Err \<lparr>oe_kind = OeNotFound, oe_message = ''fake file is absent''\<rparr>
              | Some bytes \<Rightarrow>
                  if rf_max_bytes request < length bytes
                  then Err \<lparr>oe_kind = OeLimitExceeded, oe_message = ''file exceeds its byte limit''\<rparr>
                  else Ok bytes,
              st'))"

definition fake_write_atomic :: "fake_files writer" where
  "fake_write_atomic request st =
     (case validate_file_path (aw_root request) (aw_path request) of
        Err e \<Rightarrow> (Err e, st)
      | Ok _ \<Rightarrow>
          if aw_max_bytes request < length (aw_bytes request)
          then (Err \<lparr>oe_kind = OeLimitExceeded, oe_message = ''write exceeds its byte limit''\<rparr>, st)
          else
            (Ok (), st\<lparr>ff_calls := ff_calls st
                @ [CallWrite (aw_root request) (aw_path request) (length (aw_bytes request)) (aw_max_bytes request)],
              ff_files := (ff_files st)(path_components (aw_path request) \<mapsto> aw_bytes request)\<rparr>))"

subsection \<open>What the requests ask for\<close>

lemma path_eq_rooted:
  assumes "resolve_path p = Some r" "\<forall>w \<in> set ws. is_name w" "path_eq (path_of r) (render True ws)"
  shows "r = (True, ws)"
proof -
  obtain rooted us where r: "r = (rooted, us)" by fastforce
  have names: "\<forall>w \<in> set us. is_name w" using assms(1) resolve_path_names unfolding r by blast
  show ?thesis
  proof (cases "r = (False, [])")
    case True
    have "path_components ''.'' = [CompCurDir]" by code_simp
    with assms True show ?thesis by (simp add: path_eq_def path_of_def components_render)
  next
    case False
    then have "path_of r = render rooted us" by (auto simp: path_of_def r)
    with assms(3) show ?thesis
      by (auto simp: path_eq_def components_render [OF names] components_render [OF assms(2)] r
          inj_map_eq_map split: if_splits)
  qed
qed

definition read_capability :: "string list \<Rightarrow> capability_request" where
  "read_capability ws = \<lparr>rq_effect = FilesystemRead, rq_scope = ProjectPath (render True ws)\<rparr>"

definition write_capability :: "string list \<Rightarrow> capability_request" where
  "write_capability ws = \<lparr>rq_effect = FilesystemWrite, rq_scope = ProjectPath (render True ws)\<rparr>"

lemma request_rooted:
  "\<forall>w \<in> set ws. is_name w \<Longrightarrow> project_path effect (render True ws)
     = Ok \<lparr>rq_effect = effect, rq_scope = ProjectPath (render True ws)\<rparr>"
proof -
  assume "\<forall>w \<in> set ws. is_name w"
  moreover have "path_components '''' = []" by code_simp
  ultimately show ?thesis by (simp add: project_path_def components_render)
qed

lemma normalized_contained:
  assumes "normalize_path root = Ok r" "contained r target = Ok t"
  shows "\<exists>rs us. resolve_path root = Some (True, rs) \<and> resolve_path target = Some (True, rs @ us)
    \<and> r = render True rs \<and> t = render True (rs @ us) \<and> (\<forall>w \<in> set (rs @ us). is_name w)"
proof -
  from assms(2) obtain rs us where c: "resolve_path r = Some (True, rs)"
    "resolve_path target = Some (True, rs @ us)" "t = render True (rs @ us)" by (auto simp: contained_iff)
  from assms(1) obtain rooted ws where r: "resolve_path root = Some (rooted, ws)" "r = path_of (rooted, ws)"
    by (auto simp: normalize_Ok)
  note names = resolve_path_names [OF r(1)]
  have "is_absolute r" using resolve_path_root [OF c(1)] by simp
  with r(2) names have "rooted" by (simp add: path_of_absolute)
  then have "r = render True ws" using r(2) by (simp add: path_of_rooted)
  with c(1) resolve_render [OF names, of True] have "ws = rs" by simp
  with r c \<open>rooted\<close> \<open>r = render True ws\<close> resolve_path_names [OF c(2)] show ?thesis by auto
qed

lemma read_request_Ok:
  assumes "read_request authority_scope root target n = Ok (r, t, q)"
  shows "n \<le> MAX_FILE_BYTES \<and> (\<exists>rs us. resolve_path root = Some (True, rs)
    \<and> resolve_path target = Some (True, rs @ us) \<and> resolve_path authority_scope = Some (True, rs)
    \<and> r = render True rs \<and> t = render True (rs @ us) \<and> q = read_capability rs)"
proof -
  from assms obtain sc where n: "n \<le> MAX_FILE_BYTES" and r: "normalize_path root = Ok r"
    and t: "contained r target = Ok t" and sc: "normalize_path authority_scope = Ok sc" "path_eq sc r"
    and q: "filesystem_read r = Ok q"
    by (auto simp: read_request_def split: if_splits sum.splits)
  from normalized_contained [OF r t] obtain rs us where c: "resolve_path root = Some (True, rs)"
    "resolve_path target = Some (True, rs @ us)" "r = render True rs" "t = render True (rs @ us)"
    and names: "\<forall>w \<in> set rs. is_name w" by auto
  from sc obtain x where x: "resolve_path authority_scope = Some x" "sc = path_of x"
    by (auto simp: normalize_Ok)
  with path_eq_rooted [OF x(1) names] sc(2) c(3) have "x = (True, rs)" by simp
  with c x n q names show ?thesis
    by (auto simp: filesystem_read_def request_rooted read_capability_def)
qed

lemma write_request_Ok:
  assumes "write_request authority_scope root target bytes = Ok (r, t, q)"
  shows "length bytes \<le> MAX_FILE_BYTES \<and> (\<exists>rs us. resolve_path root = Some (True, rs)
    \<and> resolve_path target = Some (True, rs @ us) \<and> resolve_path authority_scope = Some (True, rs @ us)
    \<and> r = render True rs \<and> t = render True (rs @ us) \<and> q = write_capability (rs @ us))"
proof -
  from assms obtain sc where n: "length bytes \<le> MAX_FILE_BYTES" and r: "normalize_path root = Ok r"
    and t: "contained r target = Ok t" and sc: "normalize_path authority_scope = Ok sc" "path_eq sc t"
    and q: "filesystem_write t = Ok q"
    by (auto simp: write_request_def split: if_splits sum.splits)
  from normalized_contained [OF r t] obtain rs us where c: "resolve_path root = Some (True, rs)"
    "resolve_path target = Some (True, rs @ us)" "r = render True rs" "t = render True (rs @ us)"
    and names: "\<forall>w \<in> set (rs @ us). is_name w" by auto
  from sc obtain x where x: "resolve_path authority_scope = Some x" "sc = path_of x"
    by (auto simp: normalize_Ok)
  with path_eq_rooted [OF x(1) names] sc(2) c(4) have "x = (True, rs @ us)" by simp
  with c x n q names show ?thesis
    by (auto simp: filesystem_write_def request_rooted write_capability_def)
qed

subsection \<open>What the gate lets through\<close>

text \<open>A call passed the gate with the capability \<open>q\<close>, and the adapter answered \<open>a\<close>.\<close>

definition passed_gate ::
  "world \<times> world \<Rightarrow> effect_set \<Rightarrow> (authority_query \<Rightarrow> authority_enforcement) \<Rightarrow> capability_request
     \<Rightarrow> ('w, 'h) file_state \<Rightarrow> bool" where
  "passed_gate ws effects platform q st \<longleftrightarrow>
     is_executable (context_verdict (fs_context st) effects q platform)
       \<and> fst (poll_cancellation ws (fs_context st) (fs_cells st)) = None"

lemma authorize_passed:
  "authorize ws effects q platform (fs_context st) (fs_cells st) = (Ok u, ctx, c)
     \<Longrightarrow> passed_gate ws effects platform q st"
  using authorize_Ok [of ws effects q platform "fs_context st" "fs_cells st" ctx c]
  by (simp add: passed_gate_def)

lemma admit_Ok: "admit n b = (Ok u, b') \<Longrightarrow> rb_used b' = rb_used b + n \<and> rb_used b' \<le> MAX_TOTAL_READ_BYTES"
  by (auto simp: admit_def split: if_splits)

lemma admit_Err: "admit n b = (Err e, b') \<Longrightarrow> b' = b"
  by (auto simp: admit_def split: if_splits)

lemma file_read_cases:
  assumes "file_read ws effects platform rd authority_scope root target n st = Some (r, st')"
  obtains (refused) e where "r = Err e" "fs_host st' = fs_host st" "fs_budget st' = fs_budget st"
  | (granted) rt tg q a where "read_request authority_scope root target n = Ok (rt, tg, q)"
      "passed_gate (fst ws) effects platform q st"
      "a = rd \<lparr>rf_root = rt, rf_path = tg,
        rf_max_bytes = min n (MAX_TOTAL_READ_BYTES - rb_used (fs_budget st))\<rparr> (fs_host st)"
      "fs_host st' = snd a"
      "\<And>bytes. r = Ok bytes \<Longrightarrow> fst a = Ok bytes \<and> rb_used (fs_budget st') = rb_used (fs_budget st) + length bytes
        \<and> rb_used (fs_budget st') \<le> MAX_TOTAL_READ_BYTES"
      "\<And>e. r = Err e \<Longrightarrow> fs_budget st' = fs_budget st"
proof (cases "read_request authority_scope root target n")
  case (Inl e)
  with assms refused show ?thesis by (auto simp: file_read_def)
next
  case (Inr p)
  obtain rt tg q where p: "p = (rt, tg, q)" by (metis prod_cases3)
  obtain g ctx c where g: "authorize (fst ws) effects q platform (fs_context st) (fs_cells st) = (g, ctx, c)"
    by (metis prod_cases3)
  show ?thesis
  proof (cases g)
    case (Inl e)
    with assms refused Inr p g show ?thesis by (auto simp: file_read_def)
  next
    case ok: (Inr u)
    let ?rq = "\<lparr>rf_root = rt, rf_path = tg,
      rf_max_bytes = min n (MAX_TOTAL_READ_BYTES - rb_used (fs_budget st))\<rparr>"
    obtain an h where a: "rd ?rq (fs_host st) = (an, h)" by fastforce
    from assms Inr p g ok a obtain m ctx' c' where m: "adapter_result (snd ws) an ctx c = Some (m, ctx', c')"
      by (auto simp: file_read_def split: option.splits)
    have "passed_gate (fst ws) effects platform q st" using g ok authorize_passed by blast
    moreover have "an = Ok bytes" if "m = Ok bytes" for bytes
      using adapter_result_Ok [of "snd ws" an ctx c bytes] m that by simp
    ultimately show ?thesis
      using granted [of rt tg q "(an, h)"] assms Inr p g ok a m
      by (auto simp: file_read_def dest: admit_Ok admit_Err split: sum.splits prod.splits)
  qed
qed

lemma write_atomic_cases:
  assumes "write_atomic ws effects platform wr authority_scope root target bytes st = Some (r, st')"
  obtains (refused) e where "r = Err e" "fs_host st' = fs_host st"
  | (granted) rt tg q a where "write_request authority_scope root target bytes = Ok (rt, tg, q)"
      "passed_gate (fst ws) effects platform q st"
      "a = wr \<lparr>aw_root = rt, aw_path = tg, aw_bytes = bytes, aw_max_bytes = MAX_FILE_BYTES\<rparr> (fs_host st)"
      "fs_host st' = snd a" "r = Ok () \<Longrightarrow> fst a = Ok ()"
proof (cases "write_request authority_scope root target bytes")
  case (Inl e)
  with assms refused show ?thesis by (auto simp: write_atomic_def)
next
  case (Inr p)
  obtain rt tg q where p: "p = (rt, tg, q)" by (metis prod_cases3)
  obtain g ctx c where g: "authorize (fst ws) effects q platform (fs_context st) (fs_cells st) = (g, ctx, c)"
    by (metis prod_cases3)
  show ?thesis
  proof (cases g)
    case (Inl e)
    with assms refused Inr p g show ?thesis by (auto simp: write_atomic_def)
  next
    case ok: (Inr u)
    let ?rq = "\<lparr>aw_root = rt, aw_path = tg, aw_bytes = bytes, aw_max_bytes = MAX_FILE_BYTES\<rparr>"
    obtain an h where a: "wr ?rq (fs_host st) = (an, h)" by fastforce
    from assms Inr p g ok a obtain m ctx' c' where m: "adapter_result (snd ws) an ctx c = Some (m, ctx', c')"
      by (auto simp: write_atomic_def split: option.splits)
    have "passed_gate (fst ws) effects platform q st" using g ok authorize_passed by blast
    moreover have "an = Ok ()" if "m = Ok ()"
      using adapter_result_Ok [of "snd ws" an ctx c "()"] m that by simp
    ultimately show ?thesis
      using granted [of rt tg q "(an, h)"] assms Inr p g ok a m by (auto simp: write_atomic_def)
  qed
qed

subsection \<open>The contract of a reader\<close>

locale bounded_reader =
  fixes read_file :: "'h reader"
  assumes bounded: "fst (read_file request h) = Ok bytes \<Longrightarrow> length bytes \<le> rf_max_bytes request"
begin

lemma never_over_budget:
  assumes "file_read ws effects platform read_file authority_scope root target n st = Some (r, st')"
    and "rb_used (fs_budget st) \<le> MAX_TOTAL_READ_BYTES"
  shows "rb_used (fs_budget st') \<le> MAX_TOTAL_READ_BYTES
    \<and> (case r of Ok bytes \<Rightarrow> length bytes \<le> n | Err _ \<Rightarrow> True)"
  using assms(1)
proof (cases rule: file_read_cases)
  case (refused e)
  then show ?thesis using assms(2) by simp
next
  case (granted rt tg q a)
  show ?thesis
  proof (cases r)
    case (Inl e)
    then show ?thesis using granted(6) assms(2) by simp
  next
    case (Inr bytes)
    with granted(3,5) bounded [of _ "fs_host st" bytes] show ?thesis by fastforce
  qed
qed

lemma admitted:
  assumes "rb_used (fs_budget st) \<le> MAX_TOTAL_READ_BYTES"
    and "fst (read_file \<lparr>rf_root = rt, rf_path = tg,
      rf_max_bytes = min n (MAX_TOTAL_READ_BYTES - rb_used (fs_budget st))\<rparr> h) = Ok bytes"
  shows "fst (admit (length bytes) (fs_budget st)) = Ok ()"
proof -
  have "length bytes \<le> MAX_TOTAL_READ_BYTES - rb_used (fs_budget st)" using bounded [OF assms(2)] by simp
  with assms(1) show ?thesis by (simp add: admit_def USIZE_MAX_def MAX_TOTAL_READ_BYTES_def)
qed

end

interpretation fake: bounded_reader fake_read_file
proof
  fix request h bytes
  assume "fst (fake_read_file request h) = Ok bytes"
  then show "length bytes \<le> rf_max_bytes request"
    by (auto simp: fake_read_file_def Let_def split: sum.splits option.splits if_splits)
qed

subsection \<open>The deterministic adapter and the gate\<close>

lemma normalized_loop_render:
  "\<forall>w \<in> set (ws @ us). is_name w
     \<Longrightarrow> normalized_loop (render True ws) (map CompNormal us) = Some (render True (ws @ us))"
  by (induction us arbitrary: ws) (simp_all add: push_render)

lemma render_normalized: "\<forall>w \<in> set ws. is_name w \<Longrightarrow> is_normalized_absolute (render True ws)"
  using normalized_loop_render [of "[]" ws]
  by (simp add: is_normalized_absolute_def render_absolute components_render render_def [of True "[]"] path_eq_def)

lemma validate_render:
  assumes "\<forall>w \<in> set (rs @ us). is_name w"
  shows "validate_file_path (render True rs) (render True (rs @ us)) =
    (if us = [] then Err \<lparr>oe_kind = OeInvalidInput,
       oe_message = ''file path must be a normalized child of its root''\<rparr> else Ok ())"
proof -
  have "\<forall>w \<in> set rs. is_name w" using assms by simp
  with assms show ?thesis
    by (simp add: validate_file_path_def render_normalized starts_with_render components_render
        list_ex_iff is_normal_component_def)
qed

lemma fake_write_read:
  assumes "fake_write_atomic \<lparr>aw_root = rt, aw_path = tg, aw_bytes = bytes, aw_max_bytes = m\<rparr> h = (Ok (), h')"
  shows "fst (fake_read_file \<lparr>rf_root = rt, rf_path = tg, rf_max_bytes = n\<rparr> h') =
    (if n < length bytes
     then Err \<lparr>oe_kind = OeLimitExceeded, oe_message = ''file exceeds its byte limit''\<rparr> else Ok bytes)"
  using assms
  by (auto simp: fake_write_atomic_def fake_read_file_def Let_def split: sum.splits if_splits)

text \<open>
  C4: A read reaches the host only when the target's names extend the root's, the authority names exactly
  that root and grants the read, and no cancellation is seen; it then asks for that file and no
  more bytes than the caller's limit and the rest of the aggregate budget. A refused read changes
  neither the host nor the budget, and a granted one charges the budget with exactly the bytes it
  returns.
\<close>

theorem file_read_gated:
  assumes "file_read ws effects platform rd authority_scope root target n st = Some (r, st')"
  shows "(\<exists>e. r = Err e \<and> fs_host st' = fs_host st \<and> fs_budget st' = fs_budget st)
    \<or> (\<exists>rs us a. n \<le> MAX_FILE_BYTES \<and> resolve_path root = Some (True, rs)
        \<and> resolve_path target = Some (True, rs @ us) \<and> resolve_path authority_scope = Some (True, rs)
        \<and> passed_gate (fst ws) effects platform (read_capability rs) st
        \<and> a = rd \<lparr>rf_root = render True rs, rf_path = render True (rs @ us),
            rf_max_bytes = min n (MAX_TOTAL_READ_BYTES - rb_used (fs_budget st))\<rparr> (fs_host st)
        \<and> fs_host st' = snd a
        \<and> (case r of
             Ok bytes \<Rightarrow> fst a = Ok bytes
               \<and> rb_used (fs_budget st') = rb_used (fs_budget st) + length bytes
               \<and> rb_used (fs_budget st') \<le> MAX_TOTAL_READ_BYTES
           | Err _ \<Rightarrow> fs_budget st' = fs_budget st))"
  using assms
proof (cases rule: file_read_cases)
  case (granted rt tg q a)
  from read_request_Ok [OF granted(1)] obtain rs us where "n \<le> MAX_FILE_BYTES"
    "resolve_path root = Some (True, rs)" "resolve_path target = Some (True, rs @ us)"
    "resolve_path authority_scope = Some (True, rs)" "rt = render True rs" "tg = render True (rs @ us)"
    "q = read_capability rs" by blast
  moreover have "case r of
      Ok bytes \<Rightarrow> fst a = Ok bytes \<and> rb_used (fs_budget st') = rb_used (fs_budget st) + length bytes
        \<and> rb_used (fs_budget st') \<le> MAX_TOTAL_READ_BYTES
    | Err _ \<Rightarrow> fs_budget st' = fs_budget st" using granted(5,6) by (cases r) simp_all
  ultimately show ?thesis using granted(2,3,4) by (intro disjI2 exI conjI; simp)
qed blast

text \<open>
  C19: A write reaches the host only when the target's names extend the root's, the authority names
  exactly that target and grants the write, no cancellation is seen and the bytes are at most 16 MiB;
  it then hands the adapter the contained target. A refused write leaves the host as it was.
\<close>

theorem write_atomic_gated:
  assumes "write_atomic ws effects platform wr authority_scope root target bytes st = Some (r, st')"
  shows "(\<exists>e. r = Err e \<and> fs_host st' = fs_host st)
    \<or> (\<exists>rs us. length bytes \<le> MAX_FILE_BYTES \<and> resolve_path root = Some (True, rs)
        \<and> resolve_path target = Some (True, rs @ us) \<and> resolve_path authority_scope = Some (True, rs @ us)
        \<and> passed_gate (fst ws) effects platform (write_capability (rs @ us)) st
        \<and> fs_host st' = snd (wr \<lparr>aw_root = render True rs, aw_path = render True (rs @ us),
            aw_bytes = bytes, aw_max_bytes = MAX_FILE_BYTES\<rparr> (fs_host st)))"
  using assms
proof (cases rule: write_atomic_cases)
  case (granted rt tg q a)
  with write_request_Ok [OF granted(1)] show ?thesis by (intro disjI2) blast
qed blast

lemma read_request_intro:
  assumes "n \<le> MAX_FILE_BYTES" "resolve_path root = Some (True, rs)" "resolve_path target = Some (True, rs @ us)"
    and "resolve_path authority_scope = Some (True, rs)"
  shows "read_request authority_scope root target n
    = Ok (render True rs, render True (rs @ us), read_capability rs)"
proof -
  note names = resolve_path_names [OF assms(2)]
  have n: "normalize_path root = Ok (render True rs)" "normalize_path authority_scope = Ok (render True rs)"
    using assms(2,4) by (simp_all add: normalize_Ok rooted_nonempty path_of_rooted)
  moreover have "contained (render True rs) target = Ok (render True (rs @ us))"
    using resolve_render [OF names, of True] assms(3) by (simp add: contained_iff)
  moreover have "filesystem_read (render True rs) = Ok (read_capability rs)"
    by (simp add: filesystem_read_def request_rooted [OF names] read_capability_def)
  ultimately show ?thesis using assms(1) by (simp add: read_request_def path_eq_def)
qed

lemma write_request_intro:
  assumes "length bytes \<le> MAX_FILE_BYTES" "resolve_path root = Some (True, rs)"
    and "resolve_path target = Some (True, rs @ us)" "resolve_path authority_scope = Some (True, rs @ us)"
  shows "write_request authority_scope root target bytes
    = Ok (render True rs, render True (rs @ us), write_capability (rs @ us))"
proof -
  note names = resolve_path_names [OF assms(2)] resolve_path_names [OF assms(3)]
  have "normalize_path root = Ok (render True rs)" "normalize_path authority_scope = Ok (render True (rs @ us))"
    using assms(2,4) by (simp_all add: normalize_Ok rooted_nonempty path_of_rooted)
  moreover have "contained (render True rs) target = Ok (render True (rs @ us))"
    using resolve_render [OF names(1), of True] assms(3) by (simp add: contained_iff)
  moreover have "filesystem_write (render True (rs @ us)) = Ok (write_capability (rs @ us))"
    by (simp add: filesystem_write_def request_rooted [OF names(2)] write_capability_def)
  ultimately show ?thesis using assms(1) by (simp add: write_request_def path_eq_def)
qed

lemma authorize_granted:
  assumes "passed_gate ws effects platform q st"
  obtains ctx c where "authorize ws effects q platform (fs_context st) (fs_cells st) = (Ok (), ctx, c)"
    "poll_cancellation ws (fs_context st) (fs_cells st) = (None, ctx, c)"
proof -
  obtain ctx c where p: "poll_cancellation ws (fs_context st) (fs_cells st) = (None, ctx, c)"
    using assms by (cases "poll_cancellation ws (fs_context st) (fs_cells st)") (auto simp: passed_gate_def)
  moreover have "authorize ws effects q platform (fs_context st) (fs_cells st) = (Ok (), ctx, c)"
    using assms verdict_same [OF poll_same [OF p], of effects q platform]
    by (simp add: authorize_def p passed_gate_def Let_def)
  ultimately show ?thesis using that by blast
qed

text \<open>
  C20: What was written is read back: after a write that succeeded, an authorized read of the same
  target that sees no cancellation returns exactly the written bytes, when the caller's limit and
  the rest of the budget admit them.
\<close>

theorem file_write_read_roundtrip:
  assumes "write_atomic ws effects platform fake_write_atomic write_scope root target bytes st = Some (Ok (), st1)"
    and "resolve_path root = Some (True, rs)" "resolve_path read_scope = Some (True, rs)"
    and "length bytes \<le> n" "n \<le> MAX_FILE_BYTES"
    and "rb_used (fs_budget st1) + length bytes \<le> MAX_TOTAL_READ_BYTES"
    and "passed_gate (fst ws') effects' platform' (read_capability rs) st1"
    and "poll_cancellation (fst ws') (fs_context st1) (fs_cells st1) = (None, ctx, c)"
    and "fst (poll_cancellation (snd ws') ctx c) = None"
  shows "\<exists>st2. file_read ws' effects' platform' fake_read_file read_scope root target n st1 = Some (Ok bytes, st2)"
  using assms(1)
proof (cases rule: write_atomic_cases)
  case (granted rt tg q a)
  from write_request_Ok [OF granted(1)] assms(2) obtain us where t: "resolve_path target = Some (True, rs @ us)"
    and rt: "rt = render True rs" "tg = render True (rs @ us)" by auto
  have req: "read_request read_scope root target n = Ok (rt, tg, read_capability rs)"
    using read_request_intro [OF assms(5,2) t assms(3)] rt by simp
  let ?m = "min n (MAX_TOTAL_READ_BYTES - rb_used (fs_budget st1))"
  have "fake_write_atomic \<lparr>aw_root = rt, aw_path = tg, aw_bytes = bytes, aw_max_bytes = MAX_FILE_BYTES\<rparr> (fs_host st)
      = (Ok (), fs_host st1)" using granted(3,4,5) by (metis prod.collapse)
  from fake_write_read [OF this, of ?m] assms(4,6)
  have "fst (fake_read_file \<lparr>rf_root = rt, rf_path = tg, rf_max_bytes = ?m\<rparr> (fs_host st1)) = Ok bytes" by auto
  then obtain h where read: "fake_read_file \<lparr>rf_root = rt, rf_path = tg, rf_max_bytes = ?m\<rparr> (fs_host st1)
      = (Ok bytes, h)" by (metis prod.collapse)
  from authorize_granted [OF assms(7)] assms(8)
  have auth: "authorize (fst ws') effects' (read_capability rs) platform' (fs_context st1) (fs_cells st1) = (Ok (), ctx, c)"
    by (metis Pair_inject)
  obtain ctx' c' where poll: "poll_cancellation (snd ws') ctx c = (None, ctx', c')"
    using assms(9) by (metis prod.collapse)
  have "admit (length bytes) (fs_budget st1) = (Ok (), (fs_budget st1)\<lparr>rb_used := rb_used (fs_budget st1) + length bytes\<rparr>)"
    using assms(6) by (simp add: admit_def USIZE_MAX_def MAX_TOTAL_READ_BYTES_def)
  with req auth read poll show ?thesis by (simp add: file_read_def Let_def adapter_result_def)
qed simp

subsection \<open>Witnesses\<close>

definition demo_file_state :: "(unit, fake_files) file_state" where
  "demo_file_state =
     \<lparr>fs_context = context_new
        \<lparr>ac_evaluation = 1, ac_rules = [rule_grant (read_capability [''srv'']) ReqEnforced,
          rule_grant (write_capability [''srv'', ''log'']) ReqEnforced]\<rparr>
        \<lparr>tk_signal = SgNever, tk_reason = 0\<rparr> 0 None,
      fs_cells = (\<lambda>_. 2), fs_budget = \<lparr>rb_used = 0\<rparr>, fs_host = fake_new\<rparr>"

definition demo_effects :: effect_set where
  "demo_effects = effect_set_new [read_capability [''srv''], write_capability [''srv'', ''log'']]"

abbreviation (input) demo_worlds :: "(world \<times> world) \<times> (world \<times> world)" where
  "demo_worlds \<equiv> ((noon, noon), (noon, noon))"

definition demo_written :: "(unit, fake_files) file_state" where
  "demo_written = demo_file_state\<lparr>fs_host := \<lparr>ff_files = [[CompRootDir, CompNormal ''srv'', CompNormal ''log''] \<mapsto> ''ab''],
     ff_calls = [CallWrite ''/srv'' ''/srv/log'' 2 MAX_FILE_BYTES]\<rparr>\<rparr>"

lemma demo_file_poll:
  "poll_cancellation ws (fs_context demo_file_state) (fs_cells demo_file_state)
     = (None, fs_context demo_file_state, fs_cells demo_file_state)"
  by (simp add: poll_cancellation_def demo_file_state_def context_new_def cancellation_scope_new_def
      scope_poll_def observed_def poll_reason_def token_is_cancelled_def)

lemma demo_resolve:
  "resolve_path ''/srv'' = Some (True, [''srv''])"
  "resolve_path ''/srv/log'' = Some (True, [''srv'', ''log''])"
  by code_simp+

lemma demo_verdicts:
  "is_executable (context_verdict (fs_context demo_file_state) demo_effects (read_capability [''srv'']) (\<lambda>_. EnEnforced))"
  "is_executable (context_verdict (fs_context demo_file_state) demo_effects (write_capability [''srv'', ''log'']) (\<lambda>_. EnEnforced))"
  by code_simp+

lemma demo_write:
  "write_atomic demo_worlds demo_effects (\<lambda>_. EnEnforced) fake_write_atomic ''/srv/log'' ''/srv'' ''/srv/log'' ''ab''
     demo_file_state = Some (Ok (), demo_written)"
proof -
  have req: "write_request ''/srv/log'' ''/srv'' ''/srv/log'' ''ab''
    = Ok (''/srv'', ''/srv/log'', write_capability [''srv'', ''log''])"
    using write_request_intro [of "''ab''" "''/srv''" "[''srv'']" "''/srv/log''" "[''log'']" "''/srv/log''"]
    by (simp add: demo_resolve MAX_FILE_BYTES_def render_def)
  have auth: "authorize ws demo_effects (write_capability [''srv'', ''log'']) (\<lambda>_. EnEnforced)
      (fs_context demo_file_state) (fs_cells demo_file_state)
      = (Ok (), fs_context demo_file_state, fs_cells demo_file_state)" for ws
    by (simp add: authorize_def demo_file_poll demo_verdicts)
  have wr: "fake_write_atomic \<lparr>aw_root = ''/srv'', aw_path = ''/srv/log'', aw_bytes = ''ab'', aw_max_bytes = MAX_FILE_BYTES\<rparr>
      (fs_host demo_file_state) = (Ok (), fs_host demo_written)"
  proof -
    have "validate_file_path ''/srv'' ''/srv/log'' = Ok ()"
      "path_components ''/srv/log'' = [CompRootDir, CompNormal ''srv'', CompNormal ''log'']" by code_simp+
    then show ?thesis
      by (simp add: fake_write_atomic_def demo_written_def demo_file_state_def fake_new_def MAX_FILE_BYTES_def)
  qed
  show ?thesis
    by (simp add: write_atomic_def req auth wr adapter_result_def demo_file_poll)
      (simp add: demo_written_def demo_file_state_def)
qed

lemma demo_written_poll:
  "poll_cancellation ws (fs_context demo_written) (fs_cells demo_written)
     = (None, fs_context demo_written, fs_cells demo_written)"
  using demo_file_poll by (simp add: demo_written_def)

lemma demo_gate: "passed_gate ws demo_effects (\<lambda>_. EnEnforced) (read_capability [''srv'']) demo_written"
  using demo_verdicts(1) demo_written_poll [of ws] by (simp add: passed_gate_def demo_written_def)

theorem file_write_read_roundtrip_witness:
  "\<exists>st2. file_read demo_worlds demo_effects (\<lambda>_. EnEnforced) fake_read_file ''/srv'' ''/srv'' ''/srv/log'' 10 demo_written
     = Some (Ok ''ab'', st2)"
proof (rule file_write_read_roundtrip [OF demo_write demo_resolve(1) demo_resolve(1)])
  show "passed_gate (fst demo_worlds) demo_effects (\<lambda>_. EnEnforced) (read_capability [''srv'']) demo_written"
    by (rule demo_gate)
  show "poll_cancellation (fst demo_worlds) (fs_context demo_written) (fs_cells demo_written)
    = (None, fs_context demo_written, fs_cells demo_written)" by (rule demo_written_poll)
  show "fst (poll_cancellation (snd demo_worlds) (fs_context demo_written) (fs_cells demo_written)) = None"
    by (simp add: demo_written_poll)
qed (simp_all add: demo_written_def demo_file_state_def MAX_FILE_BYTES_def MAX_TOTAL_READ_BYTES_def)

theorem write_atomic_gated_witness:
  "\<exists>rs us. length ''ab'' \<le> MAX_FILE_BYTES \<and> resolve_path ''/srv'' = Some (True, rs)
     \<and> resolve_path ''/srv/log'' = Some (True, rs @ us) \<and> resolve_path ''/srv/log'' = Some (True, rs @ us)
     \<and> passed_gate (noon, noon) demo_effects (\<lambda>_. EnEnforced) (write_capability (rs @ us)) demo_file_state
     \<and> fs_host demo_written = snd (fake_write_atomic \<lparr>aw_root = render True rs, aw_path = render True (rs @ us),
         aw_bytes = ''ab'', aw_max_bytes = MAX_FILE_BYTES\<rparr> (fs_host demo_file_state))"
  using write_atomic_gated [OF demo_write] by simp

lemma demo_read:
  "\<exists>st2. file_read demo_worlds demo_effects (\<lambda>_. EnEnforced) fake_read_file ''/srv'' ''/srv'' ''/srv/log'' 10 demo_written
     = Some (Ok ''ab'', st2)"
proof -
  have req: "read_request ''/srv'' ''/srv'' ''/srv/log'' 10 = Ok (''/srv'', ''/srv/log'', read_capability [''srv''])"
    using read_request_intro [of 10 "''/srv''" "[''srv'']" "''/srv/log''" "[''log'']" "''/srv''"]
    by (simp add: demo_resolve MAX_FILE_BYTES_def render_def)
  have auth: "authorize ws demo_effects (read_capability [''srv'']) (\<lambda>_. EnEnforced)
      (fs_context demo_written) (fs_cells demo_written) = (Ok (), fs_context demo_written, fs_cells demo_written)" for ws
    using demo_gate [of ws] by (simp add: authorize_def demo_written_poll passed_gate_def)
  have valid: "validate_file_path ''/srv'' ''/srv/log'' = Ok ()"
    "path_components ''/srv/log'' = [CompRootDir, CompNormal ''srv'', CompNormal ''log'']" by code_simp+
  have rb: "rb_used (fs_budget demo_written) = 0" by (simp add: demo_written_def demo_file_state_def)
  have "fst (fake_read_file \<lparr>rf_root = ''/srv'', rf_path = ''/srv/log'', rf_max_bytes = min 10 MAX_TOTAL_READ_BYTES\<rparr>
      (fs_host demo_written)) = Ok ''ab''"
    by (simp add: fake_read_file_def valid demo_written_def MAX_TOTAL_READ_BYTES_def)
  then obtain h where "fake_read_file \<lparr>rf_root = ''/srv'', rf_path = ''/srv/log'', rf_max_bytes = min 10 MAX_TOTAL_READ_BYTES\<rparr>
      (fs_host demo_written) = (Ok ''ab'', h)" by (metis prod.collapse)
  then show ?thesis
    by (simp add: file_read_def req auth rb adapter_result_def demo_written_poll admit_def USIZE_MAX_def
        MAX_TOTAL_READ_BYTES_def)
qed

theorem file_read_gated_witness:
  "\<exists>rs us. resolve_path ''/srv'' = Some (True, rs) \<and> resolve_path ''/srv/log'' = Some (True, rs @ us)
     \<and> passed_gate (noon, noon) demo_effects (\<lambda>_. EnEnforced) (read_capability rs) demo_written"
proof -
  obtain st2 where "file_read demo_worlds demo_effects (\<lambda>_. EnEnforced) fake_read_file ''/srv'' ''/srv'' ''/srv/log'' 10
    demo_written = Some (Ok ''ab'', st2)" using demo_read by blast
  from file_read_gated [OF this] show ?thesis by auto
qed

end
