(* ===== verification/Timestamps.thy ===== *)
theory Timestamps
  imports Operational_Context
begin

section \<open>Wall-clock timestamps\<close>

text \<open>
  The model of \<^verbatim>\<open>crates/opaal-runtime/src/operational/time.rs\<close>: timestamps as nanoseconds of a signed
  128-bit number, their calendar date and text, and the authorized clock readings. The checked
  arithmetic of the code is written out. The lemmas show that the conversion of a day number to a
  date is the Gregorian calendar: day zero is 1970-01-01 and the date of every day is the successor
  of the date of the day before.
\<close>

definition i128_checked :: "int \<Rightarrow> int option" where
  "i128_checked i = (if - (2 ^ 127) \<le> i \<and> i < 2 ^ 127 then Some i else None)"

text \<open>The divisions by a positive constant of numbers that are not negative truncate as \<open>div\<close> does.\<close>

definition year_of_era :: "int \<Rightarrow> int" where
  "year_of_era day_of_era =
     (day_of_era - day_of_era div 1460 + day_of_era div 36524 - day_of_era div 146096) div 365"

definition month_and_day :: "int \<Rightarrow> int \<times> int" where
  "month_and_day day_of_year =
     (let month_prime = (5 * day_of_year + 2) div 153
      in (month_prime, day_of_year - (153 * month_prime + 2) div 5 + 1))"

definition civil_date :: "int \<Rightarrow> int \<Rightarrow> int \<times> int \<times> int" where
  "civil_date day_of_era year =
     (let yoe = year_of_era day_of_era;
          day_of_year = day_of_era - (365 * yoe + yoe div 4 - yoe div 100);
          (month_prime, day) = month_and_day day_of_year;
          month = month_prime + (if month_prime < 10 then 3 else - 9)
      in (year + (if month \<le> 2 then 1 else 0), month, day))"

definition civil_from_days :: "int \<Rightarrow> (int \<times> int \<times> int) option" where
  "civil_from_days days =
     (case i128_checked (days + 719468) of
        None \<Rightarrow> None
      | Some shifted \<Rightarrow>
          let era = shifted div 146097
          in case i128_checked (era * 146097) of
               None \<Rightarrow> None
             | Some era_days \<Rightarrow>
                 (case i128_checked (shifted - era_days) of
                    None \<Rightarrow> None
                  | Some day_of_era \<Rightarrow>
                      (case i128_checked (era * 400) of
                         None \<Rightarrow> None
                       | Some era_years \<Rightarrow>
                           map_option (civil_date day_of_era)
                             (i128_checked (year_of_era day_of_era + era_years)))))"

datatype timestamp = Timestamp (unix_nanos: int)

definition from_unix_nanos :: "int \<Rightarrow> (timestamp, module_error) result" where
  "from_unix_nanos nanos =
     (case civil_from_days (nanos div 1000000000 div 86400) of
        None \<Rightarrow> Err (ModInvalid ''TIME001'' ''wall timestamp is outside the RFC 3339 range'')
      | Some (year, _, _) \<Rightarrow>
          if \<not> (0 \<le> year \<and> year \<le> 9999)
          then Err (ModInvalid ''TIME001'' ''wall timestamp is outside the RFC 3339 range'')
          else Ok (Timestamp nanos))"

definition zero_padded :: "nat \<Rightarrow> int \<Rightarrow> string" where
  "zero_padded width i =
     (let digits = show_nat (nat \<bar>i\<bar>); sign = (if i < 0 then ''-'' else [])
      in sign @ replicate (width - length sign - length digits) (CHR ''0'') @ digits)"

definition timestamp_display :: "timestamp \<Rightarrow> string option" where
  "timestamp_display t =
     (let seconds = unix_nanos t div 1000000000;
          nanos = unix_nanos t mod 1000000000;
          days = seconds div 86400;
          seconds_of_day = seconds mod 86400
      in map_option (\<lambda>(year, month, day).
           zero_padded 4 year @ ''-'' @ zero_padded 2 month @ ''-'' @ zero_padded 2 day @ ''T''
             @ zero_padded 2 (seconds_of_day div 3600) @ '':''
             @ zero_padded 2 (seconds_of_day mod 3600 div 60) @ '':''
             @ zero_padded 2 (seconds_of_day mod 60) @ ''.'' @ zero_padded 9 nanos @ ''Z'')
         (civil_from_days days))"

datatype monotonic_instant = MonotonicInstant (instant_nanos: nat)

text \<open>The clocks of the adapter are arguments; the outer option is a panic of the redaction.\<close>

definition wall_now ::
  "(world \<times> world) \<times> (world \<times> world) \<Rightarrow> effect_set \<Rightarrow> (authority_query \<Rightarrow> authority_enforcement)
     \<Rightarrow> ('h \<Rightarrow> (int, operational_error) result \<times> 'h) \<Rightarrow> 'w operational_context \<Rightarrow> cells \<Rightarrow> 'h
     \<Rightarrow> ((timestamp, module_error) result \<times> 'w operational_context \<times> cells \<times> 'h) option" where
  "wall_now ws effects platform wall_time ctx c h =
     (case authorize (fst ws) effects clock_wall platform ctx c of
        (Err e, ctx, c) \<Rightarrow> Some (Err e, ctx, c, h)
      | (Ok _, ctx, c) \<Rightarrow>
          (let (answer, h) = wall_time h
           in map_option (\<lambda>(r, ctx, c).
                (case r of Err e \<Rightarrow> Err e | Ok nanos \<Rightarrow> from_unix_nanos nanos, ctx, c, h))
              (adapter_result (snd ws) answer ctx c)))"

definition monotonic_now ::
  "(world \<times> world) \<times> (world \<times> world) \<Rightarrow> effect_set \<Rightarrow> (authority_query \<Rightarrow> authority_enforcement)
     \<Rightarrow> ('h \<Rightarrow> (nat, operational_error) result \<times> 'h) \<Rightarrow> 'w operational_context \<Rightarrow> cells \<Rightarrow> 'h
     \<Rightarrow> ((monotonic_instant, module_error) result \<times> 'w operational_context \<times> cells \<times> 'h) option" where
  "monotonic_now ws effects platform monotonic ctx c h =
     (case authorize (fst ws) effects clock_monotonic platform ctx c of
        (Err e, ctx, c) \<Rightarrow> Some (Err e, ctx, c, h)
      | (Ok _, ctx, c) \<Rightarrow>
          (let (answer, h) = monotonic h
           in map_option (\<lambda>(r, ctx, c).
                (case r of Err e \<Rightarrow> Err e | Ok nanos \<Rightarrow> Ok (MonotonicInstant nanos), ctx, c, h))
              (adapter_result (snd ws) answer ctx c)))"

subsection \<open>The Gregorian calendar\<close>

definition leap :: "int \<Rightarrow> bool" where
  "leap y \<longleftrightarrow> 4 dvd y \<and> (\<not> 100 dvd y \<or> 400 dvd y)"

definition month_days :: "int \<Rightarrow> int \<Rightarrow> int" where
  "month_days y m =
     (if m = 2 then (if leap y then 29 else 28) else if m \<in> {4, 6, 9, 11} then 30 else 31)"

definition valid_date :: "int \<times> int \<times> int \<Rightarrow> bool" where
  "valid_date = (\<lambda>(y, m, d). 1 \<le> m \<and> m \<le> 12 \<and> 1 \<le> d \<and> d \<le> month_days y m)"

definition next_day :: "int \<times> int \<times> int \<Rightarrow> int \<times> int \<times> int" where
  "next_day = (\<lambda>(y, m, d).
     if d < month_days y m then (y, m, d + 1)
     else if m < 12 then (y, m + 1, 1)
     else (y + 1, 1, 1))"

text \<open>The day on which a year of an era begins, counted from the first of March.\<close>

definition year_start :: "int \<Rightarrow> int" where
  "year_start y = 365 * y + y div 4 - y div 100"

definition year_end :: "int \<Rightarrow> int" where
  "year_end y = (if y = 399 then 146096 else year_start (y + 1) - 1)"

definition year_numerator :: "int \<Rightarrow> int" where
  "year_numerator d = d - d div 1460 + d div 36524 - d div 146096"

lemma div_mod_step:
  fixes a k :: int
  assumes k: "0 < k"
  shows "(a + 1) div k = a div k + (if a mod k = k - 1 then 1 else 0)
    \<and> (a + 1) mod k = (if a mod k = k - 1 then 0 else a mod k + 1)"
proof -
  define q r where "q = a div k" and "r = a mod k"
  have a: "a = k * q + r" "0 \<le> r" "r < k" using k by (simp_all add: q_def r_def)
  have "(a + 1) div k = q + (if r = k - 1 then 1 else 0) \<and> (a + 1) mod k = (if r = k - 1 then 0 else r + 1)"
  proof (cases "r = k - 1")
    case True
    then have "a + 1 = k * (q + 1) + 0" using a(1) by (simp add: distrib_left)
    from int_div_pos_eq [OF this] int_mod_pos_eq [OF this] True k show ?thesis by simp
  next
    case False
    then have "a + 1 = k * q + (r + 1)" "0 \<le> r + 1" "r + 1 < k" using a by linarith+
    from int_div_pos_eq [OF this] int_mod_pos_eq [OF this] False show ?thesis by simp
  qed
  then show ?thesis by (simp add: q_def r_def)
qed

lemma div_step: "0 < k \<Longrightarrow> (a + 1) div k = a div k + (if k dvd a + 1 then 1 else 0)" for a k :: int
proof -
  assume k: "0 < k"
  have "k dvd a + 1 \<longleftrightarrow> a mod k = k - 1"
    using div_mod_step [OF k, of a] pos_mod_sign [OF k, of a] by (simp add: dvd_eq_mod_eq_0 split: if_splits)
  then show ?thesis using div_mod_step [OF k, of a] by simp
qed

lemma year_numerator_step: "year_numerator d \<le> year_numerator (d + 1)"
proof -
  have "36524 dvd d + 1" if "146096 dvd d + 1" using that by (rule dvd_trans [rotated]) simp
  then show ?thesis by (simp add: year_numerator_def div_step)
qed

lemma year_numerator_mono: "a \<le> b \<Longrightarrow> year_numerator a \<le> year_numerator b"
proof (induction b rule: int_ge_induct)
  case (step b)
  then show ?case using year_numerator_step [of b] by linarith
qed simp

lemma year_bounds:
  "list_all (\<lambda>y. 365 * y \<le> year_numerator (year_start y)
     \<and> year_numerator (year_end y) \<le> 365 * y + 364) [0..399]"
  by code_simp

lemma year_of_era_eq:
  assumes "0 \<le> y" "y \<le> 399" "year_start y \<le> d" "d \<le> year_end y"
  shows "year_of_era d = y"
proof -
  have "365 * y \<le> year_numerator (year_start y)" "year_numerator (year_end y) \<le> 365 * y + 364"
    using year_bounds assms(1,2) by (auto simp: list_all_iff)
  with year_numerator_mono [OF assms(3)] year_numerator_mono [OF assms(4)]
  have "365 * y \<le> year_numerator d" "year_numerator d < 365 * y + 365" by linarith+
  then show ?thesis unfolding year_of_era_def year_numerator_def [symmetric]
    by (intro int_div_pos_eq [of _ 365 y "year_numerator d - 365 * y"]) simp_all
qed

lemma year_start_step: "year_start (y + 1) = year_start y + 365
    + (if 4 dvd y + 1 then 1 else 0) - (if 100 dvd y + 1 then 1 else 0)"
  by (simp add: year_start_def div_step)

lemma dvd_100_4: "(100::int) dvd y \<Longrightarrow> 4 dvd y"
  by (rule dvd_trans [of 4 100]) simp

lemma year_exists:
  assumes "0 \<le> d" "d \<le> 146096"
  shows "\<exists>y. 0 \<le> y \<and> y \<le> 399 \<and> year_start y \<le> d \<and> d \<le> year_end y"
  using assms
proof (induction d rule: int_ge_induct)
  case base
  then show ?case by (intro exI [of _ 0]) (simp add: year_start_def year_end_def)
next
  case (step d)
  then obtain y where y: "0 \<le> y" "y \<le> 399" "year_start y \<le> d" "d \<le> year_end y" by auto
  show ?case
  proof (cases "d = year_end y")
    case False
    with y show ?thesis by (intro exI [of _ y]) simp
  next
    case True
    with step.prems y have "y < 399" by (auto simp: year_end_def split: if_splits)
    moreover have "year_start (y + 1) \<le> year_end (y + 1)"
    proof (cases "y + 1 = 399")
      case True
      then show ?thesis by (simp add: year_end_def year_start_def)
    next
      case False
      then show ?thesis using year_start_step [of "y + 1"] dvd_100_4 [of "y + 2"] by (auto simp: year_end_def)
    qed
    ultimately show ?thesis using y True by (intro exI [of _ "y + 1"]) (auto simp: year_end_def)
  qed
qed

definition march_month_days :: "int \<Rightarrow> int" where
  "march_month_days mp = [31, 30, 31, 30, 31, 31, 30, 31, 30, 31, 31, 29] ! nat mp"

lemma month_steps:
  "list_all (\<lambda>doy. let (mp, d) = month_and_day doy; (mp', d') = month_and_day (doy + 1)
     in 0 \<le> mp \<and> mp' \<le> 11 \<and> 1 \<le> d \<and> (mp = 11 \<longrightarrow> d = doy - 336)
       \<and> (mp' = mp \<and> d' = d + 1 \<and> d < march_month_days mp
         \<or> mp' = mp + 1 \<and> d' = 1 \<and> d = march_month_days mp)) [0..364]"
  by code_simp

lemma month_step:
  assumes "0 \<le> doy" "doy \<le> 364" "month_and_day doy = (mp, d)" "month_and_day (doy + 1) = (mp', d')"
  shows "0 \<le> mp \<and> mp' \<le> 11 \<and> 1 \<le> d \<and> (mp = 11 \<longrightarrow> d = doy - 336)
    \<and> (mp' = mp \<and> d' = d + 1 \<and> d < march_month_days mp
      \<or> mp' = mp + 1 \<and> d' = 1 \<and> d = march_month_days mp)"
proof -
  have "doy \<in> set [0..364]" using assms(1,2) by simp
  with month_steps have "case (month_and_day doy, month_and_day (doy + 1)) of ((mp, d), (mp', d')) \<Rightarrow>
      0 \<le> mp \<and> mp' \<le> 11 \<and> 1 \<le> d \<and> (mp = 11 \<longrightarrow> d = doy - 336)
      \<and> (mp' = mp \<and> d' = d + 1 \<and> d < march_month_days mp \<or> mp' = mp + 1 \<and> d' = 1 \<and> d = march_month_days mp)"
    unfolding list_all_iff Let_def by (auto split: prod.splits)
  then show ?thesis by (simp add: assms(3,4))
qed

definition civil_of :: "int \<Rightarrow> int \<Rightarrow> int \<times> int \<times> int" where
  "civil_of era doe = civil_date doe (year_of_era doe + era * 400)"

text \<open>The date of the day \<open>doy\<close> of a year that begins in March of \<open>year\<close>.\<close>

definition march_date :: "int \<Rightarrow> int \<Rightarrow> int \<times> int \<times> int" where
  "march_date year doy =
     (let (mp, d) = month_and_day doy; m = mp + (if mp < 10 then 3 else - 9)
      in (year + (if m \<le> 2 then 1 else 0), m, d))"

lemma civil_of_march:
  "0 \<le> y \<Longrightarrow> y \<le> 399 \<Longrightarrow> year_start y \<le> d \<Longrightarrow> d \<le> year_end y
     \<Longrightarrow> civil_of era d = march_date (y + era * 400) (d - year_start y)"
  by (simp add: civil_of_def civil_date_def march_date_def year_of_era_eq year_start_def Let_def)

lemma month_cases:
  assumes "0 \<le> mp" "mp \<le> (11 :: int)"
  shows "mp \<in> {0, 1, 2, 3, 4, 5, 6, 7, 8, 9, 10, 11}"
  using assms by simp presburger

lemma march_month_days_eq:
  "0 \<le> mp \<Longrightarrow> mp \<le> 10 \<Longrightarrow> month_days y (mp + (if mp < 10 then 3 else - 9)) = march_month_days mp"
  using month_cases [of mp] by (auto simp: month_days_def march_month_days_def)

lemma year_length:
  assumes "0 \<le> y" "y \<le> 399"
  shows "year_end y - year_start y = (if leap (y + era * 400 + 1) then 365 else 364)"
proof -
  have dv: "k dvd y + era * 400 + 1 \<longleftrightarrow> k dvd y + 1" if "k dvd (400 :: int)" for k
    using dvd_add_right_iff [of k "era * 400" "y + 1"] that by (simp add: algebra_simps)
  have 4: "4 dvd y + era * 400 + 1 \<longleftrightarrow> 4 dvd y + 1" "100 dvd y + era * 400 + 1 \<longleftrightarrow> 100 dvd y + 1"
    "400 dvd y + era * 400 + 1 \<longleftrightarrow> 400 dvd y + 1" by (simp_all add: dv)
  show ?thesis
  proof (cases "y = 399")
    case True
    then show ?thesis using 4 by (simp add: leap_def year_end_def year_start_def)
  next
    case False
    then have "\<not> 400 dvd y + 1" using assms by (auto dest: zdvd_imp_le)
    then show ?thesis using False dvd_100_4 [of "y + 1"] 4 year_start_step [of y]
      by (auto simp: leap_def year_end_def)
  qed
qed

lemma march_date_next:
  assumes "0 \<le> doy" "doy < (if leap (year + 1) then 365 else 364)"
  shows "march_date year (doy + 1) = next_day (march_date year doy)" "valid_date (march_date year doy)"
proof -
  obtain mp d mp' d' where md: "month_and_day doy = (mp, d)" "month_and_day (doy + 1) = (mp', d')"
    by (metis surj_pair)
  have doy: "doy \<le> 364" using assms(2) by (auto split: if_splits)
  note st = month_step [OF assms(1) doy md]
  let ?m = "mp + (if mp < 10 then 3 else - 9)"
  let ?Y = "year + (if ?m \<le> 2 then 1 else 0)"
  have e: "march_date year doy = (?Y, ?m, d)" by (simp add: march_date_def md)
  have days: "d \<le> month_days ?Y ?m
    \<and> (mp' = mp \<longrightarrow> d < month_days ?Y ?m)
    \<and> (mp' \<noteq> mp \<longrightarrow> d = month_days ?Y ?m)"
  proof (cases "mp = 11")
    case True
    then have "mp' = mp" "d = doy - 336" using st by auto
    with True assms(2) show ?thesis by (auto simp: month_days_def)
  next
    case False
    with st have "0 \<le> mp" "mp \<le> 10" by auto
    from march_month_days_eq [OF this] st show ?thesis by auto
  qed
  have mp: "0 \<le> mp" "mp \<le> 11" using st by auto
  show "march_date year (doy + 1) = next_day (march_date year doy)"
  proof (cases "mp' = mp")
    case True
    with st have "d' = d + 1" by auto
    with True have e': "march_date year (doy + 1) = (?Y, ?m, d + 1)" by (simp add: march_date_def md)
    have "next_day (?Y, ?m, d) = (?Y, ?m, d + 1)"
      unfolding next_day_def prod.case by (rule if_P) (use days True in blast)
    then show ?thesis unfolding e e' by (rule sym)
  next
    case False
    with st have n: "mp' = mp + 1" "d' = 1" "mp \<le> 10" by auto
    with days False have last: "\<not> d < month_days ?Y ?m" by auto
    consider "mp < 9" | "mp = 9" | "mp = 10" using n(3) by linarith
    then show ?thesis using n last mp(1) by cases (simp_all add: march_date_def md next_day_def)
  qed
  show "valid_date (march_date year doy)"
    using st days mp by (auto simp: march_date_def md valid_date_def Let_def)
qed

lemma march_date_last:
  assumes "doy = (if leap (year + 1) then 365 else 364)"
  shows "next_day (march_date year doy) = march_date (year + 1) 0" "valid_date (march_date year doy)"
proof -
  have md: "month_and_day 364 = (11, 28)" "month_and_day 365 = (11, 29)" "month_and_day 0 = (0, 1)" by code_simp+
  show "next_day (march_date year doy) = march_date (year + 1) 0" "valid_date (march_date year doy)"
    using assms by (auto simp: march_date_def md next_day_def month_days_def valid_date_def)
qed

lemma year_start_bound: "0 \<le> y \<Longrightarrow> y < 399 \<Longrightarrow> year_start (y + 1) \<le> 145734"
  using zdiv_mono1 [of "y + 1" 399 4] pos_imp_zdiv_nonneg_iff [of 100 "y + 1"]
  by (simp add: year_start_def)

lemma civil_of_next:
  assumes "0 \<le> d" "d \<le> 146096"
  shows "(if d = 146096 then civil_of (era + 1) 0 else civil_of era (d + 1)) = next_day (civil_of era d)"
    and "valid_date (civil_of era d)"
proof -
  obtain y where y: "0 \<le> y" "y \<le> 399" "year_start y \<le> d" "d \<le> year_end y"
    using year_exists [OF assms] by blast
  let ?Y = "y + era * 400" and ?doy = "d - year_start y"
  note here = civil_of_march [OF y, of era]
  note len = year_length [OF y(1,2), of era]
  have zero: "civil_of (era + 1) 0 = march_date (0 + (era + 1) * 400) 0"
    using civil_of_march [of 0 0 "era + 1"] by (simp add: year_start_def year_end_def)
  show "(if d = 146096 then civil_of (era + 1) 0 else civil_of era (d + 1)) = next_day (civil_of era d)"
  proof (cases "d = year_end y")
    case True
    have last: "next_day (civil_of era d) = march_date (?Y + 1) 0"
      unfolding here by (rule march_date_last) (use len True in simp)
    show ?thesis
    proof (cases "y = 399")
      case True
      with \<open>d = year_end y\<close> last zero show ?thesis by (simp add: year_end_def add.commute)
    next
      case False
      have d: "d + 1 = year_start (y + 1)" using True False by (simp add: year_end_def)
      have "year_start (y + 1) \<le> year_end (y + 1)"
        using year_length [of "y + 1" 0] y False by (simp split: if_splits)
      with civil_of_march [of "y + 1" "year_start (y + 1)" era] y False
      have "civil_of era (d + 1) = march_date (?Y + 1) 0" unfolding d by (simp add: algebra_simps)
      moreover have "year_start (y + 1) \<le> 145734" using y False by (intro year_start_bound) simp_all
      ultimately show ?thesis using last d by simp
    qed
  next
    case False
    with y len have "0 \<le> ?doy" "?doy < (if leap (?Y + 1) then 365 else 364)" by auto
    moreover have "d \<noteq> 146096"
      using y False year_start_bound [of y] by (auto simp: year_end_def split: if_splits)
    moreover have "d + 1 \<le> year_end y" using y False by simp
    ultimately show ?thesis
      using march_date_next(1) [of ?doy ?Y] civil_of_march [OF y(1,2), of "d + 1" era] y here
      by (simp add: algebra_simps)
  qed
  show "valid_date (civil_of era d)"
    unfolding here using march_date_next(2) [of ?doy ?Y] march_date_last(2) [of ?doy ?Y] y len by fastforce
qed

subsection \<open>Every day has its date\<close>

definition date_of :: "int \<Rightarrow> int \<times> int \<times> int" where
  "date_of days = civil_of ((days + 719468) div 146097) ((days + 719468) mod 146097)"

lemma date_of_next: "date_of (days + 1) = next_day (date_of days)" "valid_date (date_of days)"
proof -
  let ?s = "days + 719468"
  let ?e = "?s div 146097" and ?d = "?s mod 146097"
  have d: "0 \<le> ?d" "?d \<le> 146096" using pos_mod_bound [of 146097 ?s] by simp_all
  note succ = div_mod_step [of 146097 ?s]
  have "days + 1 + 719468 = ?s + 1" by simp
  then show "date_of (days + 1) = next_day (date_of days)"
    unfolding date_of_def using succ civil_of_next(1) [OF d, of ?e] by (simp split: if_splits)
  show "valid_date (date_of days)" unfolding date_of_def by (rule civil_of_next(2) [OF d])
qed

lemma year_of_era_bounds: "0 \<le> d \<Longrightarrow> d \<le> 146096 \<Longrightarrow> 0 \<le> year_of_era d \<and> year_of_era d \<le> 399"
  using year_exists [of d] year_of_era_eq by blast

lemma civil_from_days_date_of:
  assumes "\<bar>days\<bar> \<le> 2 ^ 110"
  shows "civil_from_days days = Some (date_of days)"
proof -
  let ?s = "days + 719468"
  let ?e = "?s div 146097" and ?d = "?s mod 146097"
  have d: "0 \<le> ?d" "?d \<le> 146096" using pos_mod_bound [of 146097 ?s] by simp_all
  have s: "?s = 146097 * ?e + ?d" by simp
  have b: "- (2 ^ 111) \<le> ?s" "?s \<le> 2 ^ 111" using assms by auto
  have e: "- (2 ^ 111) \<le> ?e" "?e \<le> 2 ^ 111" using s b d by linarith+
  have "i128_checked ?s = Some ?s" "i128_checked (?e * 146097) = Some (?e * 146097)"
    "i128_checked ?d = Some ?d" "i128_checked (?e * 400) = Some (?e * 400)"
    "i128_checked (year_of_era ?d + ?e * 400) = Some (year_of_era ?d + ?e * 400)"
    using b e d s year_of_era_bounds [OF d] unfolding i128_checked_def by auto
  moreover have "?s - ?e * 146097 = ?d" using s by linarith
  ultimately show ?thesis by (simp add: civil_from_days_def Let_def date_of_def civil_of_def)
qed

lemma year_next: "fst date \<le> fst (next_day date)"
  by (auto simp: next_day_def split: prod.split)

lemma year_mono: "a \<le> b \<Longrightarrow> fst (date_of a) \<le> fst (date_of b)"
proof (induction b rule: int_ge_induct)
  case (step b)
  then show ?case using year_next [of "date_of b"] by (simp add: date_of_next(1))
qed simp

lemma date_anchors:
  "date_of 0 = (1970, 1, 1)" "date_of (- 719528) = (0, 1, 1)" "date_of (- 719529) = (- 1, 12, 31)"
  "date_of 2932896 = (9999, 12, 31)" "date_of 2932897 = (10000, 1, 1)"
  by code_simp+

lemma year_range: "0 \<le> fst (date_of d) \<and> fst (date_of d) \<le> 9999 \<longleftrightarrow> - 719528 \<le> d \<and> d \<le> 2932896"
proof -
  have "0 \<le> fst (date_of d) \<longleftrightarrow> - 719528 \<le> d"
    using year_mono [of "- 719528" d] year_mono [of d "- 719529"] date_anchors
    by (cases "- 719528 \<le> d") simp_all
  moreover have "fst (date_of d) \<le> 9999 \<longleftrightarrow> d \<le> 2932896"
    using year_mono [of d 2932896] year_mono [of 2932897 d] date_anchors
    by (cases "d \<le> 2932896") simp_all
  ultimately show ?thesis by blast
qed

lemma days_bounded:
  assumes "- (2 ^ 127) \<le> nanos" "nanos < (2 ^ 127 :: int)"
  shows "\<bar>nanos div 1000000000 div 86400\<bar> \<le> 2 ^ 110"
proof -
  have "nanos div 1000000000 div 86400 = nanos div 86400000000000"
    by (simp add: zdiv_zmult2_eq [symmetric])
  moreover have "- (2 ^ 110) \<le> nanos div 86400000000000" "nanos div 86400000000000 \<le> 2 ^ 110"
    using assms zdiv_mono1 [of "- (2 ^ 127)" nanos 86400000000000] zdiv_mono1 [of nanos "2 ^ 127" 86400000000000]
    by simp_all
  ultimately show ?thesis by linarith
qed

text \<open>
  C27: Day numbers become Gregorian dates: day 0 is 1970-01-01, every day of the range has a date with a
  month from 1 to 12 and a day its month has, and the date of the next day is the next day of the
  calendar, leap years included.
\<close>

theorem calendar_exact:
  assumes "\<bar>days\<bar> < 2 ^ 110"
  shows "\<exists>date. civil_from_days days = Some date \<and> valid_date date
      \<and> civil_from_days (days + 1) = Some (next_day date)
    \<and> civil_from_days 0 = Some (1970, 1, 1)"
  using assms civil_from_days_date_of [of days] civil_from_days_date_of [of "days + 1"]
    civil_from_days_date_of [of 0] date_of_next [of days] date_anchors(1) by simp

text \<open>
  A timestamp is granted exactly for the nanoseconds from the first day of year 0 through the last
  day of year 9999, and what is granted is displayed.
\<close>

theorem timestamp_range_exact:
  assumes "- (2 ^ 127) \<le> nanos" "nanos < 2 ^ 127"
  shows "case from_unix_nanos nanos of
     Ok t \<Rightarrow> unix_nanos t = nanos \<and> - 719528 * 86400000000000 \<le> nanos \<and> nanos < 2932897 * 86400000000000
       \<and> timestamp_display t \<noteq> None
   | Err e \<Rightarrow> module_error_code e = ''TIME001''
       \<and> \<not> (- 719528 * 86400000000000 \<le> nanos \<and> nanos < 2932897 * 86400000000000)"
proof -
  let ?d = "nanos div 1000000000 div 86400"
  have eq: "?d = nanos div 86400000000000" by (simp add: zdiv_zmult2_eq [symmetric])
  have range: "- 719528 \<le> ?d \<and> ?d \<le> 2932896
      \<longleftrightarrow> - 719528 * 86400000000000 \<le> nanos \<and> nanos < 2932897 * 86400000000000"
    unfolding eq by linarith
  have civil: "civil_from_days ?d = Some (date_of ?d)"
    by (rule civil_from_days_date_of [OF days_bounded [OF assms]])
  obtain y m d where date: "date_of ?d = (y, m, d)" by (metis prod_cases3)
  have "0 \<le> y \<and> y \<le> 9999 \<longleftrightarrow> - 719528 \<le> ?d \<and> ?d \<le> 2932896" using year_range [of ?d] date by simp
  then show ?thesis using civil range date
    by (auto simp: from_unix_nanos_def module_error_code_def timestamp_display_def Let_def)
qed

theorem calendar_exact_witness:
  "\<exists>date. civil_from_days 19782 = Some date \<and> valid_date date
    \<and> civil_from_days (19782 + 1) = Some (next_day date) \<and> civil_from_days 0 = Some (1970, 1, 1)"
  by (rule calendar_exact) simp

theorem timestamp_range_exact_witness: "is_ok (from_unix_nanos 0)"
  using timestamp_range_exact [of 0] by (simp split: sum.splits)

end
