(* ===== verification/Runtime_Error.thy ===== *)
theory Runtime_Error
  imports Value_Correct Source
begin

section \<open>Structured runtime errors\<close>

text \<open>
  The model of \<open>RuntimeError\<close> in \<^verbatim>\<open>crates/opaal-runtime/src/eval.rs\<close>: the error with its labels, call
  frames, source and nested cause, the accessors the language sees, and the snapshot that carries an
  error through an execution capsule and back. Of the kinds only the two that the accessors look
  into are constructors here; a kind of any other variant is a value of the type \<open>'k\<close>, read by its
  category and by its message, which are arguments.
\<close>

datatype error_category =
    CatUser | CatType | CatName | CatControl | CatOperation | CatCommand | CatIo | CatProcess | CatJob
  | CatResource | CatPlatform | CatInternal

fun error_category_name :: "error_category \<Rightarrow> string" where
  "error_category_name CatUser = ''user''"
| "error_category_name CatType = ''type''"
| "error_category_name CatName = ''name''"
| "error_category_name CatControl = ''control''"
| "error_category_name CatOperation = ''operation''"
| "error_category_name CatCommand = ''command''"
| "error_category_name CatIo = ''io''"
| "error_category_name CatProcess = ''process''"
| "error_category_name CatJob = ''job''"
| "error_category_name CatResource = ''resource''"
| "error_category_name CatPlatform = ''platform''"
| "error_category_name CatInternal = ''internal''"

record error_label =
  el_source :: source_file
  el_span :: span
  el_message :: string

datatype frame_callee = CalleeFunction string | CalleeClosure

record call_frame =
  cf_callee :: frame_callee
  cf_call_site :: span
  cf_source :: source_file

definition call_frame_new :: "string option \<Rightarrow> span \<Rightarrow> source_file \<Rightarrow> call_frame" where
  "call_frame_new name call_site source =
     \<lparr>cf_callee = (case name of Some n \<Rightarrow> CalleeFunction n | None \<Rightarrow> CalleeClosure),
      cf_call_site = call_site, cf_source = source\<rparr>"

datatype 'k runtime_error_kind =
    UnsuccessfulStatus status
  | Transported error_category string "status option"
  | OtherKind 'k

datatype 'k runtime_error =
  RuntimeError (re_kind: "'k runtime_error_kind") (re_span: span) (re_labels: "error_label list")
    (re_frames: "call_frame list") (re_source: "source_file option") (re_cause: "'k runtime_error option")

definition runtime_error_new :: "'k runtime_error_kind \<Rightarrow> span \<Rightarrow> 'k runtime_error" where
  "runtime_error_new kind sp = RuntimeError kind sp [] [] None None"

definition with_label :: "'k runtime_error \<Rightarrow> error_label \<Rightarrow> 'k runtime_error" where
  "with_label e l = RuntimeError (re_kind e) (re_span e) (re_labels e @ [l]) (re_frames e) (re_source e) (re_cause e)"

definition with_cause :: "'k runtime_error \<Rightarrow> 'k runtime_error \<Rightarrow> 'k runtime_error" where
  "with_cause e c = RuntimeError (re_kind e) (re_span e) (re_labels e) (re_frames e) (re_source e) (Some c)"

definition with_source :: "'k runtime_error \<Rightarrow> source_file \<Rightarrow> 'k runtime_error" where
  "with_source e s = RuntimeError (re_kind e) (re_span e) (re_labels e) (re_frames e) (Some s) (re_cause e)"

definition with_frame :: "'k runtime_error \<Rightarrow> call_frame \<Rightarrow> 'k runtime_error" where
  "with_frame e f = RuntimeError (re_kind e) (re_span e) (re_labels e) (re_frames e @ [f]) (re_source e) (re_cause e)"

text \<open>The category and the message of the kinds that are not constructors here.\<close>

record 'k kind_view =
  kv_category :: "'k \<Rightarrow> error_category"
  kv_message :: "'k \<Rightarrow> string"

fun kind_category :: "'k kind_view \<Rightarrow> 'k runtime_error_kind \<Rightarrow> error_category" where
  "kind_category kv (Transported c _ _) = c"
| "kind_category kv (UnsuccessfulStatus _) = CatControl"
| "kind_category kv (OtherKind k) = kv_category kv k"

text \<open>\<open>None\<close> is the panic of a status that cannot be displayed.\<close>

fun kind_display :: "'k kind_view \<Rightarrow> 'k runtime_error_kind \<Rightarrow> string option" where
  "kind_display kv (UnsuccessfulStatus s) =
     map_option (\<lambda>t. ''checked command was unsuccessful: '' @ t) (status_display s)"
| "kind_display kv (Transported _ m _) = Some m"
| "kind_display kv (OtherKind k) = Some (kv_message kv k)"

definition error_category_of :: "'k kind_view \<Rightarrow> 'k runtime_error \<Rightarrow> error_category" where
  "error_category_of kv e = kind_category kv (re_kind e)"

definition error_display :: "'k kind_view \<Rightarrow> 'k runtime_error \<Rightarrow> string option" where
  "error_display kv e = kind_display kv (re_kind e)"

definition error_status :: "'k runtime_error \<Rightarrow> status option" where
  "error_status e =
     (case re_kind e of UnsuccessfulStatus s \<Rightarrow> Some s | Transported _ _ s \<Rightarrow> s | OtherKind _ \<Rightarrow> None)"

subsection \<open>Snapshots\<close>

datatype runtime_error_snapshot =
  Snapshot (sn_category: error_category) (sn_message: string) (sn_span: span)
    (sn_labels: "error_label list") (sn_frames: "call_frame list") (sn_source: "source_file option")
    (sn_cause: "runtime_error_snapshot option") (sn_status: "status option")

fun snapshot_runtime_error :: "'k kind_view \<Rightarrow> 'k runtime_error \<Rightarrow> runtime_error_snapshot option" where
  "snapshot_runtime_error kv (RuntimeError kind sp labels frames source cause) =
     do {
       message \<leftarrow> kind_display kv kind;
       nested \<leftarrow> (case cause of
           None \<Rightarrow> Some None
         | Some c \<Rightarrow> map_option Some (snapshot_runtime_error kv c));
       Some (Snapshot (kind_category kv kind) message sp labels frames source nested
         (error_status (RuntimeError kind sp labels frames source cause)))
     }"

fun restore_runtime_error :: "runtime_error_snapshot \<Rightarrow> 'k runtime_error" where
  "restore_runtime_error (Snapshot category message sp labels frames source cause st) =
     RuntimeError (Transported category message st) sp labels frames source
       (map_option restore_runtime_error cause)"

subsection \<open>What a transported error keeps\<close>

text \<open>
  What the language can observe of an error, nested causes included: two errors are alike when
  every accessor agrees on them and on their causes.
\<close>

fun error_alike :: "'k kind_view \<Rightarrow> 'k runtime_error \<Rightarrow> 'k runtime_error \<Rightarrow> bool" where
  "error_alike kv (RuntimeError k sp ls fs s c) (RuntimeError k' sp' ls' fs' s' c') \<longleftrightarrow>
     kind_category kv k = kind_category kv k' \<and> kind_display kv k = kind_display kv k'
       \<and> error_status (RuntimeError k sp ls fs s c) = error_status (RuntimeError k' sp' ls' fs' s' c')
       \<and> sp = sp' \<and> ls = ls' \<and> fs = fs' \<and> s = s' \<and> rel_option (error_alike kv) c c'"

text \<open>The statuses an error carries, in itself or in a cause.\<close>

fun error_statuses :: "'k runtime_error \<Rightarrow> status set" where
  "error_statuses (RuntimeError k sp ls fs s c) =
     (case k of UnsuccessfulStatus t \<Rightarrow> {t} | _ \<Rightarrow> {}) \<union> (case c of None \<Rightarrow> {} | Some d \<Rightarrow> error_statuses d)"

lemma restore_snapshot_alike:
  assumes "\<forall>s \<in> error_statuses e. status_display s \<noteq> None"
  shows "\<exists>snap. snapshot_runtime_error kv e = Some snap \<and> error_alike kv (restore_runtime_error snap) e"
  using assms
proof (induction e)
  case (RuntimeError k sp ls fs s c)
  obtain m where m: "kind_display kv k = Some m"
    using RuntimeError.prems by (cases k) auto
  show ?case
  proof (cases c)
    case None
    then show ?thesis using m by (simp add: error_status_def)
  next
    case (Some d)
    then obtain snap where "snapshot_runtime_error kv d = Some snap" "error_alike kv (restore_runtime_error snap) d"
      using RuntimeError.IH [of d] RuntimeError.prems by auto
    then show ?thesis using m Some by (simp add: error_status_def)
  qed
qed

lemma snapshot_restore:
  "snapshot_runtime_error kv (restore_runtime_error snap) = Some snap"
proof (induction snap)
  case (Snapshot c m sp ls fs s n st)
  then show ?case by (cases n) (simp_all add: error_status_def)
qed

subsection \<open>Properties\<close>

text \<open>
  An error survives its transport through an execution capsule: a snapshot can always be taken of an
  error whose statuses are well formed, the restored error agrees with the original on every
  accessor, causes included, and a second transport changes nothing.
\<close>

theorem error_transport:
  assumes "\<forall>s \<in> error_statuses e. status_display s \<noteq> None"
  shows "\<exists>snap. snapshot_runtime_error kv e = Some snap
    \<and> error_alike kv (restore_runtime_error snap) e
    \<and> snapshot_runtime_error kv (restore_runtime_error snap :: 'k runtime_error) = Some snap"
  using restore_snapshot_alike [OF assms] snapshot_restore by blast

definition demo_kinds :: "nat kind_view" where
  "demo_kinds = \<lparr>kv_category = (\<lambda>k. if k = 0 then CatName else CatIo), kv_message = show_nat\<rparr>"

definition demo_error :: "nat runtime_error" where
  "demo_error =
     with_cause
       (runtime_error_new (UnsuccessfulStatus (Status (Some 2) None [] (Duration 5)))
         \<lparr>span_source_id = 0, span_start = 1, span_end = 4\<rparr>)
       (runtime_error_new (OtherKind 0) \<lparr>span_source_id = 0, span_start = 2, span_end = 3\<rparr>)"

theorem error_transport_witness:
  "\<exists>snap. snapshot_runtime_error demo_kinds demo_error = Some snap
    \<and> error_alike demo_kinds (restore_runtime_error snap) demo_error"
proof -
  have "\<forall>s \<in> error_statuses demo_error. status_display s \<noteq> None"
    by (simp add: demo_error_def with_cause_def runtime_error_new_def status_display_def)
  from error_transport [OF this, of demo_kinds] show ?thesis by blast
qed

end
