(* ===== verification/Floats.thy ===== *)
theory Floats
  imports Value_Correct
begin

section \<open>Binary64 arithmetic\<close>

text \<open>
  What the runtime uses of Rust's \<open>f64\<close>: IEEE 754 binary64 with rounding to the nearest value, ties
  to even, on the 64 bits of a float. An exact result is a fraction \<open>n / d\<close> of the smallest positive
  float \<open>2 ^ - 1074\<close>; \<open>f64_pack\<close> rounds it. The payload of a NaN is never observed by the code, so
  there is one. The lemmas show that \<open>f64_pack\<close> returns a float nearest to the exact value, returns
  the value itself when it is a float, and overflows exactly beyond the largest float.
\<close>

fun bit_length :: "nat \<Rightarrow> nat" where
  "bit_length n = (if n = 0 then 0 else Suc (bit_length (n div 2)))"

declare bit_length.simps [simp del]

definition round_half_even :: "nat \<Rightarrow> nat \<Rightarrow> nat" where
  "round_half_even n d =
     (let q = n div d; r = n mod d
      in if 2 * r < d \<or> 2 * r = d \<and> even q then q else q + 1)"

definition f64_pack_shift :: "nat \<Rightarrow> nat \<Rightarrow> nat" where
  "f64_pack_shift n d = bit_length (n div d) - 53"

definition f64_pack_bits :: "nat \<Rightarrow> nat \<Rightarrow> nat" where
  "f64_pack_bits n d =
     (let s = f64_pack_shift n d in s * 2 ^ 52 + round_half_even n (d * 2 ^ s))"

definition f64_pack :: "bool \<Rightarrow> nat \<Rightarrow> nat \<Rightarrow> 64 word" where
  "f64_pack negative n d =
     of_nat ((if negative then 2 ^ 63 else 0) + min (2047 * 2 ^ 52) (f64_pack_bits n d))"

definition f64_is_nan :: "64 word \<Rightarrow> bool" where
  "f64_is_nan b \<longleftrightarrow> f64_exponent b = 2047 \<and> f64_fraction b \<noteq> 0"

definition f64_is_inf :: "64 word \<Rightarrow> bool" where
  "f64_is_inf b \<longleftrightarrow> f64_exponent b = 2047 \<and> f64_fraction b = 0"

definition f64_nan :: "64 word" where
  "f64_nan = 0x7FF8000000000000"

definition f64_inf :: "bool \<Rightarrow> 64 word" where
  "f64_inf negative = (if negative then 0xFFF0000000000000 else 0x7FF0000000000000)"

definition f64_zero :: "bool \<Rightarrow> 64 word" where
  "f64_zero negative = (if negative then 2 ^ 63 else 0)"

definition f64_magnitude :: "64 word \<Rightarrow> nat" where
  "f64_magnitude b = f64_mantissa b * 2 ^ f64_scale b"

definition f64_neg :: "64 word \<Rightarrow> 64 word" where
  "f64_neg b = (if f64_negative b then b - 2 ^ 63 else b + 2 ^ 63)"

definition f64_add :: "64 word \<Rightarrow> 64 word \<Rightarrow> 64 word" where
  "f64_add a b =
     (if f64_is_nan a \<or> f64_is_nan b then f64_nan
      else if f64_is_inf a
      then (if f64_is_inf b \<and> f64_negative a \<noteq> f64_negative b then f64_nan else a)
      else if f64_is_inf b then b
      else
        let v = f64_scaled a + f64_scaled b
        in if v = 0 then f64_zero (f64_negative a \<and> f64_negative b)
           else f64_pack (v < 0) (nat \<bar>v\<bar>) 2)"

definition f64_sub :: "64 word \<Rightarrow> 64 word \<Rightarrow> 64 word" where
  "f64_sub a b = f64_add a (f64_neg b)"

definition f64_mul :: "64 word \<Rightarrow> 64 word \<Rightarrow> 64 word" where
  "f64_mul a b =
     (let negative = (f64_negative a \<noteq> f64_negative b)
      in if f64_is_nan a \<or> f64_is_nan b then f64_nan
         else if f64_is_inf a \<or> f64_is_inf b
         then (if f64_is_zero a \<or> f64_is_zero b then f64_nan else f64_inf negative)
         else f64_pack negative (f64_magnitude a * f64_magnitude b) (2 ^ 1076))"

definition f64_div :: "64 word \<Rightarrow> 64 word \<Rightarrow> 64 word" where
  "f64_div a b =
     (let negative = (f64_negative a \<noteq> f64_negative b)
      in if f64_is_nan a \<or> f64_is_nan b \<or> f64_is_inf a \<and> f64_is_inf b
           \<or> f64_is_zero a \<and> f64_is_zero b then f64_nan
         else if f64_is_inf a \<or> f64_is_zero b then f64_inf negative
         else if f64_is_inf b then f64_zero negative
         else f64_pack negative (f64_magnitude a * 2 ^ 1074) (f64_magnitude b))"

text \<open>\<open>f64::floor\<close>, \<open>f64::trunc\<close> and the conversion \<open>i64 as f64\<close>.\<close>

definition f64_floor :: "64 word \<Rightarrow> 64 word" where
  "f64_floor b =
     (if \<not> f64_is_finite b \<or> f64_is_integral b then b
      else let k = f64_scaled b div 2 ^ 1075 in f64_pack (k < 0) (nat \<bar>k\<bar> * 2 ^ 1074) 1)"

definition f64_trunc :: "64 word \<Rightarrow> 64 word" where
  "f64_trunc b =
     (if \<not> f64_is_finite b \<or> f64_is_integral b then b
      else f64_pack (f64_negative b) (f64_magnitude b div 2 ^ 1075 * 2 ^ 1074) 1)"

definition i64_to_f64 :: "64 word \<Rightarrow> 64 word" where
  "i64_to_f64 i = f64_pack (sint i < 0) (nat \<bar>sint i\<bar> * 2 ^ 1074) 1"

datatype ordering = OLess | OEqual | OGreater

fun ordering_reverse :: "ordering \<Rightarrow> ordering" where
  "ordering_reverse OLess = OGreater"
| "ordering_reverse OEqual = OEqual"
| "ordering_reverse OGreater = OLess"

definition cmp :: "'a::linorder \<Rightarrow> 'a \<Rightarrow> ordering" where
  "cmp a b = (if a < b then OLess else if a = b then OEqual else OGreater)"

text \<open>An infinity lies beyond every finite value, which is less than \<open>2 ^ 2100\<close> in this scale.\<close>

definition f64_extended :: "64 word \<Rightarrow> int" where
  "f64_extended b =
     (if f64_is_inf b then (if f64_negative b then - (2 ^ 2100) else 2 ^ 2100) else f64_scaled b)"

definition f64_partial_cmp :: "64 word \<Rightarrow> 64 word \<Rightarrow> ordering option" where
  "f64_partial_cmp a b =
     (if f64_is_nan a \<or> f64_is_nan b then None else Some (cmp (f64_extended a) (f64_extended b)))"

definition f64_lt :: "64 word \<Rightarrow> 64 word \<Rightarrow> bool" where
  "f64_lt a b \<longleftrightarrow> f64_partial_cmp a b = Some OLess"

definition f64_ge :: "64 word \<Rightarrow> 64 word \<Rightarrow> bool" where
  "f64_ge a b \<longleftrightarrow> f64_partial_cmp a b = Some OEqual \<or> f64_partial_cmp a b = Some OGreater"

subsection \<open>Rounding\<close>

lemma bit_length_0 [simp]: "bit_length 0 = 0"
  by (simp add: bit_length.simps)

lemma bit_length_bounds: "0 < n \<Longrightarrow> 2 ^ (bit_length n - 1) \<le> n \<and> n < 2 ^ bit_length n"
proof (induction n rule: bit_length.induct)
  case (1 n)
  show ?case
  proof (cases "n = 1")
    case True
    have "bit_length 1 = 1" by (simp add: bit_length.simps)
    with True show ?thesis by simp
  next
    case False
    with 1 have p: "0 < n div 2" "n \<noteq> 0" by auto
    with 1(1) have IH: "2 ^ (bit_length (n div 2) - 1) \<le> n div 2" "n div 2 < 2 ^ bit_length (n div 2)" by auto
    obtain l where l: "bit_length (n div 2) = Suc l" using p by (simp add: bit_length.simps [of "n div 2"])
    have "bit_length n = Suc (Suc l)" using p l by (simp add: bit_length.simps [of n])
    with IH l show ?thesis by simp linarith
  qed
qed

lemma round_half_even_near:
  assumes "0 < d"
  shows "\<bar>int (round_half_even n d) * int d - int n\<bar> \<le> \<bar>k * int d - int n\<bar>"
proof -
  let ?q = "n div d" and ?r = "n mod d"
  have n: "int n = int ?q * int d + int ?r" by (metis div_mult_mod_eq of_nat_add of_nat_mult)
  have r: "int ?r < int d" using assms by simp
  have k: "\<bar>k * int d - int n\<bar> \<ge> min (int ?r) (int d - int ?r)"
  proof (cases "k \<le> int ?q")
    case True
    then have "k * int d \<le> int ?q * int d" by (intro mult_right_mono) simp_all
    then show ?thesis using n by linarith
  next
    case False
    then have "(int ?q + 1) * int d \<le> k * int d" by (intro mult_right_mono) simp_all
    then show ?thesis using n by (simp add: distrib_right)
  qed
  have "\<bar>int (round_half_even n d) * int d - int n\<bar> \<le> min (int ?r) (int d - int ?r)"
  proof (cases "2 * ?r < d \<or> 2 * ?r = d \<and> even ?q")
    case True
    then have "round_half_even n d = ?q" by (simp add: round_half_even_def Let_def)
    moreover have "int ?r \<le> int d - int ?r" using True by linarith
    ultimately show ?thesis using n by simp
  next
    case False
    then have e: "round_half_even n d = ?q + 1" by (auto simp: round_half_even_def Let_def)
    have "\<not> 2 * ?r < d" using False by blast
    then have "int d - int ?r \<le> int ?r" by linarith
    then show ?thesis using n r e by (simp add: distrib_right)
  qed
  with k show ?thesis by linarith
qed

lemma round_half_even_exact: "0 < d \<Longrightarrow> round_half_even (m * d) d = m"
  by (simp add: round_half_even_def)

lemma round_half_even_bounds:
  assumes "0 < d" "a * d \<le> n" "n < b * d"
  shows "a \<le> round_half_even n d \<and> round_half_even n d \<le> b"
proof -
  have "a \<le> n div d" using assms by (simp add: less_eq_div_iff_mult_less_eq)
  moreover have "n div d < b" using assms by (simp add: div_less_iff_less_mult)
  ultimately show ?thesis by (auto simp: round_half_even_def Let_def)
qed

lemma f64_of_bits:
  fixes negative :: bool
  assumes "k < 2 ^ 63"
  defines "w \<equiv> of_nat ((if negative then 2 ^ 63 else 0) + k) :: 64 word"
  shows "f64_negative w = negative" "f64_exponent w = k div 2 ^ 52" "f64_fraction w = k mod 2 ^ 52"
proof -
  let ?x = "(if negative then 2 ^ 63 else 0) + k"
  have x: "?x < 2 ^ 64" using assms(1) by auto
  then have "take_bit LENGTH(64) ?x = ?x" by (intro take_bit_nat_eq_self) simp
  then have u: "unat w = ?x" by (simp only: w_def unsigned_of_nat of_nat_id)
  show "f64_negative w = negative" using assms(1) by (auto simp: f64_negative_def u)
  have "?x = k + (if negative then 2 ^ 11 else 0) * 2 ^ 52" by (simp add: algebra_simps flip: power_add)
  then have "?x div 2 ^ 52 = k div 2 ^ 52 + (if negative then 2 ^ 11 else 0)" "?x mod 2 ^ 52 = k mod 2 ^ 52"
    by (metis div_mult_self1 add.commute power_not_zero zero_neq_numeral) (metis mod_mult_self1 \<open>?x = _\<close>)
  moreover have "k div 2 ^ 52 < 2 ^ 11" using assms(1) by (simp add: div_less_iff_less_mult)
  ultimately show "f64_exponent w = k div 2 ^ 52" "f64_fraction w = k mod 2 ^ 52"
    by (simp_all add: f64_exponent_def f64_fraction_def u)
qed

lemma f64_decode:
  fixes negative :: bool
  assumes "s = 0 \<or> 2 ^ 52 \<le> m" "m \<le> 2 ^ 53" "s * 2 ^ 52 + m < 2047 * 2 ^ 52"
  defines "w \<equiv> of_nat ((if negative then 2 ^ 63 else 0) + (s * 2 ^ 52 + m)) :: 64 word"
  shows "f64_is_finite w" "f64_negative w = negative" "f64_magnitude w = m * 2 ^ (s + 1)"
proof -
  let ?k = "s * 2 ^ 52 + m"
  have k: "?k < 2 ^ 63" using assms(3) by simp
  note bits = f64_of_bits [OF k, of negative, folded w_def]
  show "f64_negative w = negative" by (rule bits(1))
  have "?k div 2 ^ 52 < 2047" using assms(3) by (simp add: div_less_iff_less_mult)
  then show "f64_is_finite w" by (simp add: f64_is_finite_def bits)
  consider "m < 2 ^ 52" "s = 0" | "2 ^ 52 \<le> m" "m < 2 ^ 53" | "m = 2 ^ 53" using assms(1,2) by linarith
  then show "f64_magnitude w = m * 2 ^ (s + 1)"
  proof cases
    case 1
    then show ?thesis by (simp add: f64_magnitude_def f64_mantissa_def f64_scale_def bits)
  next
    case 2
    define f where "f = m - 2 ^ 52"
    have f: "m = 2 ^ 52 + f" "f < 2 ^ 52" using 2 by (simp_all add: f_def)
    have "?k = f + (s + 1) * 2 ^ 52" by (simp add: f(1))
    then have "?k div 2 ^ 52 = s + 1" "?k mod 2 ^ 52 = f" using f(2) by simp_all
    then show ?thesis by (simp add: f64_magnitude_def f64_mantissa_def f64_scale_def bits f(1))
  next
    case 3
    then have "?k = (s + 2) * 2 ^ 52" by simp
    then have "?k div 2 ^ 52 = s + 2" "?k mod 2 ^ 52 = 0" by simp_all
    then show ?thesis using 3 by (simp add: f64_magnitude_def f64_mantissa_def f64_scale_def bits power_add)
  qed
qed

text \<open>The significand that packing rounds to, and where it lies.\<close>

definition f64_pack_mantissa :: "nat \<Rightarrow> nat \<Rightarrow> nat" where
  "f64_pack_mantissa n d = round_half_even n (d * 2 ^ f64_pack_shift n d)"

lemma pack_below:
  assumes "0 < d"
  shows "n < 2 ^ 53 * (d * 2 ^ f64_pack_shift n d)"
proof -
  let ?s = "f64_pack_shift n d" and ?q = "n div d"
  have up: "?q < 2 ^ (53 + ?s)"
  proof (cases "?q = 0")
    case False
    then have "?q < 2 ^ bit_length ?q" using bit_length_bounds by blast
    also have "\<dots> \<le> 2 ^ (53 + ?s)" by (intro power_increasing) (auto simp: f64_pack_shift_def)
    finally show ?thesis .
  qed simp
  have "n < (?q + 1) * d" using dividend_less_div_times [OF assms, of n] by (simp add: algebra_simps)
  also have "\<dots> \<le> 2 ^ (53 + ?s) * d" using up by (intro mult_le_mono1) simp
  finally show ?thesis by (simp add: power_add mult.commute mult.left_commute)
qed

lemma pack_mantissa_bounds:
  assumes "0 < d"
  shows "f64_pack_shift n d = 0 \<or> 2 ^ 52 \<le> f64_pack_mantissa n d" "f64_pack_mantissa n d \<le> 2 ^ 53"
    and "f64_pack_shift n d \<noteq> 0 \<Longrightarrow> 2 ^ 52 * (d * 2 ^ f64_pack_shift n d) \<le> n"
proof -
  let ?s = "f64_pack_shift n d" and ?q = "n div d"
  have n: "n < 2 ^ 53 * (d * 2 ^ ?s)" by (rule pack_below [OF assms])
  have low: "2 ^ 52 * (d * 2 ^ ?s) \<le> n" if "?s \<noteq> 0"
  proof -
    have "?q \<noteq> 0" using that by (cases "?q = 0") (simp_all add: f64_pack_shift_def)
    then have "2 ^ (bit_length ?q - 1) \<le> ?q" using bit_length_bounds by blast
    moreover have "bit_length ?q - 1 = 52 + ?s" using that by (simp add: f64_pack_shift_def)
    ultimately have "2 ^ (52 + ?s) * d \<le> ?q * d" by simp
    also have "\<dots> \<le> n" by (rule div_times_less_eq_dividend)
    finally show ?thesis by (simp add: power_add mult.commute mult.left_commute)
  qed
  then show "?s \<noteq> 0 \<Longrightarrow> 2 ^ 52 * (d * 2 ^ ?s) \<le> n" .
  have p: "0 < d * 2 ^ ?s" using assms by simp
  show "f64_pack_mantissa n d \<le> 2 ^ 53"
    using round_half_even_bounds [OF p, of 0 n "2 ^ 53"] n by (simp add: f64_pack_mantissa_def)
  show "?s = 0 \<or> 2 ^ 52 \<le> f64_pack_mantissa n d"
    using round_half_even_bounds [OF p, of "2 ^ 52" n "2 ^ 53"] n low by (auto simp: f64_pack_mantissa_def)
qed

lemma f64_pack_finite:
  assumes "0 < d" "f64_pack_bits n d < 2047 * 2 ^ 52"
  shows "f64_is_finite (f64_pack negative n d)" "f64_negative (f64_pack negative n d) = negative"
    and "f64_magnitude (f64_pack negative n d) = f64_pack_mantissa n d * 2 ^ (f64_pack_shift n d + 1)"
  using f64_decode [OF pack_mantissa_bounds(1,2) [OF assms(1)], of n negative] assms(2)
  by (simp_all add: f64_pack_def f64_pack_bits_def Let_def f64_pack_mantissa_def)

lemma f64_pack_overflow:
  assumes "\<not> f64_pack_bits n d < 2047 * 2 ^ 52"
  shows "\<not> f64_is_finite (f64_pack negative n d)"
proof -
  have "min (2047 * 2 ^ 52) (f64_pack_bits n d) = 2047 * 2 ^ 52" using assms by simp
  then show ?thesis
    using f64_of_bits(2) [of "2047 * 2 ^ 52" negative] by (simp add: f64_is_finite_def f64_pack_def)
qed

lemma f64_scaled_magnitude: "f64_scaled b = (if f64_negative b then - int (f64_magnitude b) else int (f64_magnitude b))"
  by (simp add: f64_scaled_def f64_magnitude_def Let_def)

text \<open>The magnitude of a float is a multiple of the unit of its binade, so none lies between.\<close>

lemma magnitude_multiple:
  assumes "f64_is_finite c" "2 ^ 53 * 2 ^ s \<le> f64_magnitude c"
  shows "2 ^ (s + 1) dvd f64_magnitude c"
proof -
  have "s + 1 \<le> f64_scale c"
  proof (rule ccontr)
    assume "\<not> s + 1 \<le> f64_scale c"
    then have "(2::nat) ^ f64_scale c \<le> 2 ^ s" by (intro power_increasing) simp_all
    then have "f64_mantissa c * 2 ^ f64_scale c < 2 ^ 53 * 2 ^ s"
      using mantissa_less [of c] by (intro mult_less_le_imp_less) simp_all
    with assms(2) show False by (simp add: f64_magnitude_def)
  qed
  then show ?thesis unfolding f64_magnitude_def by (intro dvd_mult le_imp_power_dvd)
qed

lemma magnitude_even: "2 dvd f64_magnitude c"
  by (simp add: f64_magnitude_def f64_scale_def less_max_iff_disj)

lemma f64_pack_nearest:
  assumes d: "0 < d" and fin: "f64_pack_bits n d < 2047 * 2 ^ 52" and c: "f64_is_finite c"
  shows "\<bar>int (f64_magnitude (f64_pack negative n d)) * int d - 2 * int n\<bar>
    \<le> \<bar>int (f64_magnitude c) * int d - 2 * int n\<bar>"
proof -
  let ?s = "f64_pack_shift n d"
  let ?D = "d * 2 ^ ?s" and ?m = "f64_pack_mantissa n d"
  have p: "0 < ?D" using d by simp
  have near: "\<bar>int ?m * int ?D - int n\<bar> \<le> \<bar>k * int ?D - int n\<bar>" for k
    unfolding f64_pack_mantissa_def by (rule round_half_even_near [OF p])
  have lhs: "int (f64_magnitude (f64_pack negative n d)) * int d - 2 * int n = 2 * (int ?m * int ?D - int n)"
    by (simp add: f64_pack_finite(3) [OF d fin])
  have key: "\<bar>int ?m * int ?D - int n\<bar> \<le> \<bar>int k * int d - int n\<bar>" if k: "f64_magnitude c = 2 * k" for k
  proof (cases "?s = 0 \<or> 2 ^ 52 * 2 ^ ?s \<le> k")
    case True
    have "2 ^ ?s dvd k"
    proof (cases "?s = 0")
      case False
      with True k have "2 ^ 53 * 2 ^ ?s \<le> f64_magnitude c" by simp
      from magnitude_multiple [OF c this] k show ?thesis by simp
    qed simp
    then obtain j where "k = 2 ^ ?s * j" by (rule dvdE)
    then have eq: "int k * int d = int j * int ?D" by simp
    show ?thesis unfolding eq by (rule near)
  next
    case False
    then have "k * d < 2 ^ 52 * 2 ^ ?s * d" using d by simp
    also have "\<dots> = 2 ^ 52 * ?D" by simp
    finally have "int (k * d) < int (2 ^ 52 * ?D)" by (simp only: of_nat_less_iff)
    then have "int k * int d < int (2 ^ 52 * ?D)" by (simp only: of_nat_mult)
    moreover have "int (2 ^ 52 * ?D) \<le> int n"
      using pack_mantissa_bounds(3) [OF d, of n] False by (simp only: of_nat_le_iff) simp
    moreover have "int (2 ^ 52 * ?D) = 2 ^ 52 * int ?D" by simp
    ultimately have "\<bar>2 ^ 52 * int ?D - int n\<bar> \<le> \<bar>int k * int d - int n\<bar>" by linarith
    then show ?thesis by (rule order_trans [OF near])
  qed
  obtain k where k: "f64_magnitude c = 2 * k" using magnitude_even by (rule dvdE)
  have rhs: "int (f64_magnitude c) * int d - 2 * int n = 2 * (int k * int d - int n)" by (simp add: k)
  show ?thesis using key [OF k] unfolding lhs rhs abs_mult by (rule mult_left_mono) simp
qed

subsection \<open>Overflow and exactness\<close>

text \<open>Half a unit beyond the largest float, in units of \<open>2 ^ - 1075\<close>.\<close>

definition F64_OVERFLOW :: nat where
  "F64_OVERFLOW = (2 ^ 54 - 1) * 2 ^ 2045"

lemma round_half_even_top:
  assumes "0 < d" "(2 * k + 1) * d \<le> 2 * n" "odd k" "n < (k + 1) * d"
  shows "round_half_even n d = k + 1"
proof -
  have "k * d \<le> n" using assms(2) by (simp add: algebra_simps)
  then have q: "n div d = k" using assms(1,4) by (intro div_nat_eqI) (simp_all add: mult.commute)
  then have "n mod d = n - k * d" by (simp add: minus_div_mult_eq_mod [symmetric])
  then have "d \<le> 2 * (n mod d)" using assms(2) by (simp add: algebra_simps)
  then show ?thesis using q assms(3) by (simp add: round_half_even_def)
qed

lemma round_half_even_top_D:
  assumes "0 < d" "round_half_even n d = k + 1" "n < (k + 1) * d"
  shows "(2 * k + 1) * d \<le> 2 * n"
proof -
  have "n div d < k + 1" using assms(1,3) by (simp add: div_less_iff_less_mult)
  with assms(2) have q: "n div d = k" "\<not> 2 * (n mod d) < d"
    by (auto simp: round_half_even_def Let_def split: if_splits)
  have "n = k * d + n mod d" using div_mult_mod_eq [of n d] q(1) by simp
  with q(2) show ?thesis by (simp add: algebra_simps)
qed

lemma pack_overflow_iff:
  assumes "0 < d"
  shows "2047 * 2 ^ 52 \<le> f64_pack_bits n d \<longleftrightarrow> F64_OVERFLOW * d \<le> 2 * n"
proof -
  define s where "s = f64_pack_shift n d"
  define D where "D = d * 2 ^ s"
  define m where "m = f64_pack_mantissa n d"
  have D: "0 < D" using assms by (simp add: D_def)
  note b = pack_mantissa_bounds [OF assms, of n, folded s_def m_def D_def]
  have bits: "f64_pack_bits n d = s * 2 ^ 52 + m" "m = round_half_even n D"
    by (simp_all add: f64_pack_bits_def f64_pack_mantissa_def Let_def s_def m_def D_def)
  have up: "n < 2 ^ 53 * D"
    using pack_below [OF assms, of n] by (simp add: s_def D_def)
  have over: "F64_OVERFLOW * d = (2 ^ 54 - 1) * (d * 2 ^ 2045)" by (simp add: F64_OVERFLOW_def)
  consider "s < 2045" | "s = 2045" | "2046 \<le> s" by linarith
  then show ?thesis
  proof cases
    case 1
    then have "s * 2 ^ 52 + m \<le> 2044 * 2 ^ 52 + 2 ^ 53" using b(2) by (intro add_mono) simp_all
    then have l: "\<not> 2047 * 2 ^ 52 \<le> f64_pack_bits n d" unfolding bits(1) by simp
    have "D \<le> d * 2 ^ 2044" unfolding D_def using 1 by (intro mult_le_mono2 power_increasing) simp_all
    then have "2 * n < 2 * (2 ^ 53 * (d * 2 ^ 2044))" using up by simp
    also have "\<dots> \<le> (2 ^ 54 - 1) * (d * 2 ^ 2045)"
    proof -
      have e: "(2 :: nat) ^ 2045 = 2 * 2 ^ 2044" by (simp flip: power_Suc)
      show ?thesis unfolding e by simp
    qed
    finally show ?thesis using l over by linarith
  next
    case 2
    have "2047 * 2 ^ 52 \<le> f64_pack_bits n d \<longleftrightarrow> m = (2 ^ 53 - 1) + 1"
      unfolding bits(1) 2 using b(2) by auto
    also have "\<dots> \<longleftrightarrow> (2 * (2 ^ 53 - 1) + 1) * D \<le> 2 * n"
      using round_half_even_top [OF D, of "2 ^ 53 - 1" n] round_half_even_top_D [OF D, of n "2 ^ 53 - 1"] up
      unfolding bits(2) by auto
    finally show ?thesis unfolding over D_def 2 by simp
  next
    case 3
    then have "2047 * 2 ^ 52 \<le> s * 2 ^ 52 + m" using b(1) by auto
    then have l: "2047 * 2 ^ 52 \<le> f64_pack_bits n d" unfolding bits(1) .
    have "d * 2 ^ 2046 \<le> D" unfolding D_def using 3 by (intro mult_le_mono2 power_increasing) simp_all
    then have "2 ^ 52 * (d * 2 ^ 2046) \<le> 2 ^ 52 * D" by (rule mult_le_mono2)
    also have "\<dots> \<le> n" using b(3) 3 by (simp add: D_def)
    finally have "2 * (2 ^ 52 * (d * 2 ^ 2046)) \<le> 2 * n" by (rule mult_le_mono2)
    moreover have "(2 ^ 54 - 1) * (d * 2 ^ 2045) \<le> 2 * (2 ^ 52 * (d * 2 ^ 2046))"
    proof -
      have e: "(2 :: nat) ^ 2046 = 2 * 2 ^ 2045" by (simp flip: power_Suc)
      show ?thesis unfolding e by simp
    qed
    ultimately show ?thesis using l over by linarith
  qed
qed

lemma magnitude_max: "f64_is_finite c \<Longrightarrow> f64_magnitude c \<le> (2 ^ 53 - 1) * 2 ^ 2046"
proof -
  assume c: "f64_is_finite c"
  have "f64_exponent c < 2 ^ 11" by (simp add: f64_exponent_def)
  with c have "f64_scale c \<le> 2046" by (auto simp: f64_scale_def f64_is_finite_def)
  then have "(2 :: nat) ^ f64_scale c \<le> 2 ^ 2046" by (intro power_increasing) simp_all
  moreover have "f64_mantissa c \<le> 2 ^ 53 - 1" using mantissa_less [of c] by linarith
  ultimately show ?thesis unfolding f64_magnitude_def by (intro mult_le_mono)
qed

lemma f64_pack_finite_iff:
  "0 < d \<Longrightarrow> f64_is_finite (f64_pack negative n d) \<longleftrightarrow> 2 * n < F64_OVERFLOW * d"
  using f64_pack_finite(1) [of d n negative] f64_pack_overflow [of n d negative] pack_overflow_iff [of d n]
  by (meson not_le)

lemma f64_pack_exact:
  assumes "0 < d" "f64_is_finite c" "2 * n = f64_magnitude c * d"
  shows "f64_is_finite (f64_pack negative n d)" "f64_magnitude (f64_pack negative n d) = f64_magnitude c"
    and "f64_negative (f64_pack negative n d) = negative"
proof -
  have "(2 ^ 53 - 1) * 2 ^ 2046 < F64_OVERFLOW"
  proof -
    have e: "(2 :: nat) ^ 2046 = 2 * 2 ^ 2045" by (simp flip: power_Suc)
    show ?thesis unfolding F64_OVERFLOW_def e by simp
  qed
  with magnitude_max [OF assms(2)] have "f64_magnitude c < F64_OVERFLOW" by (rule le_less_trans)
  then have "2 * n < F64_OVERFLOW * d" using assms by simp
  then show fin: "f64_is_finite (f64_pack negative n d)" using f64_pack_finite_iff [OF assms(1)] by simp
  then have bits: "f64_pack_bits n d < 2047 * 2 ^ 52" using f64_pack_overflow not_le by blast
  show "f64_negative (f64_pack negative n d) = negative" by (rule f64_pack_finite(2) [OF assms(1) bits])
  have n: "2 * int n = int (f64_magnitude c) * int d" using assms(3) by (metis of_nat_mult of_nat_numeral)
  have "\<bar>int (f64_magnitude (f64_pack negative n d)) * int d - 2 * int n\<bar> \<le> 0"
    using f64_pack_nearest [OF assms(1) bits assms(2), of negative] n by simp
  then have "int (f64_magnitude (f64_pack negative n d)) * int d = int (f64_magnitude c) * int d" using n by simp
  then show "f64_magnitude (f64_pack negative n d) = f64_magnitude c" using assms(1) by simp
qed

subsection \<open>Signed results\<close>

text \<open>
  A float \<open>r\<close> is a correct rounding of the exact value \<open>v / d\<close>, in units of \<open>2 ^ - 1075\<close>, when no float
  is nearer to it.
\<close>

definition nearest :: "64 word \<Rightarrow> int \<Rightarrow> int \<Rightarrow> bool" where
  "nearest r v d \<longleftrightarrow> f64_is_finite r \<and> (\<forall>c. f64_is_finite c \<longrightarrow> \<bar>f64_scaled r * d - v\<bar> \<le> \<bar>f64_scaled c * d - v\<bar>)"

lemma scaled_abs: "\<bar>f64_scaled b\<bar> = int (f64_magnitude b)"
  by (simp add: f64_scaled_magnitude)

lemma nearest_pack:
  assumes "0 < d" "2 * n < F64_OVERFLOW * d" "v = (if negative then - (2 * int n) else 2 * int n)"
  shows "nearest (f64_pack negative n d) v (int d)"
proof -
  have bits: "f64_pack_bits n d < 2047 * 2 ^ 52" using pack_overflow_iff [OF assms(1), of n] assms(2) by linarith
  let ?r = "f64_pack negative n d"
  have r: "\<bar>f64_scaled ?r * int d - v\<bar> = \<bar>int (f64_magnitude ?r) * int d - 2 * int n\<bar>"
    using f64_pack_finite(2) [OF assms(1) bits, of negative] assms(3)
    by (cases negative) (simp_all add: f64_scaled_magnitude)
  have "\<bar>f64_scaled ?r * int d - v\<bar> \<le> \<bar>f64_scaled c * int d - v\<bar>" if "f64_is_finite c" for c
  proof -
    have "\<bar>v\<bar> = 2 * int n" using assms(3) by simp
    moreover have "\<bar>f64_scaled c * int d\<bar> = int (f64_magnitude c) * int d" by (simp add: abs_mult scaled_abs)
    moreover have "\<bar>\<bar>f64_scaled c * int d\<bar> - \<bar>v\<bar>\<bar> \<le> \<bar>f64_scaled c * int d - v\<bar>" by (rule abs_triangle_ineq3)
    ultimately have "\<bar>int (f64_magnitude c) * int d - 2 * int n\<bar> \<le> \<bar>f64_scaled c * int d - v\<bar>" by simp
    with f64_pack_nearest [OF assms(1) bits that, of negative] show ?thesis unfolding r by linarith
  qed
  with f64_pack_finite(1) [OF assms(1) bits, of negative] show ?thesis by (simp add: nearest_def)
qed

lemma nearest_scale: "0 < k \<Longrightarrow> nearest r (k * v) (k * d) \<longleftrightarrow> nearest r v d"
proof -
  assume k: "0 < k"
  have "\<bar>f64_scaled c * (k * d) - k * v\<bar> = k * \<bar>f64_scaled c * d - v\<bar>" for c
  proof -
    have "f64_scaled c * (k * d) - k * v = k * (f64_scaled c * d - v)" by (simp add: algebra_simps)
    then show ?thesis using k by (simp add: abs_mult)
  qed
  then show ?thesis using k by (simp add: nearest_def)
qed

lemma f64_finite_not_special: "f64_is_finite b \<Longrightarrow> \<not> f64_is_nan b \<and> \<not> f64_is_inf b"
  by (simp add: f64_is_finite_def f64_is_nan_def f64_is_inf_def)

lemma f64_zero_finite [simp]: "f64_is_finite (f64_zero s)" "f64_scaled (f64_zero s) = 0"
  by (simp_all add: f64_zero_def f64_is_finite_def f64_exponent_def f64_scaled_def f64_mantissa_def f64_fraction_def)

lemma nearest_exact: "f64_is_finite r \<Longrightarrow> f64_scaled r * d = v \<Longrightarrow> nearest r v d"
  by (simp add: nearest_def)

lemma f64_add_correct:
  assumes "f64_is_finite a" "f64_is_finite b"
  defines "v \<equiv> f64_scaled a + f64_scaled b"
  shows "if \<bar>v\<bar> < int F64_OVERFLOW then nearest (f64_add a b) v 1 else \<not> f64_is_finite (f64_add a b)"
proof (cases "v = 0")
  case True
  then have "f64_add a b = f64_zero (f64_negative a \<and> f64_negative b)"
    using assms(1,2) f64_finite_not_special by (simp add: f64_add_def v_def)
  moreover have "0 < F64_OVERFLOW" by (simp add: F64_OVERFLOW_def)
  ultimately show ?thesis using True by (simp add: nearest_exact)
next
  case False
  let ?r = "f64_pack (v < 0) (nat \<bar>v\<bar>) 2"
  have r: "f64_add a b = ?r"
    using assms(1,2) False f64_finite_not_special by (simp add: f64_add_def v_def Let_def)
  have lt: "2 * nat \<bar>v\<bar> < F64_OVERFLOW * 2 \<longleftrightarrow> \<bar>v\<bar> < int F64_OVERFLOW" by linarith
  have v: "2 * v = (if v < 0 then - (2 * int (nat \<bar>v\<bar>)) else 2 * int (nat \<bar>v\<bar>))" by simp
  have "nearest ?r (2 * v) (2 * 1)" if "\<bar>v\<bar> < int F64_OVERFLOW"
    using nearest_pack [OF _ _ v, of 2] lt that by simp
  then show ?thesis
    using r lt f64_pack_finite_iff [of 2 "v < 0" "nat \<bar>v\<bar>"] nearest_scale [of 2 ?r v 1] by simp
qed

lemma f64_neg_facts: "f64_is_finite b \<Longrightarrow> f64_is_finite (f64_neg b) \<and> f64_scaled (f64_neg b) = - f64_scaled b"
proof -
  assume fin: "f64_is_finite b"
  define k where "k = f64_exponent b * 2 ^ 52 + f64_fraction b"
  have u: "unat b = (if f64_negative b then 2 ^ 63 else 0) + k" using f64_split [of b] by (simp add: k_def)
  have e: "f64_exponent b \<le> 2047" using mod_less_divisor [of "2 ^ 11" "unat b div 2 ^ 52"] by (simp add: f64_exponent_def)
  then have k: "k < 2 ^ 63" using f64_fraction_less [of b] by (simp add: k_def)
  have b: "b = of_nat ((if f64_negative b then 2 ^ 63 else 0) + k)" using u of_nat_unat [of b] by (metis ucast_id)
  have n: "f64_neg b = of_nat ((if \<not> f64_negative b then 2 ^ 63 else 0) + k)"
  proof (cases "f64_negative b")
    case True
    have "b = 2 ^ 63 + of_nat k"
      using b by (simp only: True if_True of_nat_add of_nat_power of_nat_numeral)
    then have "b - 2 ^ 63 = of_nat k" by (simp only: add_diff_cancel_left')
    then show ?thesis by (simp only: f64_neg_def True if_True not_True_eq_False if_False add_0)
  next
    case False
    have "b = of_nat k" using b by (simp only: False if_False add_0)
    then have "b + 2 ^ 63 = of_nat (2 ^ 63 + k)" by (simp only: of_nat_add of_nat_power of_nat_numeral add.commute)
    then show ?thesis by (simp only: f64_neg_def False not_False_eq_True if_True if_False)
  qed
  note nb = f64_of_bits [OF k, of "\<not> f64_negative b", folded n]
  note bb = f64_of_bits [OF k, of "f64_negative b", folded b]
  show ?thesis using fin nb bb
    by (simp add: f64_is_finite_def f64_scaled_def f64_mantissa_def f64_scale_def Let_def)
qed

lemma f64_sub_correct:
  assumes "f64_is_finite a" "f64_is_finite b"
  defines "v \<equiv> f64_scaled a - f64_scaled b"
  shows "if \<bar>v\<bar> < int F64_OVERFLOW then nearest (f64_sub a b) v 1 else \<not> f64_is_finite (f64_sub a b)"
proof -
  note n = f64_neg_facts [OF assms(2)]
  have "v = f64_scaled a + f64_scaled (f64_neg b)" using n by (simp add: v_def)
  then show ?thesis using f64_add_correct [OF assms(1), of "f64_neg b"] n unfolding f64_sub_def by metis
qed

lemma f64_mul_correct:
  assumes "f64_is_finite a" "f64_is_finite b"
  defines "v \<equiv> f64_scaled a * f64_scaled b"
  shows "if \<bar>v\<bar> < int F64_OVERFLOW * 2 ^ 1075 then nearest (f64_mul a b) v (2 ^ 1075)
    else \<not> f64_is_finite (f64_mul a b)"
proof -
  define P :: nat where "P = 2 ^ 1075"
  let ?neg = "f64_negative a \<noteq> f64_negative b" and ?n = "f64_magnitude a * f64_magnitude b"
  let ?r = "f64_pack ?neg ?n (2 * P)"
  have e: "(2 :: nat) ^ 1076 = 2 * P" unfolding P_def by (simp flip: power_Suc)
  have p: "(2 :: int) ^ 1075 = int P" "0 < 2 * P" unfolding P_def by simp_all
  have r: "f64_mul a b = ?r"
    using assms(1,2) f64_finite_not_special unfolding f64_mul_def e by simp
  have v: "2 * v = (if ?neg then - (2 * int ?n) else 2 * int ?n)" "\<bar>v\<bar> = int ?n"
    by (auto simp: v_def f64_scaled_magnitude abs_mult)
  have lt: "2 * ?n < F64_OVERFLOW * (2 * P) \<longleftrightarrow> \<bar>v\<bar> < int F64_OVERFLOW * int P"
  proof -
    have "2 * ?n < F64_OVERFLOW * (2 * P) \<longleftrightarrow> ?n < F64_OVERFLOW * P" by linarith
    also have "\<dots> \<longleftrightarrow> int ?n < int (F64_OVERFLOW * P)" by (rule of_nat_less_iff [symmetric])
    finally show ?thesis unfolding v(2) of_nat_mult [of F64_OVERFLOW P] .
  qed
  have "nearest ?r v (int P)" if "\<bar>v\<bar> < int F64_OVERFLOW * int P"
    using nearest_pack [OF p(2) _ v(1)] nearest_scale [of 2 ?r v "int P"] lt that by simp
  then show ?thesis
    unfolding p(1) r using lt f64_pack_finite_iff [OF p(2), of ?neg ?n] by metis
qed

lemma zero_magnitude: "f64_is_finite b \<Longrightarrow> f64_is_zero b \<longleftrightarrow> f64_magnitude b = 0"
proof
  assume "f64_is_zero b"
  then show "f64_magnitude b = 0"
    by (auto simp: f64_is_zero_def f64_magnitude_def f64_mantissa_def f64_exponent_def f64_fraction_def)
next
  assume b: "f64_is_finite b" "f64_magnitude b = 0"
  then have "f64_scaled b = f64_scaled 0" "f64_is_finite 0"
    using f64_zero_finite [of False] by (simp_all add: f64_scaled_magnitude f64_zero_def)
  then show "f64_is_zero b" using f64_scaled_inj [of b 0] b(1) by (auto simp: f64_is_zero_def)
qed

lemma f64_div_correct:
  assumes "f64_is_finite a" "f64_is_finite b" "\<not> f64_is_zero b"
  defines "v \<equiv> sgn (f64_scaled b) * f64_scaled a * 2 ^ 1075"
  shows "if \<bar>v\<bar> < int F64_OVERFLOW * \<bar>f64_scaled b\<bar> then nearest (f64_div a b) v \<bar>f64_scaled b\<bar>
    else \<not> f64_is_finite (f64_div a b)"
proof -
  let ?neg = "f64_negative a \<noteq> f64_negative b" and ?n = "f64_magnitude a * 2 ^ 1074" and ?d = "f64_magnitude b"
  let ?r = "f64_pack ?neg ?n ?d"
  have r: "f64_div a b = ?r" using assms(1,2,3) f64_finite_not_special by (simp add: f64_div_def)
  have d: "0 < ?d" using zero_magnitude [OF assms(2)] assms(3) by simp
  have e: "(2 :: int) ^ 1075 = 2 * 2 ^ 1074" by (simp flip: power_Suc)
  have v: "v = (if ?neg then - (2 * int ?n) else 2 * int ?n)" "\<bar>v\<bar> = int (2 * ?n)"
    using d by (auto simp: v_def f64_scaled_magnitude abs_mult e)
  have lt: "2 * ?n < F64_OVERFLOW * ?d \<longleftrightarrow> \<bar>v\<bar> < int F64_OVERFLOW * \<bar>f64_scaled b\<bar>"
    unfolding v(2) scaled_abs by (simp only: of_nat_less_iff flip: of_nat_mult)
  show ?thesis
    using r lt d f64_pack_finite_iff [OF d, of ?neg ?n] nearest_pack [OF d _ v(1)] by (simp add: scaled_abs)
qed

subsection \<open>Dyadic values, truncation and integers\<close>

lemma overflow_above_max: "(2 ^ 53 - 1) * 2 ^ 2046 < F64_OVERFLOW"
proof -
  have e: "(2 :: nat) ^ 2046 = 2 * 2 ^ 2045" by (simp flip: power_Suc)
  show ?thesis unfolding F64_OVERFLOW_def e by simp
qed

lemma f64_pack_dyadic:
  assumes "m < 2 ^ 53" "e \<le> 2045"
  shows "f64_is_finite (f64_pack negative (m * 2 ^ e) 1)"
    and "f64_negative (f64_pack negative (m * 2 ^ e) 1) = negative"
    and "f64_magnitude (f64_pack negative (m * 2 ^ e) 1) = m * 2 ^ (e + 1)"
proof -
  define n where "n = m * 2 ^ e"
  define s where "s = f64_pack_shift n 1"
  have "m * 2 ^ (e + 1) \<le> (2 ^ 53 - 1) * 2 ^ 2046"
    using assms by (intro mult_le_mono power_increasing) simp_all
  then have "2 * n < F64_OVERFLOW * 1"
    using overflow_above_max by (simp only: n_def power_add power_one_right mult.right_neutral mult.commute mult.left_commute)
  then have bits: "f64_pack_bits n 1 < 2047 * 2 ^ 52" using pack_overflow_iff [of 1 n] by simp
  show "f64_is_finite (f64_pack negative (m * 2 ^ e) 1)" "f64_negative (f64_pack negative (m * 2 ^ e) 1) = negative"
    using f64_pack_finite(1,2) [OF _ bits, of negative] by (simp_all add: n_def)
  have "2 ^ s dvd n"
  proof (cases "s = 0")
    case False
    then have "2 ^ 52 * 2 ^ s \<le> m * 2 ^ e" using pack_mantissa_bounds(3) [of 1 n] by (simp add: s_def n_def)
    also have "m * 2 ^ e < 2 ^ 53 * 2 ^ e" using assms(1) by simp
    finally have "(2 :: nat) ^ (52 + s) < 2 ^ (53 + e)" by (simp only: power_add)
    then have "s \<le> e" by (simp add: power_strict_increasing_iff)
    then show ?thesis unfolding n_def by (intro dvd_mult le_imp_power_dvd)
  qed simp
  then obtain q where q: "n = q * 2 ^ s" by (metis dvd_def mult.commute)
  have "f64_pack_mantissa n 1 = round_half_even n (2 ^ s)" by (simp add: f64_pack_mantissa_def s_def)
  also have "\<dots> = q" unfolding q by (rule round_half_even_exact) simp
  finally have "f64_pack_mantissa n 1 = q" .
  then have "f64_magnitude (f64_pack negative n 1) = q * 2 ^ (s + 1)"
    using f64_pack_finite(3) [OF _ bits, of negative] by (simp add: s_def)
  also have "\<dots> = m * 2 ^ (e + 1)" using q by (simp add: n_def)
  finally show "f64_magnitude (f64_pack negative (m * 2 ^ e) 1) = m * 2 ^ (e + 1)" by (simp only: n_def)
qed

lemma not_integral_scale: "\<not> f64_is_integral b \<Longrightarrow> f64_scale b < 1075"
proof (rule ccontr)
  assume n: "\<not> f64_is_integral b" "\<not> f64_scale b < 1075"
  then have "(2 :: nat) ^ 1075 dvd f64_mantissa b * 2 ^ f64_scale b" by (intro dvd_mult le_imp_power_dvd) simp
  then have "f64_is_integral b" by (simp only: f64_is_integral_def mod_eq_0_iff_dvd)
  with n(1) show False by contradiction
qed

lemma whole_part_less: "\<not> f64_is_integral b \<Longrightarrow> f64_magnitude b div 2 ^ 1075 < 2 ^ 53"
proof -
  assume "\<not> f64_is_integral b"
  then have "(2 :: nat) ^ f64_scale b \<le> 2 ^ 1075" using not_integral_scale by (intro power_increasing) fastforce+
  then have "f64_magnitude b < 2 ^ 53 * 2 ^ 1075"
    unfolding f64_magnitude_def using mantissa_less [of b] by (intro mult_less_le_imp_less) simp_all
  then show ?thesis by (simp only: div_less_iff_less_mult zero_less_power zero_less_numeral)
qed

text \<open>Truncation is exact and keeps the sign bit.\<close>

lemma f64_trunc_exact:
  assumes "f64_is_finite b"
  shows "f64_is_finite (f64_trunc b)" "f64_negative (f64_trunc b) = f64_negative b"
    and "f64_magnitude (f64_trunc b) = f64_magnitude b div 2 ^ 1075 * 2 ^ 1075"
proof -
  have e: "(1075 :: nat) = 1074 + 1" by simp
  have "f64_is_finite (f64_trunc b) \<and> f64_negative (f64_trunc b) = f64_negative b
    \<and> f64_magnitude (f64_trunc b) = f64_magnitude b div 2 ^ 1075 * 2 ^ 1075"
  proof (cases "f64_is_integral b")
    case True
    then have "2 ^ 1075 dvd f64_magnitude b"
      by (simp only: f64_is_integral_def f64_magnitude_def mod_eq_0_iff_dvd)
    then have "f64_magnitude b div 2 ^ 1075 * 2 ^ 1075 = f64_magnitude b" by (rule dvd_div_mult_self)
    with True assms show ?thesis by (simp only: f64_trunc_def) simp
  next
    case False
    let ?k = "f64_magnitude b div 2 ^ 1075"
    have t: "f64_trunc b = f64_pack (f64_negative b) (?k * 2 ^ 1074) 1"
      using False assms by (simp only: f64_trunc_def) simp
    show ?thesis
      using f64_pack_dyadic [OF whole_part_less [OF False], of 1074 "f64_negative b"]
      unfolding t by (simp only: e [symmetric] simp_thms)
  qed
  then show "f64_is_finite (f64_trunc b)" "f64_negative (f64_trunc b) = f64_negative b"
    "f64_magnitude (f64_trunc b) = f64_magnitude b div 2 ^ 1075 * 2 ^ 1075" by blast+
qed

lemma i64_to_f64_exact:
  assumes "\<bar>sint i\<bar> \<le> 2 ^ 53"
  shows "f64_is_finite (i64_to_f64 i) \<and> f64_scaled (i64_to_f64 i) = sint i * 2 ^ 1075"
proof -
  let ?k = "nat \<bar>sint i\<bar>"
  have "\<exists>m e. m < 2 ^ 53 \<and> e \<le> 2045 \<and> ?k * 2 ^ 1074 = m * 2 ^ e \<and> m * 2 ^ (e + 1) = ?k * 2 ^ 1075"
  proof (cases "?k = 2 ^ 53")
    case True
    have "?k * 2 ^ 1074 = 1 * 2 ^ 1127" "1 * 2 ^ (1127 + 1) = ?k * 2 ^ 1075"
      unfolding True by (simp_all only: mult_1 flip: power_add) simp_all
    then show ?thesis by (intro exI [of _ 1] exI [of _ 1127]) simp
  next
    case False
    moreover have "?k \<le> 2 ^ 53" using assms nat_mono [OF assms] by simp
    ultimately have "?k < 2 ^ 53" by simp
    then show ?thesis by (intro exI [of _ ?k] exI [of _ 1074]) simp
  qed
  then obtain m e where m: "m < 2 ^ 53" "e \<le> 2045" "?k * 2 ^ 1074 = m * 2 ^ e" "m * 2 ^ (e + 1) = ?k * 2 ^ 1075"
    by blast
  define P :: nat where "P = 2 ^ 1075"
  have p: "(2 :: int) ^ 1075 = int P" by (simp add: P_def)
  note d = f64_pack_dyadic [OF m(1,2), of "sint i < 0", folded m(3), unfolded m(4), folded i64_to_f64_def P_def]
  have "f64_scaled (i64_to_f64 i) = sint i * int P"
    using d by (simp add: f64_scaled_magnitude)
  with d(1) p show ?thesis by simp
qed

lemma i64_to_f64_nearest: "nearest (i64_to_f64 i) (sint i * 2 ^ 1075) 1"
proof -
  define P :: nat where "P = 2 ^ 1074"
  have p: "(2 :: int) ^ 1075 = 2 * int P" unfolding P_def by (simp flip: power_Suc)
  let ?n = "nat \<bar>sint i\<bar> * P"
  have "nat \<bar>sint i\<bar> \<le> 2 ^ 63" using sint_bounds64 [of i] by (simp add: abs_le_iff)
  then have "2 * ?n \<le> 2 * (2 ^ 63 * 2 ^ 1074)" unfolding P_def by (intro mult_le_mono) simp_all
  also have "\<dots> < F64_OVERFLOW * 1"
  proof -
    have "(2 :: nat) * (2 ^ 63 * 2 ^ 1074) = 1 * 2 ^ 1138" by (simp flip: power_add power_Suc)
    also have "\<dots> \<le> (2 ^ 53 - 1) * 2 ^ 2046" by (intro mult_le_mono power_increasing) simp_all
    finally show ?thesis using overflow_above_max by linarith
  qed
  finally have lt: "2 * ?n < F64_OVERFLOW * 1" .
  have v: "sint i * 2 ^ 1075 = (if sint i < 0 then - (2 * int ?n) else 2 * int ?n)"
    unfolding p by simp
  show ?thesis
    using nearest_pack [OF _ lt v] unfolding i64_to_f64_def P_def by simp
qed

end
