(* ===== verification/Operators.thy ===== *)
theory Operators
  imports Runtime_Error Floats "HOL-Library.Signed_Division"
begin

section \<open>Operators on values\<close>

text \<open>
  The model of the operators of \<^verbatim>\<open>crates/opaal-runtime/src/operation.rs\<close>: arithmetic, ordering,
  membership, indexing, fields, ranges and numeric conversions. Integers are 64-bit words, with the
  checked operations of the standard library; floats are the bits of the theory of binary64
  arithmetic. An operation that can panic returns an option. The display of the errors is not
  modelled. Values hold errors of a type \<open>'e\<close>; where the code looks into an error, it is a
  \<open>runtime_error\<close>.
\<close>

type_synonym i64 = "64 word"
type_synonym f64 = "64 word"

datatype operation_error =
    InvalidArgument string string
  | UnsupportedOperands string "string list"
  | HostContextRequired string
  | IntegerOverflow string
  | OpNonFiniteFloat
  | DivisionByZero string
  | IndexOutOfRange i64 nat
  | NegativeIndex i64
  | MissingKey string
  | MissingField string
  | ConversionOutOfRange f64
  | NoMatchingOverload string string
  | LengthOverflow string
  | GenericArity string nat nat

subsection \<open>Checked integers\<close>

definition I64_MIN :: i64 where
  "I64_MIN = 2 ^ 63"

definition checked64 :: "int \<Rightarrow> i64 option" where
  "checked64 v = (if - (2 ^ 63) \<le> v \<and> v < 2 ^ 63 then Some (word_of_int v) else None)"

definition checked_add :: "i64 \<Rightarrow> i64 \<Rightarrow> i64 option" where
  "checked_add a b = checked64 (sint a + sint b)"

definition checked_sub :: "i64 \<Rightarrow> i64 \<Rightarrow> i64 option" where
  "checked_sub a b = checked64 (sint a - sint b)"

definition checked_mul :: "i64 \<Rightarrow> i64 \<Rightarrow> i64 option" where
  "checked_mul a b = checked64 (sint a * sint b)"

definition checked_neg :: "i64 \<Rightarrow> i64 option" where
  "checked_neg a = checked64 (- sint a)"

definition checked_div :: "i64 \<Rightarrow> i64 \<Rightarrow> i64 option" where
  "checked_div a b = (if b = 0 then None else checked64 (sint a sdiv sint b))"

text \<open>The operator \<open>%\<close>, which panics for a zero divisor and for \<open>i64::MIN % -1\<close>.\<close>

definition rem64 :: "i64 \<Rightarrow> i64 \<Rightarrow> i64 option" where
  "rem64 a b =
     (if b = 0 \<or> a = I64_MIN \<and> b = - 1 then None else Some (word_of_int (sint a smod sint b)))"

subsection \<open>Arithmetic\<close>

datatype numeric = Ints i64 i64 | Floats f64 f64

definition unsupported :: "string \<Rightarrow> 'e opaal_value list \<Rightarrow> operation_error" where
  "unsupported operator operands = UnsupportedOperands operator (map family_name operands)"

definition numeric_pair ::
  "string \<Rightarrow> 'e opaal_value \<Rightarrow> 'e opaal_value \<Rightarrow> (numeric, operation_error) result" where
  "numeric_pair operator left right =
     (case (left, right) of
        (VInt a, VInt b) \<Rightarrow> Ok (Ints a b)
      | (VInt a, VFloat b) \<Rightarrow> Ok (Floats (i64_to_f64 a) (float_bits b))
      | (VFloat a, VInt b) \<Rightarrow> Ok (Floats (float_bits a) (i64_to_f64 b))
      | (VFloat a, VFloat b) \<Rightarrow> Ok (Floats (float_bits a) (float_bits b))
      | _ \<Rightarrow> Err (unsupported operator [left, right]))"

definition float_value :: "f64 \<Rightarrow> ('e opaal_value, operation_error) result" where
  "float_value v =
     (case finite_float_new v of Err _ \<Rightarrow> Err OpNonFiniteFloat | Ok f \<Rightarrow> Ok (VFloat f))"

definition int_or_overflow :: "string \<Rightarrow> i64 option \<Rightarrow> ('e opaal_value, operation_error) result" where
  "int_or_overflow operator r =
     (case r of None \<Rightarrow> Err (IntegerOverflow operator) | Some c \<Rightarrow> Ok (VInt c))"

definition add :: "'e opaal_value \<Rightarrow> 'e opaal_value \<Rightarrow> ('e opaal_value, operation_error) result" where
  "add left right =
     (case numeric_pair ''+'' left right of
        Err e \<Rightarrow> Err e
      | Ok (Ints a b) \<Rightarrow> int_or_overflow ''+'' (checked_add a b)
      | Ok (Floats a b) \<Rightarrow> float_value (f64_add a b))"

definition subtract :: "'e opaal_value \<Rightarrow> 'e opaal_value \<Rightarrow> ('e opaal_value, operation_error) result" where
  "subtract left right =
     (case numeric_pair ''-'' left right of
        Err e \<Rightarrow> Err e
      | Ok (Ints a b) \<Rightarrow> int_or_overflow ''-'' (checked_sub a b)
      | Ok (Floats a b) \<Rightarrow> float_value (f64_sub a b))"

definition multiply :: "'e opaal_value \<Rightarrow> 'e opaal_value \<Rightarrow> ('e opaal_value, operation_error) result" where
  "multiply left right =
     (case numeric_pair ''*'' left right of
        Err e \<Rightarrow> Err e
      | Ok (Ints a b) \<Rightarrow> int_or_overflow ''*'' (checked_mul a b)
      | Ok (Floats a b) \<Rightarrow> float_value (f64_mul a b))"

text \<open>\<open>None\<close> would be a panic of \<open>%\<close>; \<open>floored_div\<close> has excluded both causes before it.\<close>

definition floored_div :: "i64 \<Rightarrow> i64 \<Rightarrow> (i64, operation_error) result option" where
  "floored_div a b =
     (if b = 0 then Some (Err (DivisionByZero ''/''))
      else case checked_div a b of
        None \<Rightarrow> Some (Err (IntegerOverflow ''/''))
      | Some quot \<Rightarrow>
          (case rem64 a b of
             None \<Rightarrow> None
           | Some rm \<Rightarrow>
               if rm \<noteq> 0 \<and> (sint rm < 0) \<noteq> (sint b < 0)
               then (case checked_sub quot 1 of
                   None \<Rightarrow> Some (Err (IntegerOverflow ''/''))
                 | Some q \<Rightarrow> Some (Ok q))
               else Some (Ok quot)))"

text \<open>The last addition cannot leave the range, as \<open>floored_rem_exact\<close> shows.\<close>

definition floored_rem :: "i64 \<Rightarrow> i64 \<Rightarrow> (i64, operation_error) result option" where
  "floored_rem a b =
     (if b = 0 then Some (Err (DivisionByZero ''%''))
      else case rem64 a b of
        None \<Rightarrow> None
      | Some rm \<Rightarrow>
          if rm \<noteq> 0 \<and> (sint rm < 0) \<noteq> (sint b < 0)
          then (case checked_add rm b of None \<Rightarrow> None | Some r \<Rightarrow> Some (Ok r))
          else Some (Ok rm))"

definition divide_op :: "'e opaal_value \<Rightarrow> 'e opaal_value \<Rightarrow> ('e opaal_value, operation_error) result option" where
  "divide_op left right =
     (case numeric_pair ''/'' left right of
        Err e \<Rightarrow> Some (Err e)
      | Ok (Ints a b) \<Rightarrow> map_option (map_sum id VInt) (floored_div a b)
      | Ok (Floats a b) \<Rightarrow>
          Some (if f64_is_zero b then Err (DivisionByZero ''/'') else float_value (f64_div a b)))"

definition remainder :: "'e opaal_value \<Rightarrow> 'e opaal_value \<Rightarrow> ('e opaal_value, operation_error) result option" where
  "remainder left right =
     (case numeric_pair ''%'' left right of
        Err e \<Rightarrow> Some (Err e)
      | Ok (Ints a b) \<Rightarrow> map_option (map_sum id VInt) (floored_rem a b)
      | Ok (Floats a b) \<Rightarrow>
          Some (if f64_is_zero b then Err (DivisionByZero ''%'')
            else float_value (f64_sub a (f64_mul b (f64_floor (f64_div a b))))))"

definition negate :: "'e opaal_value \<Rightarrow> ('e opaal_value, operation_error) result" where
  "negate v =
     (case v of
        VInt a \<Rightarrow> int_or_overflow ''-'' (checked_neg a)
      | VFloat a \<Rightarrow> float_value (f64_neg (float_bits a))
      | _ \<Rightarrow> Err (unsupported ''-'' [v]))"

definition plus_op :: "'e opaal_value \<Rightarrow> ('e opaal_value, operation_error) result" where
  "plus_op v = (case v of VInt _ \<Rightarrow> Ok v | VFloat _ \<Rightarrow> Ok v | _ \<Rightarrow> Err (unsupported ''+'' [v]))"

subsection \<open>Ordering\<close>

definition TWO_POW_63 :: f64 where
  "TWO_POW_63 = 0x43E0000000000000"

definition compare_int_float :: "i64 \<Rightarrow> f64 \<Rightarrow> ordering" where
  "compare_int_float integer float =
     (if f64_ge float TWO_POW_63 then OLess
      else if f64_lt float (f64_neg TWO_POW_63) then OGreater
      else
        let truncated = f64_trunc float;
            floor_int = f64_to_i128 truncated
        in case cmp (sint integer) floor_int of
             OEqual \<Rightarrow>
               (let fraction = f64_sub float truncated
                in if f64_lt 0 fraction then OLess
                   else if f64_lt fraction 0 then OGreater
                   else OEqual)
           | other \<Rightarrow> other)"

text \<open>The lexicographic order of slices.\<close>

fun slice_cmp :: "'a::linorder list \<Rightarrow> 'a list \<Rightarrow> ordering" where
  "slice_cmp (x # xs) (y # ys) = (if x < y then OLess else if y < x then OGreater else slice_cmp xs ys)"
| "slice_cmp [] [] = OEqual"
| "slice_cmp [] ys = OLess"
| "slice_cmp xs [] = OGreater"

abbreviation bytes_cmp :: "string \<Rightarrow> string \<Rightarrow> ordering" where
  "bytes_cmp a b \<equiv> slice_cmp (map u8 a) (map u8 b)"

text \<open>\<open>None\<close> is the \<open>expect\<close> on the order of two floats.\<close>

function order :: "'e opaal_value \<Rightarrow> 'e opaal_value \<Rightarrow> (ordering, operation_error) result option"
and order_lists :: "'e opaal_value list \<Rightarrow> 'e opaal_value list \<Rightarrow> (ordering, operation_error) result option"
where
  "order left right =
     (let refuse = Some (Err (unsupported ''<'' [left, right]))
      in case left of
           VInt a \<Rightarrow>
             (case right of
                VInt b \<Rightarrow> Some (Ok (cmp (sint a) (sint b)))
              | VFloat b \<Rightarrow> Some (Ok (compare_int_float a (float_bits b)))
              | _ \<Rightarrow> refuse)
         | VFloat a \<Rightarrow>
             (case right of
                VInt b \<Rightarrow> Some (Ok (ordering_reverse (compare_int_float b (float_bits a))))
              | VFloat b \<Rightarrow> map_option Ok (f64_partial_cmp (float_bits a) (float_bits b))
              | _ \<Rightarrow> refuse)
         | VString a \<Rightarrow> (case right of VString b \<Rightarrow> Some (Ok (bytes_cmp a b)) | _ \<Rightarrow> refuse)
         | VBytes a \<Rightarrow> (case right of VBytes b \<Rightarrow> Some (Ok (bytes_cmp a b)) | _ \<Rightarrow> refuse)
         | VPath a \<Rightarrow>
             (case right of VPath b \<Rightarrow> Some (Ok (bytes_cmp (path_bytes a) (path_bytes b))) | _ \<Rightarrow> refuse)
         | VDuration a \<Rightarrow>
             (case right of
                VDuration b \<Rightarrow> Some (Ok (cmp (sint (as_nanos a)) (sint (as_nanos b))))
              | _ \<Rightarrow> refuse)
         | VByteSize a \<Rightarrow>
             (case right of
                VByteSize b \<Rightarrow> Some (Ok (cmp (unat (size_bytes a)) (unat (size_bytes b))))
              | _ \<Rightarrow> refuse)
         | VList a \<Rightarrow> (case right of VList b \<Rightarrow> order_lists a b | _ \<Rightarrow> refuse)
         | _ \<Rightarrow> refuse)"
| "order_lists left right =
     (case (left, right) of
        (a # as, b # bs) \<Rightarrow>
          (case order a b of
             None \<Rightarrow> None
           | Some (Err e) \<Rightarrow> Some (Err e)
           | Some (Ok OEqual) \<Rightarrow> order_lists as bs
           | Some (Ok other) \<Rightarrow> Some (Ok other))
      | _ \<Rightarrow> Some (Ok (cmp (length left) (length right))))"
  by pat_completeness auto

termination
  by (relation "measure (\<lambda>x. case x of Inl (a, _) \<Rightarrow> size a | Inr (as, _) \<Rightarrow> size_list size as)") auto

declare order.simps [simp del] order_lists.simps [simp del]

definition order_test ::
  "(ordering \<Rightarrow> bool) \<Rightarrow> 'e opaal_value \<Rightarrow> 'e opaal_value \<Rightarrow> ('e opaal_value, operation_error) result option" where
  "order_test test left right = map_option (map_sum id (\<lambda>ord. VBool (test ord))) (order left right)"

definition less_op :: "'e opaal_value \<Rightarrow> 'e opaal_value \<Rightarrow> ('e opaal_value, operation_error) result option" where
  "less_op = order_test (\<lambda>ord. ord = OLess)"

definition less_equal_op :: "'e opaal_value \<Rightarrow> 'e opaal_value \<Rightarrow> ('e opaal_value, operation_error) result option" where
  "less_equal_op = order_test (\<lambda>ord. ord \<noteq> OGreater)"

definition greater_op :: "'e opaal_value \<Rightarrow> 'e opaal_value \<Rightarrow> ('e opaal_value, operation_error) result option" where
  "greater_op = order_test (\<lambda>ord. ord = OGreater)"

definition greater_equal_op :: "'e opaal_value \<Rightarrow> 'e opaal_value \<Rightarrow> ('e opaal_value, operation_error) result option" where
  "greater_equal_op = order_test (\<lambda>ord. ord \<noteq> OLess)"

definition equal_op :: "('e \<Rightarrow> 'e \<Rightarrow> bool) \<Rightarrow> 'e opaal_value \<Rightarrow> 'e opaal_value \<Rightarrow> 'e opaal_value" where
  "equal_op err_eq left right = VBool (value_eq err_eq left right)"

definition not_equal :: "('e \<Rightarrow> 'e \<Rightarrow> bool) \<Rightarrow> 'e opaal_value \<Rightarrow> 'e opaal_value \<Rightarrow> 'e opaal_value" where
  "not_equal err_eq left right = VBool (\<not> value_eq err_eq left right)"

subsection \<open>Membership, indexing and fields\<close>

definition member_op ::
  "('e \<Rightarrow> 'e \<Rightarrow> bool) \<Rightarrow> 'e opaal_value \<Rightarrow> 'e opaal_value \<Rightarrow> ('e opaal_value, operation_error) result" where
  "member_op err_eq element container =
     (let refuse = Err (unsupported ''in'' [element, container])
      in case container of
           VRange sp \<Rightarrow> (case element of VInt v \<Rightarrow> Ok (VBool (range_contains sp v)) | _ \<Rightarrow> refuse)
         | VList items \<Rightarrow> Ok (VBool (list_ex (\<lambda>item. value_eq err_eq item element) items))
         | VString txt \<Rightarrow> (case element of VString s \<Rightarrow> Ok (VBool (sublist s txt)) | _ \<Rightarrow> refuse)
         | VRecord es \<Rightarrow> (case element of VString k \<Rightarrow> Ok (VBool (record_get es k \<noteq> None)) | _ \<Rightarrow> refuse)
         | _ \<Rightarrow> refuse)"

definition checked_position :: "i64 \<Rightarrow> nat \<Rightarrow> (nat, operation_error) result" where
  "checked_position i len =
     (if sint i < 0 then Err (NegativeIndex i)
      else let position = nat (sint i)
           in if len \<le> position then Err (IndexOutOfRange i len) else Ok position)"

definition index :: "'e opaal_value \<Rightarrow> 'e opaal_value \<Rightarrow> ('e opaal_value, operation_error) result option" where
  "index target i =
     (case (target, i) of
        (VList items, VInt position) \<Rightarrow>
          (case checked_position position (length items) of
             Err e \<Rightarrow> Some (Err e)
           | Ok p \<Rightarrow> map_option Ok (get_opt items p))
      | (VString txt, VInt position) \<Rightarrow>
          (case checked_position position (length (chars txt)) of
             Err e \<Rightarrow> Some (Err e)
           | Ok p \<Rightarrow> map_option (\<lambda>c. Ok (VString (encode_utf8 c))) (get_opt (chars txt) p))
      | (VRecord es, VString key) \<Rightarrow>
          Some (case record_get es key of Some v \<Rightarrow> Ok v | None \<Rightarrow> Err (MissingKey key))
      | _ \<Rightarrow> Some (Err (unsupported ''[]'' [target, i])))"

definition span_position :: "nat \<Rightarrow> i64" where
  "span_position n = (if int n < 2 ^ 63 then word_of_nat n else word_of_int (2 ^ 63 - 1))"

definition source_span_fields :: "string \<Rightarrow> span \<Rightarrow> (string \<times> 'e opaal_value) list" where
  "source_span_fields source sp =
     [(''name'', VString source), (''start'', VInt (span_position (span_start sp))),
      (''end'', VInt (span_position (span_end sp)))]"

text \<open>\<open>Record::new\<close> with its \<open>expect\<close>: \<open>None\<close> is the panic.\<close>

definition expect_record :: "(string \<times> 'e opaal_value) list \<Rightarrow> 'e opaal_value option" where
  "expect_record entries = (case record_new entries of Ok es \<Rightarrow> Some (VRecord es) | Err _ \<Rightarrow> None)"

definition source_span_value :: "string \<Rightarrow> span \<Rightarrow> 'e opaal_value option" where
  "source_span_value source sp = expect_record (source_span_fields source sp)"

definition opt_value :: "('a \<Rightarrow> 'e opaal_value) \<Rightarrow> 'a option \<Rightarrow> 'e opaal_value" where
  "opt_value f x = (case x of None \<Rightarrow> VNull | Some a \<Rightarrow> f a)"

definition label_value :: "error_label \<Rightarrow> 'e opaal_value option" where
  "label_value l =
     expect_record (source_span_fields (sf_name (el_source l)) (el_span l) @ [(''message'', VString (el_message l))])"

definition frame_value :: "call_frame \<Rightarrow> 'e opaal_value option" where
  "frame_value f =
     expect_record (source_span_fields (sf_name (cf_source f)) (cf_call_site f)
       @ [(''callee'', VString (case cf_callee f of CalleeFunction n \<Rightarrow> n | CalleeClosure \<Rightarrow> ''<closure>''))])"

definition error_field ::
  "'k kind_view \<Rightarrow> 'k runtime_error \<Rightarrow> string \<Rightarrow> ('k runtime_error opaal_value, operation_error) result option" where
  "error_field kv e name =
     (if name = ''category'' then Some (Ok (VString (error_category_name (error_category_of kv e))))
      else if name = ''message'' then map_option (\<lambda>m. Ok (VString m)) (error_display kv e)
      else if name = ''source'' then
        (case re_source e of
           None \<Rightarrow> Some (Ok VNull)
         | Some s \<Rightarrow> map_option Ok (source_span_value (sf_name s) (re_span e)))
      else if name = ''labels'' then map_option (\<lambda>vs. Ok (VList vs)) (those (map label_value (re_labels e)))
      else if name = ''frames'' then map_option (\<lambda>vs. Ok (VList vs)) (those (map frame_value (re_frames e)))
      else if name = ''cause'' then Some (Ok (opt_value VError (re_cause e)))
      else if name = ''status'' then Some (Ok (opt_value VStatus (error_status e)))
      else Some (Err (MissingField name)))"

definition status_field :: "status \<Rightarrow> string \<Rightarrow> ('e opaal_value, operation_error) result option" where
  "status_field s name =
     (if name = ''code'' then Some (Ok (opt_value VInt (st_code s)))
      else if name = ''signal'' then
        (case st_signal s of
           None \<Rightarrow> Some (Ok VNull)
         | Some sg \<Rightarrow>
             map_option Ok (expect_record
               [(''number'', opt_value VInt (sg_number sg)), (''name'', opt_value VString (sg_name sg))]))
      else if name = ''ok'' then Some (Ok (VBool (status_is_ok s)))
      else if name = ''stages'' then Some (Ok (VList (map VStatus (st_stages s))))
      else if name = ''duration'' then Some (Ok (VDuration (st_duration s)))
      else Some (Err (MissingField name)))"

definition field ::
  "'k kind_view \<Rightarrow> 'k runtime_error opaal_value \<Rightarrow> string
     \<Rightarrow> ('k runtime_error opaal_value, operation_error) result option" where
  "field kv target name =
     (case target of
        VRecord es \<Rightarrow>
          Some (case record_get es name of Some v \<Rightarrow> Ok v | None \<Rightarrow> Err (MissingField name))
      | VNominalRecord _ _ es \<Rightarrow>
          Some (case record_get es name of Some v \<Rightarrow> Ok v | None \<Rightarrow> Err (MissingField name))
      | VStatus s \<Rightarrow> status_field s name
      | VError e \<Rightarrow> error_field kv e name
      | _ \<Rightarrow> Some (Err (unsupported ''.'' [target])))"

subsection \<open>Ranges and conversions\<close>

definition range_of ::
  "'e opaal_value \<Rightarrow> 'e opaal_value \<Rightarrow> bool \<Rightarrow> ('e opaal_value, operation_error) result" where
  "range_of start finish inclusive =
     (case (start, finish) of
        (VInt s, VInt e) \<Rightarrow> Ok (VRange \<lparr>rg_start = s, rg_end = e, inclusive_end = inclusive\<rparr>)
      | _ \<Rightarrow> Err (unsupported ''..'' [start, finish]))"

text \<open>\<open>f64 as i64\<close> saturates.\<close>

definition f64_to_i64 :: "f64 \<Rightarrow> i64" where
  "f64_to_i64 b = word_of_int (max (- (2 ^ 63)) (min (2 ^ 63 - 1) (f64_to_i128 b)))"

definition to_int :: "'e opaal_value \<Rightarrow> ('e opaal_value, operation_error) result" where
  "to_int v =
     (case v of
        VInt i \<Rightarrow> Ok (VInt i)
      | VFloat f \<Rightarrow>
          (let truncated = f64_trunc (float_bits f)
           in if \<not> (f64_ge truncated (f64_neg TWO_POW_63) \<and> f64_lt truncated TWO_POW_63)
              then Err (ConversionOutOfRange (float_bits f))
              else Ok (VInt (f64_to_i64 truncated)))
      | _ \<Rightarrow> Err (unsupported ''int'' [v]))"

definition to_float :: "'e opaal_value \<Rightarrow> ('e opaal_value, operation_error) result option" where
  "to_float v =
     (case v of
        VInt i \<Rightarrow>
          (case finite_float_new (i64_to_f64 i) of Err _ \<Rightarrow> None | Ok f \<Rightarrow> Some (Ok (VFloat f)))
      | VFloat f \<Rightarrow> Some (Ok (VFloat f))
      | _ \<Rightarrow> Some (Err (unsupported ''float'' [v])))"

end
