(* ===== verification/Operation_Catalog.thy ===== *)
theory Operation_Catalog
  imports Operators Outcome
begin

section \<open>The catalogue of standard operations\<close>

text \<open>
  The model of the descriptors in \<^verbatim>\<open>crates/opaal-runtime/src/operation.rs\<close>: the overloads of a compiled
  operation, the validation of a descriptor, the resolution of a call, the inference of a callback's
  types, and the closed catalogue itself. The documentation texts of the descriptors are left out.
\<close>

subsection \<open>Descriptors\<close>

record operation_id =
  oi_module :: module_id
  oi_name :: string

datatype operation_input_type = InValue value_type | InStream value_type

record operation_callback =
  cb_parameters :: "value_type list"
  cb_result :: value_type

record operation_parameter =
  pm_name :: string
  pm_input :: operation_input_type
  pm_callback :: "operation_callback option"

record operation_overload =
  ov_input :: operation_input_type
  ov_parameters :: "operation_parameter list"
  ov_result :: value_type

datatype operation_purity = Pure | RequiresAuthorityContract

datatype standard_implementation =
    RandomInt | RandomFloat | RandomBytes | OpIo | OpAbs | OpMin | OpMax | OpClamp | OpFloor | OpCeil
  | OpRound | OpSqrt | OpLength | OpTrim | OpSplit | OpJoin | OpContains | OpStartsWith | OpEndsWith
  | OpReplace | OpDecodeUtf8 | OpMap | OpFilter | OpFold | OpAny | OpAll | OpCount | OpFind | OpSort
  | OpSortBy | OpTake | OpDrop | OpReverse | RecordKeys | RecordHas | RecordGetOr | RecordSelect
  | RecordSet | RecordMerge | TomlDecode | DataGet | JsonEncode | JsonDecode | DockerDecodeImage

record operation_descriptor =
  od_id :: operation_id
  od_type_parameters :: "string list"
  od_overloads :: "operation_overload list"
  od_purity :: operation_purity
  od_downstream :: call_metadata
  od_implementation :: standard_implementation

definition is_math :: "standard_implementation \<Rightarrow> bool" where
  "is_math i \<longleftrightarrow> i \<in> {OpAbs, OpMin, OpMax, OpClamp, OpFloor, OpCeil, OpRound, OpSqrt}"

definition overload_new :: "operation_input_type \<Rightarrow> value_type \<Rightarrow> operation_overload" where
  "overload_new input res =
     \<lparr>ov_input = input, ov_parameters = [\<lparr>pm_name = ''input'', pm_input = input, pm_callback = None\<rparr>],
      ov_result = res\<rparr>"

definition overload_values :: "(string \<times> value_type) list \<Rightarrow> value_type \<Rightarrow> operation_overload" where
  "overload_values params res =
     (let ps = map (\<lambda>(n, t). \<lparr>pm_name = n, pm_input = InValue t, pm_callback = None\<rparr>) params
      in \<lparr>ov_input = (case ps of [] \<Rightarrow> InValue TyNull | p # _ \<Rightarrow> pm_input p),
          ov_parameters = ps, ov_result = res\<rparr>)"

subsection \<open>Validation\<close>

datatype operation_descriptor_error =
    EmptyOverloadSet
  | DuplicateTypeParameter string
  | UnknownTypeParameter string
  | OverlappingOverloads

fun validate_type_parameters :: "value_type \<Rightarrow> string set \<Rightarrow> (unit, operation_descriptor_error) result"
and validate_all_parameters :: "value_type list \<Rightarrow> string set \<Rightarrow> (unit, operation_descriptor_error) result" where
  "validate_type_parameters (TyParameter name) declared =
     (if name \<notin> declared then Err (UnknownTypeParameter name) else Ok ())"
| "validate_type_parameters (TyList element) declared = validate_type_parameters element declared"
| "validate_type_parameters (TyNominal i arguments) declared = validate_all_parameters arguments declared"
| "validate_type_parameters t declared = Ok ()"
| "validate_all_parameters [] declared = Ok ()"
| "validate_all_parameters (t # ts) declared =
     (case validate_type_parameters t declared of
        Err e \<Rightarrow> Err e
      | Ok _ \<Rightarrow> validate_all_parameters ts declared)"

function types_overlap :: "value_type \<Rightarrow> value_type \<Rightarrow> bool" where
  "types_overlap left right =
     (case left of
        TyAny \<Rightarrow> True
      | TyParameter _ \<Rightarrow> True
      | TyList l \<Rightarrow>
          (case right of TyAny \<Rightarrow> True | TyParameter _ \<Rightarrow> True | TyList r \<Rightarrow> types_overlap l r | _ \<Rightarrow> False)
      | TyNominal i ls \<Rightarrow>
          (case right of
             TyAny \<Rightarrow> True
           | TyParameter _ \<Rightarrow> True
           | TyNominal j rs \<Rightarrow> i = j \<and> length ls = length rs \<and> list_all2 types_overlap ls rs
           | _ \<Rightarrow> False)
      | _ \<Rightarrow> (case right of TyAny \<Rightarrow> True | TyParameter _ \<Rightarrow> True | _ \<Rightarrow> left = right))"
  by pat_completeness auto

termination
  by (relation "measure (\<lambda>(l, _). size l)")
    (auto simp: less_Suc_eq_le dest: size_list_estimation' [of _ _ _ size, OF _ order_refl])

declare types_overlap.simps [simp del]

fun first_duplicate :: "string set \<Rightarrow> string list \<Rightarrow> string option" where
  "first_duplicate seen [] = None"
| "first_duplicate seen (p # ps) = (if p \<in> seen then Some p else first_duplicate (insert p seen) ps)"

definition input_type :: "operation_input_type \<Rightarrow> value_type" where
  "input_type i = (case i of InValue t \<Rightarrow> t | InStream t \<Rightarrow> t)"

text \<open>The types a descriptor mentions, in the order they are checked.\<close>

definition parameter_types :: "operation_parameter \<Rightarrow> value_type list" where
  "parameter_types p =
     input_type (pm_input p)
       # (case pm_callback p of None \<Rightarrow> [] | Some cb \<Rightarrow> cb_parameters cb @ [cb_result cb])"

definition overload_types :: "operation_overload \<Rightarrow> value_type list" where
  "overload_types ov = concat (map parameter_types (ov_parameters ov)) @ [ov_result ov]"

definition inputs_overlap :: "operation_input_type \<Rightarrow> operation_input_type \<Rightarrow> bool" where
  "inputs_overlap a b =
     (case (a, b) of
        (InValue l, InValue r) \<Rightarrow> types_overlap l r
      | (InStream l, InStream r) \<Rightarrow> types_overlap l r
      | _ \<Rightarrow> False)"

definition overloads_overlap :: "operation_overload \<Rightarrow> operation_overload \<Rightarrow> bool" where
  "overloads_overlap left right \<longleftrightarrow>
     length (ov_parameters left) = length (ov_parameters right)
       \<and> list_all (\<lambda>(l, r). inputs_overlap (pm_input l) (pm_input r)) (zip (ov_parameters left) (ov_parameters right))"

fun any_overlap :: "operation_overload list \<Rightarrow> bool" where
  "any_overlap [] \<longleftrightarrow> False"
| "any_overlap (left # rest) \<longleftrightarrow> list_ex (overloads_overlap left) rest \<or> any_overlap rest"

definition validate :: "operation_descriptor \<Rightarrow> (unit, operation_descriptor_error) result" where
  "validate d =
     (if od_overloads d = [] then Err EmptyOverloadSet
      else case first_duplicate {} (od_type_parameters d) of
        Some name \<Rightarrow> Err (DuplicateTypeParameter name)
      | None \<Rightarrow>
          (case validate_all_parameters (concat (map overload_types (od_overloads d)))
             (set (od_type_parameters d)) of
             Err e \<Rightarrow> Err e
           | Ok _ \<Rightarrow> if any_overlap (od_overloads d) then Err OverlappingOverloads else Ok ()))"

subsection \<open>Resolution of calls\<close>

fun call_types_compatible :: "value_type \<Rightarrow> value_type \<Rightarrow> bool" where
  "call_types_compatible expected actual =
     (case expected of
        TyAny \<Rightarrow> True
      | TyParameter _ \<Rightarrow> True
      | TyList e \<Rightarrow>
          (case actual of
             TyAny \<Rightarrow> True
           | TyParameter _ \<Rightarrow> True
           | TyList a \<Rightarrow> call_types_compatible e a
           | _ \<Rightarrow> accepts_type expected actual)
      | _ \<Rightarrow>
          (case actual of TyAny \<Rightarrow> True | TyParameter _ \<Rightarrow> True | _ \<Rightarrow> accepts_type expected actual))"

declare call_types_compatible.simps [simp del]

definition input_matches :: "substitution \<Rightarrow> operation_input_type \<Rightarrow> operation_input_type \<Rightarrow> bool" where
  "input_matches s expected actual =
     (case (expected, actual) of
        (InValue e, InValue a) \<Rightarrow> call_types_compatible (substitute_type e s) a
      | (InStream e, InStream a) \<Rightarrow> call_types_compatible (substitute_type e s) a
      | _ \<Rightarrow> False)"

text \<open>\<open>overload.parameters[index]\<close>: \<open>None\<close> is the panic of an index out of range.\<close>

definition parameter_input :: "operation_overload \<Rightarrow> nat \<Rightarrow> operation_input_type option" where
  "parameter_input ov i = map_option pm_input (get_opt (ov_parameters ov) i)"

fun resolve_arguments ::
  "substitution \<Rightarrow> nat \<Rightarrow> operation_overload list \<Rightarrow> operation_input_type option list
     \<Rightarrow> (operation_overload list, nat \<times> operation_input_type) result option" where
  "resolve_arguments s i candidates [] = Some (Ok candidates)"
| "resolve_arguments s i candidates (None # arguments) = resolve_arguments s (i + 1) candidates arguments"
| "resolve_arguments s i candidates (Some actual # arguments) =
     (case those (map (\<lambda>ov. parameter_input ov i) candidates) of
        None \<Rightarrow> None
      | Some inputs \<Rightarrow>
          let kept = map fst (filter (\<lambda>(ov, expected). input_matches s expected actual) (zip candidates inputs))
          in if kept = [] then Some (Err (i, case inputs of [] \<Rightarrow> actual | e # _ \<Rightarrow> e))
             else resolve_arguments s (i + 1) kept arguments)"

definition resolve_call ::
  "operation_descriptor \<Rightarrow> operation_input_type option list \<Rightarrow> substitution
     \<Rightarrow> (operation_overload list, nat \<times> operation_input_type) result option" where
  "resolve_call d arguments s =
     resolve_arguments s 0
       (filter (\<lambda>ov. length (ov_parameters ov) = length arguments) (od_overloads d)) arguments"

definition call_result :: "operation_overload list \<Rightarrow> substitution \<Rightarrow> value_type" where
  "call_result candidates s =
     (case candidates of
        [] \<Rightarrow> TyAny
      | first # _ \<Rightarrow>
          let res = substitute_type (ov_result first) s
          in if list_all (\<lambda>c. substitute_type (ov_result c) s = res) candidates then res else TyAny)"

definition inference_overload :: "operation_descriptor \<Rightarrow> operation_overload option" where
  "inference_overload d =
     (if is_math (od_implementation d) then None
      else case filter (\<lambda>ov. case ov_input ov of InValue _ \<Rightarrow> True | InStream _ \<Rightarrow> False) (od_overloads d) of
        [first] \<Rightarrow> Some first
      | _ \<Rightarrow> None)"

definition call_arity :: "operation_descriptor \<Rightarrow> nat option" where
  "call_arity d = map_option (\<lambda>ov. length (ov_parameters ov)) (get_opt (od_overloads d) 0)"

definition supports_value_pipeline :: "operation_descriptor \<Rightarrow> bool" where
  "supports_value_pipeline d \<longleftrightarrow> od_implementation d = OpLength"

datatype type_constraint = CEqual | COrdered

definition type_parameter_constraints :: "operation_descriptor \<Rightarrow> string \<Rightarrow> type_constraint list" where
  "type_parameter_constraints d name =
     (if od_implementation d = OpSort \<and> name = ''T'' \<or> od_implementation d = OpSortBy \<and> name = ''K''
      then [COrdered] else [])"

definition type_parameter_labels :: "operation_descriptor \<Rightarrow> string list" where
  "type_parameter_labels d =
     map (\<lambda>name. if type_parameter_constraints d name = [] then name else name @ '': Ordered'')
       (od_type_parameters d)"

subsection \<open>Callbacks\<close>

record resolved_type_parameter =
  tp_name :: string
  tp_constraints :: "type_constraint list"

record callback_shape =
  cs_action :: bool
  cs_generics :: "resolved_type_parameter list"
  cs_parameters :: "value_type list"
  cs_result :: value_type

fun contains_own_generic :: "callback_shape \<Rightarrow> value_type \<Rightarrow> bool" where
  "contains_own_generic shape (TyParameter name) \<longleftrightarrow> list_ex (\<lambda>p. tp_name p = name) (cs_generics shape)"
| "contains_own_generic shape (TyList element) \<longleftrightarrow> contains_own_generic shape element"
| "contains_own_generic shape (TyNominal i arguments) \<longleftrightarrow> list_ex (contains_own_generic shape) arguments"
| "contains_own_generic shape t \<longleftrightarrow> False"

definition quoted_type :: "value_type \<Rightarrow> string" where
  "quoted_type t = ''`'' @ type_display t @ ''`''"

definition callback_preflight :: "callback_shape \<Rightarrow> operation_callback \<Rightarrow> (unit, string) result" where
  "callback_preflight shape relation =
     (if cs_action shape then Err ''callbacks require a function or closure; actions are not accepted''
      else if length (cs_parameters shape) \<noteq> length (cb_parameters relation)
      then Err (''callback expects '' @ show_nat (length (cs_parameters shape))
        @ '' arguments; operation supplies '' @ show_nat (length (cb_parameters relation)))
      else Ok ())"

fun infer_pairs ::
  "callback_shape \<Rightarrow> (value_type \<times> value_type) list \<Rightarrow> substitution \<Rightarrow> (unit, string) result \<times> substitution" where
  "infer_pairs shape [] s = (Ok (), s)"
| "infer_pairs shape ((expected, actual) # rest) s =
     (if contains_own_generic shape actual then infer_pairs shape rest s
      else case unify_type expected actual s of
        (True, s') \<Rightarrow> infer_pairs shape rest s'
      | (False, s') \<Rightarrow>
          (Err (''callback type '' @ quoted_type actual @ '' conflicts with '' @ quoted_type expected), s'))"

text \<open>The substitutions are a \<open>&mut\<close> map, returned beside the result.\<close>

definition infer_operation ::
  "callback_shape \<Rightarrow> operation_callback \<Rightarrow> substitution \<Rightarrow> (unit, string) result \<times> substitution" where
  "infer_operation shape relation s =
     (case callback_preflight shape relation of
        Err e \<Rightarrow> (Err e, s)
      | Ok _ \<Rightarrow>
          infer_pairs shape
            (zip (cb_parameters relation) (cs_parameters shape) @ [(cb_result relation, cs_result shape)]) s)"

fun unify_own :: "(value_type \<times> value_type) list \<Rightarrow> substitution \<Rightarrow> (substitution, string) result" where
  "unify_own [] s = Ok s"
| "unify_own ((parameter, supplied) # rest) s =
     (case unify_type parameter supplied s of
        (True, s') \<Rightarrow> unify_own rest s'
      | (False, s') \<Rightarrow>
          Err (''callback type '' @ quoted_type parameter @ '' conflicts with operation type '' @ quoted_type supplied))"

fun generic_arguments ::
  "(value_type \<Rightarrow> type_constraint \<Rightarrow> bool) \<Rightarrow> substitution \<Rightarrow> resolved_type_parameter list
     \<Rightarrow> (value_type list, string) result" where
  "generic_arguments satisfies own [] = Ok []"
| "generic_arguments satisfies own (generic # rest) =
     (case own (tp_name generic) of
        None \<Rightarrow> Err (''cannot infer callback type `'' @ tp_name generic @ ''`; use a concrete typed wrapper'')
      | Some actual \<Rightarrow>
          if list_ex (\<lambda>c. \<not> satisfies actual c) (tp_constraints generic)
          then Err (''callback type '' @ quoted_type actual @ '' fails constraints for `'' @ tp_name generic @ ''`'')
          else (case generic_arguments satisfies own rest of Err e \<Rightarrow> Err e | Ok as \<Rightarrow> Ok (actual # as)))"

fun check_parameters :: "substitution \<Rightarrow> (value_type \<times> value_type) list \<Rightarrow> (unit, string) result" where
  "check_parameters own [] = Ok ()"
| "check_parameters own ((parameter, supplied) # rest) =
     (let p = substitute_type parameter own
      in if \<not> accepts_type p supplied
         then Err (''callback parameter '' @ quoted_type p @ '' cannot accept '' @ quoted_type supplied)
         else check_parameters own rest)"

definition instantiate ::
  "(value_type \<Rightarrow> type_constraint \<Rightarrow> bool) \<Rightarrow> callback_shape \<Rightarrow> operation_callback \<Rightarrow> substitution
     \<Rightarrow> (value_type list, string) result" where
  "instantiate satisfies shape relation operation_types =
     (case callback_preflight shape relation of
        Err e \<Rightarrow> Err e
      | Ok _ \<Rightarrow>
          let inputs = map (\<lambda>t. substitute_type t operation_types) (cb_parameters relation);
              output = substitute_type (cb_result relation) operation_types
          in case unify_own (zip (cs_parameters shape) inputs @ [(cs_result shape, output)]) Map.empty of
               Err e \<Rightarrow> Err e
             | Ok own \<Rightarrow>
                 (case generic_arguments satisfies own (cs_generics shape) of
                    Err e \<Rightarrow> Err e
                  | Ok arguments \<Rightarrow>
                      (case check_parameters own (zip (cs_parameters shape) inputs) of
                         Err e \<Rightarrow> Err e
                       | Ok _ \<Rightarrow>
                           let res = substitute_type (cs_result shape) own
                           in if res \<noteq> TyAny \<and> \<not> accepts_type output res
                              then Err (''callback result '' @ quoted_type res @ '' does not fit '' @ quoted_type output)
                              else Ok arguments)))"

subsection \<open>Execution of the length operation\<close>

text \<open>The path of a standard module displays as its name; \<open>None\<close> is an \<open>unreachable!\<close> or a failed debug assertion.\<close>

definition qualified_name :: "operation_id \<Rightarrow> string" where
  "qualified_name i = concat (mi_path (oi_module i)) @ ''::'' @ oi_name i"

definition int_of_length :: "operation_descriptor \<Rightarrow> nat \<Rightarrow> ('e opaal_value, operation_error) result" where
  "int_of_length d n =
     (if int n < 2 ^ 63 then Ok (VInt (word_of_nat n)) else Err (LengthOverflow (qualified_name (od_id d))))"

definition execute_value_with_types ::
  "operation_descriptor \<Rightarrow> 'e opaal_value \<Rightarrow> value_type list \<Rightarrow> ('e opaal_value, operation_error) result option" where
  "execute_value_with_types d v type_arguments =
     (if type_arguments \<noteq> [] \<and> length type_arguments \<noteq> length (od_type_parameters d)
      then Some (Err (GenericArity (qualified_name (od_id d)) (length (od_type_parameters d)) (length type_arguments)))
      else
        let s = map_of (rev (zip (od_type_parameters d) type_arguments))
        in case find (\<lambda>ov. case ov_input ov of InValue t \<Rightarrow> accepts (substitute_type t s) v | InStream _ \<Rightarrow> False)
                (od_overloads d) of
             None \<Rightarrow> Some (Err (NoMatchingOverload (qualified_name (od_id d)) (''Value('' @ family_name v @ '')'')))
           | Some ov \<Rightarrow>
               if od_implementation d \<noteq> OpLength
               then Some (Err (HostContextRequired ''budgeted pure operation''))
               else if ov_result ov \<noteq> TyInt then None
               else (case v of VList vs \<Rightarrow> Some (int_of_length d (length vs)) | _ \<Rightarrow> None))"

definition execute_value ::
  "operation_descriptor \<Rightarrow> 'e opaal_value \<Rightarrow> ('e opaal_value, operation_error) result option" where
  "execute_value d v = execute_value_with_types d v []"

subsection \<open>The compiled catalogue\<close>

definition operation_id_new :: "module_id \<Rightarrow> string \<Rightarrow> operation_id" where
  "operation_id_new m name = \<lparr>oi_module = m, oi_name = name\<rparr>"

definition module_standard :: "string \<Rightarrow> string \<Rightarrow> module_id" where
  "module_standard namespace m = \<lparr>mi_path = [namespace @ ''::'' @ m], mi_origin = OriginStandard namespace m\<rparr>"

definition nominal_standard :: "string \<Rightarrow> string \<Rightarrow> nominal_type_id" where
  "nominal_standard m name = \<lparr>nt_module = module_standard ''std'' m, nt_name = name\<rparr>"

text \<open>A descriptor with its \<open>expect\<close> on validation: \<open>None\<close> is the panic.\<close>

definition checked_descriptor :: "operation_descriptor \<Rightarrow> operation_descriptor option option" where
  "checked_descriptor d = (case validate d of Ok _ \<Rightarrow> Some (Some d) | Err _ \<Rightarrow> None)"

definition random_entry :: "string \<Rightarrow> (standard_implementation \<times> (string \<times> value_type) list \<times> value_type) option" where
  "random_entry name =
     (if name = ''int'' then Some (RandomInt, [(''min'', TyInt), (''max'', TyInt)], TyInt)
      else if name = ''float'' then Some (RandomFloat, [], TyFloat)
      else if name = ''bytes'' then Some (RandomBytes, [(''count'', TyInt)], TyBytes)
      else None)"

definition io_entry :: "string \<Rightarrow> (string \<times> value_type \<times> value_type \<times> capability_request) option" where
  "io_entry name =
     (if name = ''read_stdin'' then Some (''max_bytes'', TyInt, TyBytes, stdin_read)
      else if name = ''print'' \<or> name = ''println'' then Some (''text'', TyAny, TyNull, stdout_write)
      else if name = ''eprint'' \<or> name = ''eprintln'' then Some (''text'', TyAny, TyNull, stderr_write)
      else if name = ''write_stdout'' then Some (''bytes'', TyBytes, TyNull, stdout_write)
      else if name = ''write_stderr'' then Some (''bytes'', TyBytes, TyNull, stderr_write)
      else None)"

definition math_entry :: "string \<Rightarrow> (standard_implementation \<times> string list \<times> bool) option" where
  "math_entry name =
     (if name = ''abs'' then Some (OpAbs, [''value''], True)
      else if name = ''min'' then Some (OpMin, [''left'', ''right''], True)
      else if name = ''max'' then Some (OpMax, [''left'', ''right''], True)
      else if name = ''clamp'' then Some (OpClamp, [''value'', ''min'', ''max''], True)
      else if name = ''floor'' then Some (OpFloor, [''value''], False)
      else if name = ''ceil'' then Some (OpCeil, [''value''], False)
      else if name = ''round'' then Some (OpRound, [''value''], False)
      else if name = ''sqrt'' then Some (OpSqrt, [''value''], False)
      else None)"

definition list_entry ::
  "string \<Rightarrow> (standard_implementation \<times> string list \<times> (string \<times> value_type) list \<times> operation_callback option
     \<times> value_type) option" where
  "list_entry name =
     (let t = TyParameter ''T''; u = TyParameter ''U''; a = TyParameter ''A''; k = TyParameter ''K'';
          predicate = Some \<lparr>cb_parameters = [t], cb_result = TyBool\<rparr>;
          inputs = [(''input'', TyList t), (''predicate'', TyAny)]
      in if name = ''map''
         then Some (OpMap, [''T'', ''U''], [(''input'', TyList t), (''transform'', TyAny)],
           Some \<lparr>cb_parameters = [t], cb_result = u\<rparr>, TyList u)
         else if name = ''filter'' then Some (OpFilter, [''T''], inputs, predicate, TyList t)
         else if name = ''fold''
         then Some (OpFold, [''T'', ''A''], [(''input'', TyList t), (''initial'', a), (''combine'', TyAny)],
           Some \<lparr>cb_parameters = [a, t], cb_result = a\<rparr>, a)
         else if name = ''any'' then Some (OpAny, [''T''], inputs, predicate, TyBool)
         else if name = ''all'' then Some (OpAll, [''T''], inputs, predicate, TyBool)
         else if name = ''count'' then Some (OpCount, [''T''], inputs, predicate, TyInt)
         else if name = ''find''
         then Some (OpFind, [''T''], inputs, predicate, TyNominal (nominal_standard ''outcome'' ''Option'') [t])
         else if name = ''sort_by''
         then Some (OpSortBy, [''T'', ''K''], [(''input'', TyList t), (''key'', TyAny)],
           Some \<lparr>cb_parameters = [t], cb_result = k\<rparr>, TyList t)
         else if name = ''sort'' then Some (OpSort, [''T''], [(''input'', TyList t)], None, TyList t)
         else if name = ''reverse'' then Some (OpReverse, [''T''], [(''input'', TyList t)], None, TyList t)
         else if name = ''take'' then Some (OpTake, [''T''], [(''input'', TyList t), (''count'', TyInt)], None, TyList t)
         else if name = ''drop'' then Some (OpDrop, [''T''], [(''input'', TyList t), (''count'', TyInt)], None, TyList t)
         else None)"

definition data_entry :: "string \<Rightarrow> (standard_implementation \<times> (string \<times> value_type) list \<times> value_type) option" where
  "data_entry name =
     (if name = ''toml_decode'' then Some (TomlDecode, [(''input'', TyBytes)], TyAny)
      else if name = ''get'' then Some (DataGet, [(''input'', TyAny), (''keys'', TyList TyString)], TyAny)
      else if name = ''json_encode'' then Some (JsonEncode, [(''input'', TyAny)], TyBytes)
      else if name = ''json_decode'' then Some (JsonDecode, [(''input'', TyBytes)], TyAny)
      else None)"

definition record_entry :: "string \<Rightarrow> (standard_implementation \<times> (string \<times> value_type) list \<times> value_type) option" where
  "record_entry name =
     (if name = ''keys'' then Some (RecordKeys, [(''input'', TyRecord)], TyList TyString)
      else if name = ''has'' then Some (RecordHas, [(''input'', TyRecord), (''key'', TyString)], TyBool)
      else if name = ''get_or''
      then Some (RecordGetOr, [(''input'', TyRecord), (''key'', TyString), (''default'', TyAny)], TyAny)
      else if name = ''select''
      then Some (RecordSelect, [(''input'', TyRecord), (''keys'', TyList TyString)], TyRecord)
      else if name = ''set''
      then Some (RecordSet, [(''input'', TyRecord), (''key'', TyString), (''value'', TyAny)], TyRecord)
      else if name = ''merge'' then Some (RecordMerge, [(''left'', TyRecord), (''right'', TyRecord)], TyRecord)
      else None)"

definition string_entry :: "string \<Rightarrow> (standard_implementation \<times> (string \<times> value_type) list \<times> value_type) option" where
  "string_entry name =
     (if name = ''trim'' then Some (OpTrim, [(''input'', TyString)], TyString)
      else if name = ''split''
      then Some (OpSplit, [(''input'', TyString), (''separator'', TyString)], TyList TyString)
      else if name = ''join''
      then Some (OpJoin, [(''input'', TyList TyString), (''separator'', TyString)], TyString)
      else if name = ''contains'' then Some (OpContains, [(''input'', TyString), (''pattern'', TyString)], TyBool)
      else if name = ''starts_with'' then Some (OpStartsWith, [(''input'', TyString), (''prefix'', TyString)], TyBool)
      else if name = ''ends_with'' then Some (OpEndsWith, [(''input'', TyString), (''suffix'', TyString)], TyBool)
      else if name = ''replace''
      then Some (OpReplace, [(''input'', TyString), (''pattern'', TyString), (''replacement'', TyString)], TyString)
      else if name = ''decode_utf8'' then Some (OpDecodeUtf8, [(''input'', TyBytes)], TyString)
      else None)"

definition pure_descriptor ::
  "module_id \<Rightarrow> string \<Rightarrow> string list \<Rightarrow> operation_overload list \<Rightarrow> standard_implementation \<Rightarrow> operation_descriptor" where
  "pure_descriptor m name generics overloads implementation =
     \<lparr>od_id = operation_id_new m name, od_type_parameters = generics, od_overloads = overloads,
      od_purity = Pure, od_downstream = call_foundation, od_implementation = implementation\<rparr>"

definition effect_descriptor ::
  "module_id \<Rightarrow> string \<Rightarrow> operation_overload \<Rightarrow> capability_request \<Rightarrow> standard_implementation
     \<Rightarrow> operation_descriptor" where
  "effect_descriptor m name overload request implementation =
     \<lparr>od_id = operation_id_new m name, od_type_parameters = [], od_overloads = [overload],
      od_purity = RequiresAuthorityContract,
      od_downstream = with_declared_request request call_foundation, od_implementation = implementation\<rparr>"

text \<open>The callback of the last parameter; \<open>None\<close> is the panic of an empty parameter list.\<close>

definition with_callback :: "operation_callback option \<Rightarrow> operation_overload \<Rightarrow> operation_overload option" where
  "with_callback cb ov =
     (if ov_parameters ov = [] then None
      else Some (ov\<lparr>ov_parameters := butlast (ov_parameters ov) @ [(last (ov_parameters ov))\<lparr>pm_callback := cb\<rparr>]\<rparr>))"

definition math_overloads :: "string list \<Rightarrow> bool \<Rightarrow> operation_overload list" where
  "math_overloads names homogeneous =
     map (\<lambda>family. overload_values (map (\<lambda>n. (n, family)) names) family)
       (if homogeneous then [TyInt, TyFloat] else [TyFloat])"

definition simple_operation ::
  "module_id \<Rightarrow> string \<Rightarrow> (standard_implementation \<times> (string \<times> value_type) list \<times> value_type) option
     \<Rightarrow> operation_descriptor option option" where
  "simple_operation m name entry =
     (case entry of
        None \<Rightarrow> Some None
      | Some (implementation, parameters, res) \<Rightarrow>
          checked_descriptor (pure_descriptor m name [] [overload_values parameters res] implementation))"

definition standard_operation :: "module_id \<Rightarrow> string \<Rightarrow> operation_descriptor option option" where
  "standard_operation m name =
     (case mi_origin m of
        OriginLocal \<Rightarrow> Some None
      | OriginStandard namespace standard \<Rightarrow>
          if namespace \<noteq> ''std'' then Some None
          else if standard = ''random'' then
            (case random_entry name of
               None \<Rightarrow> Some None
             | Some (implementation, parameters, res) \<Rightarrow>
                 checked_descriptor
                   (effect_descriptor m name (overload_values parameters res) entropy_system implementation))
          else if standard = ''io'' then
            (case io_entry name of
               None \<Rightarrow> Some None
             | Some (parameter, argument_type, res, request) \<Rightarrow>
                 if rq_effect request \<notin> {StdinRead, StdoutWrite, StderrWrite} then None
                 else checked_descriptor
                   (effect_descriptor m name (overload_values [(parameter, argument_type)] res) request OpIo))
          else if standard = ''math'' then
            (case math_entry name of
               None \<Rightarrow> Some None
             | Some (implementation, names, homogeneous) \<Rightarrow>
                 checked_descriptor (pure_descriptor m name [] (math_overloads names homogeneous) implementation))
          else if standard = ''list'' then
            (case list_entry name of
               None \<Rightarrow> Some None
             | Some (implementation, generics, parameters, cb, res) \<Rightarrow>
                 (case with_callback cb (overload_values parameters res) of
                    None \<Rightarrow> None
                  | Some overload \<Rightarrow> checked_descriptor (pure_descriptor m name generics [overload] implementation)))
          else if standard = ''docker'' \<and> name = ''decode_image'' then
            checked_descriptor
              (pure_descriptor m name []
                [overload_values [(''document'', TyRecord)] (TyNominal (nominal_standard ''docker'' ''Image'') [])]
                DockerDecodeImage)
          else if standard = ''data'' then simple_operation m name (data_entry name)
          else if standard = ''record'' then simple_operation m name (record_entry name)
          else if standard = ''string'' then simple_operation m name (string_entry name)
          else if standard \<noteq> ''value'' \<or> name \<noteq> ''length'' then Some None
          else
            checked_descriptor
              (pure_descriptor m ''length'' [''T'']
                [overload_new (InValue (TyList (TyParameter ''T''))) TyInt,
                 overload_new (InStream (TyParameter ''T'')) TyInt] OpLength))"

definition operation_names :: "string list" where
  "operation_names =
     [''int'', ''float'', ''bytes'', ''read_stdin'', ''print'', ''println'', ''eprint'', ''eprintln'',
      ''write_stdout'', ''write_stderr'', ''abs'', ''min'', ''max'', ''clamp'', ''floor'', ''ceil'', ''round'',
      ''sqrt'', ''length'', ''trim'', ''split'', ''join'', ''contains'', ''starts_with'', ''ends_with'', ''replace'',
      ''decode_utf8'', ''toml_decode'', ''get'', ''json_encode'', ''json_decode'', ''decode_image'', ''map'',
      ''filter'', ''fold'', ''any'', ''all'', ''count'', ''find'', ''sort'', ''sort_by'', ''take'', ''drop'',
      ''reverse'', ''keys'', ''has'', ''get_or'', ''select'', ''set'', ''merge'']"

definition standard_operations :: "module_id \<Rightarrow> operation_descriptor list option" where
  "standard_operations m =
     map_option (List.map_filter id) (those (map (standard_operation m) operation_names))"

subsection \<open>Overloads that cannot be confused\<close>

text \<open>A type without \<open>Any\<close> and without type parameters: full evidence on an argument.\<close>

fun concrete :: "value_type \<Rightarrow> bool" where
  "concrete TyAny \<longleftrightarrow> False"
| "concrete (TyParameter _) \<longleftrightarrow> False"
| "concrete (TyList t) \<longleftrightarrow> concrete t"
| "concrete (TyNominal i ts) \<longleftrightarrow> list_all concrete ts"
| "concrete t \<longleftrightarrow> True"

lemma overlap_wild [simp]:
  "types_overlap TyAny r" "types_overlap (TyParameter n) r" "types_overlap l TyAny" "types_overlap l (TyParameter n)"
  by (simp_all add: types_overlap.simps split: value_type.splits)

lemma overlap_list [simp]: "types_overlap (TyList l) (TyList r) = types_overlap l r"
  by (subst types_overlap.simps) simp

lemma overlap_nominal [simp]:
  "types_overlap (TyNominal i ls) (TyNominal j rs) \<longleftrightarrow> i = j \<and> list_all2 types_overlap ls rs"
  by (subst types_overlap.simps) (auto dest: list_all2_lengthD)

lemma same_instance_overlap:
  "substitute_type l s = a \<Longrightarrow> substitute_type r s = a \<Longrightarrow> concrete a \<Longrightarrow> types_overlap l r"
proof (induction l arbitrary: r a)
  case (TyList l)
  then show ?case by (cases r) (auto simp: types_overlap.simps split: option.splits)
next
  case (TyNominal i ls)
  show ?case
  proof (cases r)
    case r: (TyNominal j rs)
    have e: "map (\<lambda>t. substitute_type t s) ls = map (\<lambda>t. substitute_type t s) rs" "i = j"
      using TyNominal.prems r by auto
    have "list_all2 types_overlap ls rs"
    proof (rule list_all2_all_nthI)
      show len: "length ls = length rs" using e(1) by (metis length_map)
      fix n
      assume n: "n < length ls"
      then have "substitute_type (ls ! n) s = substitute_type (rs ! n) s"
        using e(1) len by (metis nth_map)
      moreover have "concrete (substitute_type (ls ! n) s)"
        using TyNominal.prems n by (auto simp: list_all_iff)
      ultimately show "types_overlap (ls ! n) (rs ! n)" using TyNominal.IH n by auto
    qed
    then show ?thesis using r e(2) by simp
  qed (use TyNominal.prems in \<open>auto split: option.splits\<close>)
qed (auto simp: types_overlap.simps split: value_type.splits option.splits)

lemma compatible_list:
  "concrete a \<Longrightarrow> call_types_compatible (TyList e) a \<longleftrightarrow> (\<exists>a'. a = TyList a' \<and> call_types_compatible e a')"
  by (subst call_types_compatible.simps) (cases a; simp)

lemma compatible_other:
  "concrete a \<Longrightarrow> e \<noteq> TyAny \<Longrightarrow> (\<nexists>n. e = TyParameter n) \<Longrightarrow> (\<nexists>t. e = TyList t)
    \<Longrightarrow> call_types_compatible e a \<longleftrightarrow> e = a"
  by (subst call_types_compatible.simps) (cases e; cases a; simp)

definition wild :: "value_type \<Rightarrow> bool" where
  "wild t \<longleftrightarrow> t = TyAny \<or> (\<exists>n. t = TyParameter n)"

lemma overlap_wild_iff: "wild l \<or> wild r \<Longrightarrow> types_overlap l r"
  by (auto simp: wild_def)

lemma substitute_shape:
  assumes "\<not> wild t"
  shows "\<not> wild (substitute_type t s)" "(\<nexists>u. t = TyList u) \<Longrightarrow> (\<nexists>u. substitute_type t s = TyList u)"
  using assms by (cases t; simp add: wild_def)+

lemma compatible_overlap_flat:
  assumes "call_types_compatible (substitute_type l s) a" "call_types_compatible (substitute_type r s) a"
    and "concrete a" "\<nexists>u. a = TyList u"
  shows "types_overlap l r"
proof (cases "wild l \<or> wild r")
  case False
  have "substitute_type t s = a" if "\<not> wild t" "call_types_compatible (substitute_type t s) a" for t
  proof (cases "\<exists>u. t = TyList u")
    case True
    then show ?thesis using that assms(3,4) by (auto simp: compatible_list)
  next
    case False
    then show ?thesis
      using that substitute_shape [of t s] compatible_other [OF assms(3)] unfolding wild_def by metis
  qed
  then show ?thesis using False assms same_instance_overlap by blast
qed (rule overlap_wild_iff)

lemma compatible_overlap:
  "call_types_compatible (substitute_type l s) a \<Longrightarrow> call_types_compatible (substitute_type r s) a
    \<Longrightarrow> concrete a \<Longrightarrow> types_overlap l r"
proof (induction "size a" arbitrary: a l r rule: less_induct)
  case (less a l r)
  show ?case
  proof (cases "\<exists>u. a = TyList u")
    case False
    then show ?thesis using compatible_overlap_flat less.prems by blast
  next
    case True
    then obtain u where u: "a = TyList u" by blast
    show ?thesis
    proof (cases "wild l \<or> wild r")
      case False
      then obtain l' r' where "l = TyList l'" "r = TyList r'"
        using less.prems u substitute_shape [of l s] substitute_shape [of r s] compatible_other [OF less.prems(3)]
        unfolding wild_def by metis
      then show ?thesis using less.hyps [of u l' r'] less.prems u by (simp add: compatible_list)
    qed (rule overlap_wild_iff)
  qed
qed

lemma input_matches_overlap:
  "input_matches s l a \<Longrightarrow> input_matches s r a \<Longrightarrow> concrete (input_type a) \<Longrightarrow> inputs_overlap l r"
  by (auto simp: input_matches_def inputs_overlap_def input_type_def intro: compatible_overlap
      split: operation_input_type.splits)

subsection \<open>What resolution selects\<close>

text \<open>The known arguments, from position \<open>i\<close> on, that an overload accepts.\<close>

fun fits_from :: "substitution \<Rightarrow> nat \<Rightarrow> operation_input_type option list \<Rightarrow> operation_overload \<Rightarrow> bool" where
  "fits_from s i [] ov \<longleftrightarrow> True"
| "fits_from s i (None # arguments) ov \<longleftrightarrow> fits_from s (i + 1) arguments ov"
| "fits_from s i (Some a # arguments) ov \<longleftrightarrow>
     input_matches s (pm_input (ov_parameters ov ! i)) a \<and> fits_from s (i + 1) arguments ov"

lemma those_map_Some: "(\<And>x. x \<in> set xs \<Longrightarrow> f x = Some (g x)) \<Longrightarrow> those (map f xs) = Some (map g xs)"
  by (induction xs) auto

lemma kept_filter:
  "map fst (filter (\<lambda>(ov, e). P e) (zip cs (map f cs))) = filter (\<lambda>ov. P (f ov)) cs"
  by (induction cs) auto

lemma resolve_step:
  assumes "\<forall>ov \<in> set cs. i < length (ov_parameters ov)"
  shows "resolve_arguments s i cs (Some a # arguments) =
     (let kept = filter (\<lambda>ov. input_matches s (pm_input (ov_parameters ov ! i)) a) cs
      in if kept = []
         then Some (Err (i, case cs of [] \<Rightarrow> a | ov # _ \<Rightarrow> pm_input (ov_parameters ov ! i)))
         else resolve_arguments s (i + 1) kept arguments)"
proof -
  have "those (map (\<lambda>ov. parameter_input ov i) cs) = Some (map (\<lambda>ov. pm_input (ov_parameters ov ! i)) cs)"
    by (rule those_map_Some) (use assms in \<open>simp add: parameter_input_def get_opt_def\<close>)
  then show ?thesis
    using kept_filter [of "\<lambda>e. input_matches s e a" cs "\<lambda>ov. pm_input (ov_parameters ov ! i)"]
    by (auto simp: Let_def split: list.splits)
qed

definition resolution_ok ::
  "substitution \<Rightarrow> nat \<Rightarrow> operation_overload list \<Rightarrow> operation_input_type option list
     \<Rightarrow> (operation_overload list, nat \<times> operation_input_type) result option \<Rightarrow> bool" where
  "resolution_ok s i cs as r \<longleftrightarrow>
     (case r of
        None \<Rightarrow> False
      | Some (Ok ks) \<Rightarrow> ks = filter (fits_from s i as) cs \<and> (ks = [] \<longrightarrow> cs = [])
      | Some (Err (k, e)) \<Rightarrow>
          i \<le> k \<and> k < i + length as \<and> as ! (k - i) \<noteq> None
          \<and> filter (fits_from s i (take (Suc (k - i)) as)) cs = []
          \<and> (cs = [] \<or> filter (fits_from s i (take (k - i) as)) cs \<noteq> []))"

lemma resolution_cons:
  assumes r: "resolution_ok s (i + 1) kept as r"
    and ff: "\<And>bs. filter (fits_from s i (x # bs)) cs = filter (fits_from s (i + 1) bs) kept"
    and ne: "kept = [] \<Longrightarrow> cs = []"
  shows "resolution_ok s i cs (x # as) r"
proof (cases r)
  case None
  then show ?thesis using r by (simp add: resolution_ok_def)
next
  case (Some q)
  show ?thesis
  proof (cases q)
    case (Inr ks)
    have "ks = filter (fits_from s (i + 1) as) kept \<and> (ks = [] \<longrightarrow> kept = [])"
      using r unfolding Some Inr resolution_ok_def option.case sum.case .
    then have "ks = filter (fits_from s i (x # as)) cs" "ks = [] \<longrightarrow> cs = []" using ff [of as] ne by metis+
    then show ?thesis unfolding Some Inr resolution_ok_def option.case sum.case by blast
  next
    case (Inl ke)
    obtain k e where ke: "ke = (k, e)" by (cases ke)
    have b: "i + 1 \<le> k" "k < i + 1 + length as" "as ! (k - (i + 1)) \<noteq> None"
      "filter (fits_from s (i + 1) (take (Suc (k - (i + 1))) as)) kept = []"
      "kept = [] \<or> filter (fits_from s (i + 1) (take (k - (i + 1)) as)) kept \<noteq> []"
      using r Some Inl ke by (simp_all add: resolution_ok_def)
    define j where "j = k - (i + 1)"
    have k: "k - i = Suc j" using b(1) by (simp add: j_def)
    have "filter (fits_from s i (take (Suc (Suc j)) (x # as))) cs = []"
      using b(4) ff [of "take (Suc j) as"] by (simp add: j_def)
    moreover have "cs = [] \<or> filter (fits_from s i (take (Suc j) (x # as))) cs \<noteq> []"
      using b(5) ff [of "take j as"] ne unfolding j_def [symmetric] by (metis take_Suc_Cons)
    ultimately show ?thesis using b(1-3) Some Inl ke k by (simp add: resolution_ok_def j_def)
  qed
qed

lemma resolve_arguments_spec:
  "\<forall>ov \<in> set cs. i + length as \<le> length (ov_parameters ov) \<Longrightarrow> resolution_ok s i cs as (resolve_arguments s i cs as)"
proof (induction as arbitrary: i cs)
  case (Cons x as)
  have len: "\<forall>ov \<in> set cs. i < length (ov_parameters ov)" using Cons.prems by auto
  show ?case
  proof (cases x)
    case None
    have "resolution_ok s (i + 1) cs as (resolve_arguments s (i + 1) cs as)"
      by (rule Cons.IH) (use Cons.prems in auto)
    then have "resolution_ok s i cs (x # as) (resolve_arguments s (i + 1) cs as)"
      by (rule resolution_cons) (auto simp: None intro: filter_cong)
    then show ?thesis by (simp add: None)
  next
    case (Some a)
    let ?kept = "filter (\<lambda>ov. input_matches s (pm_input (ov_parameters ov ! i)) a) cs"
    show ?thesis
    proof (cases "?kept = []")
      case True
      then have "resolve_arguments s i cs (x # as)
          = Some (Err (i, case cs of [] \<Rightarrow> a | ov # _ \<Rightarrow> pm_input (ov_parameters ov ! i)))"
        unfolding Some resolve_step [OF len] by (simp only: Let_def if_True simp_thms)
      then show ?thesis
        using True Some by (cases cs) (auto simp: resolution_ok_def filter_empty_conv simp del: resolve_arguments.simps)
    next
      case False
      have "resolution_ok s (i + 1) ?kept as (resolve_arguments s (i + 1) ?kept as)"
        by (rule Cons.IH) (use Cons.prems in auto)
      then have "resolution_ok s i cs (x # as) (resolve_arguments s (i + 1) ?kept as)"
        by (rule resolution_cons) (use Some False in \<open>auto simp: filter_filter intro: filter_cong\<close>)
      then show ?thesis using False unfolding Some resolve_step [OF len] by (simp only: Let_def if_False)
    qed
  qed
qed (simp add: resolution_ok_def)

lemma fits_from_nth:
  "fits_from s i as ov \<longleftrightarrow>
     (\<forall>j < length as. \<forall>a. as ! j = Some a \<longrightarrow> input_matches s (pm_input (ov_parameters ov ! (i + j))) a)"
proof (induction as arbitrary: i)
  case (Cons x as)
  have "(\<forall>j < length (x # as). \<forall>a. (x # as) ! j = Some a \<longrightarrow> input_matches s (pm_input (ov_parameters ov ! (i + j))) a)
    \<longleftrightarrow> (\<forall>a. x = Some a \<longrightarrow> input_matches s (pm_input (ov_parameters ov ! i)) a)
      \<and> (\<forall>j < length as. \<forall>a. as ! j = Some a \<longrightarrow> input_matches s (pm_input (ov_parameters ov ! (i + 1 + j))) a)"
    unfolding length_Cons All_less_Suc2 by simp
  then show ?case using Cons by (cases x) simp_all
qed simp

lemma any_overlap_nth:
  "\<not> any_overlap ovs \<longleftrightarrow> (\<forall>i j. i < j \<longrightarrow> j < length ovs \<longrightarrow> \<not> overloads_overlap (ovs ! i) (ovs ! j))"
proof (induction ovs)
  case (Cons ov ovs)
  have "(\<forall>i j. i < j \<longrightarrow> j < length (ov # ovs) \<longrightarrow> \<not> overloads_overlap ((ov # ovs) ! i) ((ov # ovs) ! j))
    \<longleftrightarrow> (\<forall>j < length ovs. \<not> overloads_overlap ov (ovs ! j))
      \<and> (\<forall>i j. i < j \<longrightarrow> j < length ovs \<longrightarrow> \<not> overloads_overlap (ovs ! i) (ovs ! j))"
    (is "?l \<longleftrightarrow> ?r")
  proof
    assume l: ?l
    have "\<not> overloads_overlap ov (ovs ! j)" if "j < length ovs" for j using l [rule_format, of 0 "Suc j"] that by simp
    moreover have "\<not> overloads_overlap (ovs ! i) (ovs ! j)" if "i < j" "j < length ovs" for i j
      using l [rule_format, of "Suc i" "Suc j"] that by simp
    ultimately show ?r by blast
  next
    assume r: ?r
    show ?l
    proof (intro allI impI)
      fix i j
      assume "i < j" "j < length (ov # ovs)"
      then show "\<not> overloads_overlap ((ov # ovs) ! i) ((ov # ovs) ! j)"
        using r by (cases i; cases j) auto
    qed
  qed
  then show ?case unfolding any_overlap.simps list_ex_length de_Morgan_disj Cons.IH by blast
qed simp

lemma fits_both_overlap:
  assumes "fits_from s 0 as l" "fits_from s 0 as r" "length (ov_parameters l) = length as" "length (ov_parameters r) = length as"
    and "\<forall>a \<in> set as. \<exists>t. a = Some t \<and> concrete (input_type t)"
  shows "overloads_overlap l r"
proof -
  have "inputs_overlap (pm_input (ov_parameters l ! j)) (pm_input (ov_parameters r ! j))" if "j < length as" for j
  proof -
    obtain t where t: "as ! j = Some t" "concrete (input_type t)" using assms(5) \<open>j < length as\<close> nth_mem by blast
    then have "input_matches s (pm_input (ov_parameters l ! j)) t" "input_matches s (pm_input (ov_parameters r ! j)) t"
      using assms(1,2) that by (simp_all add: fits_from_nth)
    then show ?thesis using input_matches_overlap t(2) by blast
  qed
  then show ?thesis using assms(3,4) by (auto simp: overloads_overlap_def list_all_iff set_zip)
qed

lemma filter_unique:
  assumes "\<And>i j. i < j \<Longrightarrow> j < length xs \<Longrightarrow> \<not> (P (xs ! i) \<and> P (xs ! j))"
  shows "length (filter P xs) \<le> 1"
  using assms
proof (induction xs)
  case (Cons x xs)
  have IH: "length (filter P xs) \<le> 1"
    by (rule Cons.IH) (use Cons.prems [of "Suc _" "Suc _"] in auto)
  have "\<not> P y" if "P x" "y \<in> set xs" for y
    using that Cons.prems [of 0 "Suc _"] by (fastforce simp: in_set_conv_nth)
  then show ?case using IH by (auto simp: filter_empty_conv)
qed simp

lemma validate_ok:
  "validate d = Ok () \<Longrightarrow> od_overloads d \<noteq> [] \<and> \<not> any_overlap (od_overloads d)"
  by (auto simp: validate_def split: if_splits option.splits sum.splits)

subsection \<open>The catalogue is sound and complete\<close>

text \<open>A descriptor of the catalogue: it validates, carries its name, and declares an effect unless it is pure.\<close>

definition length_overloads :: "operation_overload list" where
  "length_overloads =
     [overload_new (InValue (TyList (TyParameter ''T''))) TyInt, overload_new (InStream (TyParameter ''T'')) TyInt]"

definition entry_ok :: "module_id \<Rightarrow> string \<Rightarrow> operation_descriptor option option \<Rightarrow> bool" where
  "entry_ok m name r \<longleftrightarrow>
     (case r of
        None \<Rightarrow> False
      | Some None \<Rightarrow> True
      | Some (Some d) \<Rightarrow>
          validate d = Ok () \<and> od_id d = operation_id_new m name \<and> name \<in> set operation_names
            \<and> (od_purity d = Pure \<longleftrightarrow> cm_capability_request (od_downstream d) = None)
            \<and> (od_purity d = Pure \<longrightarrow> call_is_foundation_only (od_downstream d))
            \<and> (od_implementation d = OpLength \<longrightarrow> od_overloads d = length_overloads))"

lemma foundation_pure: "cm_capability_request call_foundation = None" "call_is_foundation_only call_foundation"
  by code_simp+

lemma entry_ok_checked:
  assumes "validate d = Ok ()" "od_id d = operation_id_new m name" "name \<in> set operation_names"
    and "od_purity d = Pure \<longleftrightarrow> cm_capability_request (od_downstream d) = None"
    and "od_purity d = Pure \<longrightarrow> call_is_foundation_only (od_downstream d)"
    and "od_implementation d = OpLength \<longrightarrow> od_overloads d = length_overloads"
  shows "entry_ok m name (checked_descriptor d)"
  using assms by (simp add: entry_ok_def checked_descriptor_def)

lemma pure_entry_ok:
  assumes "validate (pure_descriptor m name generics ovs imp) = Ok ()" "name \<in> set operation_names"
    and "imp = OpLength \<longrightarrow> ovs = length_overloads"
  shows "entry_ok m name (checked_descriptor (pure_descriptor m name generics ovs imp))"
  using assms foundation_pure by (intro entry_ok_checked) (simp_all add: pure_descriptor_def)

lemma effect_entry_ok:
  assumes "validate (effect_descriptor m name ov request imp) = Ok ()" "name \<in> set operation_names"
    and "imp \<noteq> OpLength"
  shows "entry_ok m name (checked_descriptor (effect_descriptor m name ov request imp))"
  using assms by (intro entry_ok_checked) (simp_all add: effect_descriptor_def with_declared_request_def)

text \<open>Validation looks only at the type parameters and at the overloads.\<close>

definition valid_shape :: "string list \<Rightarrow> operation_overload list \<Rightarrow> bool" where
  "valid_shape generics ovs \<longleftrightarrow>
     ovs \<noteq> [] \<and> first_duplicate {} generics = None
       \<and> validate_all_parameters (concat (map overload_types ovs)) (set generics) = Ok () \<and> \<not> any_overlap ovs"

lemma validate_shape:
  "validate (pure_descriptor m name generics ovs imp) = Ok () \<longleftrightarrow> valid_shape generics ovs"
  "validate (effect_descriptor m name ov request imp) = Ok () \<longleftrightarrow> valid_shape [] [ov]"
  by (auto simp: validate_def valid_shape_def pure_descriptor_def effect_descriptor_def split: option.splits sum.splits)

text \<open>A table of entries is checked name by name, over the list of its names.\<close>

definition simple_valid :: "(standard_implementation \<times> (string \<times> value_type) list \<times> value_type) option \<Rightarrow> bool" where
  "simple_valid entry \<longleftrightarrow>
     (case entry of None \<Rightarrow> False | Some (imp, ps, res) \<Rightarrow> imp \<noteq> OpLength \<and> valid_shape [] [overload_values ps res])"

lemma simple_operation_ok:
  assumes "\<And>n. f n \<noteq> None \<Longrightarrow> n \<in> set ns" "list_all (\<lambda>n. n \<in> set operation_names \<and> simple_valid (f n)) ns"
  shows "entry_ok m name (simple_operation m name (f name))"
proof (cases "f name")
  case None
  then show ?thesis by (simp add: simple_operation_def entry_ok_def)
next
  case (Some e)
  then have "name \<in> set ns" using assms(1) [of name] by simp
  then have "name \<in> set operation_names" "simple_valid (f name)" using assms(2) by (auto simp: list_all_iff)
  then show ?thesis
    using Some by (auto simp: simple_operation_def simple_valid_def validate_shape intro: pure_entry_ok split: prod.splits)
qed

definition string_names :: "string list" where
  "string_names = [''trim'', ''split'', ''join'', ''contains'', ''starts_with'', ''ends_with'', ''replace'', ''decode_utf8'']"

definition record_names :: "string list" where
  "record_names = [''keys'', ''has'', ''get_or'', ''select'', ''set'', ''merge'']"

definition data_names :: "string list" where
  "data_names = [''toml_decode'', ''get'', ''json_encode'', ''json_decode'']"

lemma string_operations_ok: "entry_ok m name (simple_operation m name (string_entry name))"
proof (rule simple_operation_ok)
  show "n \<in> set string_names" if "string_entry n \<noteq> None" for n
    using that by (auto simp: string_entry_def string_names_def split: if_splits)
  show "list_all (\<lambda>n. n \<in> set operation_names \<and> simple_valid (string_entry n)) string_names" by code_simp
qed

lemma record_operations_ok: "entry_ok m name (simple_operation m name (record_entry name))"
proof (rule simple_operation_ok)
  show "n \<in> set record_names" if "record_entry n \<noteq> None" for n
    using that by (auto simp: record_entry_def record_names_def split: if_splits)
  show "list_all (\<lambda>n. n \<in> set operation_names \<and> simple_valid (record_entry n)) record_names" by code_simp
qed

lemma data_operations_ok: "entry_ok m name (simple_operation m name (data_entry name))"
proof (rule simple_operation_ok)
  show "n \<in> set data_names" if "data_entry n \<noteq> None" for n
    using that by (auto simp: data_entry_def data_names_def split: if_splits)
  show "list_all (\<lambda>n. n \<in> set operation_names \<and> simple_valid (data_entry n)) data_names" by code_simp
qed

lemma random_operations_ok:
  "entry_ok m name (case random_entry name of
     None \<Rightarrow> Some None
   | Some (imp, ps, res) \<Rightarrow> checked_descriptor (effect_descriptor m name (overload_values ps res) entropy_system imp))"
proof -
  define ns where "ns = [''int'', ''float'', ''bytes'']"
  have "name \<in> set ns" if "random_entry name \<noteq> None"
    using that by (auto simp: random_entry_def ns_def split: if_splits)
  moreover have "list_all (\<lambda>n. n \<in> set operation_names \<and> simple_valid (random_entry n)) ns"
    unfolding ns_def by code_simp
  ultimately show ?thesis
    by (cases "random_entry name")
      (auto simp: entry_ok_def [of m name "Some None"] list_all_iff simple_valid_def validate_shape
        intro!: effect_entry_ok split: prod.splits)
qed

definition io_valid :: "(string \<times> value_type \<times> value_type \<times> capability_request) option \<Rightarrow> bool" where
  "io_valid entry \<longleftrightarrow>
     (case entry of
        None \<Rightarrow> False
      | Some (p, t, res, rq) \<Rightarrow>
          rq_effect rq \<in> {StdinRead, StdoutWrite, StderrWrite} \<and> valid_shape [] [overload_values [(p, t)] res])"

lemma io_operations_ok:
  "entry_ok m name (case io_entry name of
     None \<Rightarrow> Some None
   | Some (p, t, res, rq) \<Rightarrow>
       if rq_effect rq \<notin> {StdinRead, StdoutWrite, StderrWrite} then None
       else checked_descriptor (effect_descriptor m name (overload_values [(p, t)] res) rq OpIo))"
proof -
  define ns where
    "ns = [''read_stdin'', ''print'', ''println'', ''eprint'', ''eprintln'', ''write_stdout'', ''write_stderr'']"
  have "name \<in> set ns" if "io_entry name \<noteq> None"
    using that by (auto simp: io_entry_def ns_def split: if_splits)
  moreover have "list_all (\<lambda>n. n \<in> set operation_names \<and> io_valid (io_entry n)) ns"
    unfolding ns_def by code_simp
  ultimately show ?thesis
    by (cases "io_entry name")
      (auto simp: entry_ok_def [of m name "Some None"] list_all_iff io_valid_def validate_shape
        intro!: effect_entry_ok split: prod.splits)
qed

lemma math_operations_ok:
  "entry_ok m name (case math_entry name of
     None \<Rightarrow> Some None
   | Some (imp, names, homogeneous) \<Rightarrow>
       checked_descriptor (pure_descriptor m name [] (math_overloads names homogeneous) imp))"
proof -
  define ns where "ns = [''abs'', ''min'', ''max'', ''clamp'', ''floor'', ''ceil'', ''round'', ''sqrt'']"
  have "name \<in> set ns" if "math_entry name \<noteq> None"
    using that by (auto simp: math_entry_def ns_def split: if_splits)
  moreover have "list_all (\<lambda>n. n \<in> set operation_names \<and> (case math_entry n of
      None \<Rightarrow> False | Some (imp, names, homogeneous) \<Rightarrow> imp \<noteq> OpLength \<and> valid_shape [] (math_overloads names homogeneous))) ns"
    unfolding ns_def by code_simp
  ultimately show ?thesis
    by (cases "math_entry name")
      (auto simp: entry_ok_def [of m name "Some None"] list_all_iff validate_shape intro!: pure_entry_ok split: prod.splits)
qed

lemma list_operations_ok:
  "entry_ok m name (case list_entry name of
     None \<Rightarrow> Some None
   | Some (imp, generics, ps, cb, res) \<Rightarrow>
       (case with_callback cb (overload_values ps res) of
          None \<Rightarrow> None
        | Some overload \<Rightarrow> checked_descriptor (pure_descriptor m name generics [overload] imp)))"
proof -
  define ns where "ns = [''map'', ''filter'', ''fold'', ''any'', ''all'', ''count'', ''find'', ''sort_by'', ''sort'',
    ''reverse'', ''take'', ''drop'']"
  have "name \<in> set ns" if "list_entry name \<noteq> None"
    using that by (auto simp: list_entry_def ns_def Let_def split: if_splits)
  moreover have "list_all (\<lambda>n. n \<in> set operation_names \<and> (case list_entry n of
      None \<Rightarrow> False
    | Some (imp, generics, ps, cb, res) \<Rightarrow>
        (case with_callback cb (overload_values ps res) of
           None \<Rightarrow> False | Some ov \<Rightarrow> imp \<noteq> OpLength \<and> valid_shape generics [ov]))) ns"
    unfolding ns_def by code_simp
  moreover note entry = calculation
  show ?thesis
  proof (cases "list_entry name")
    case None
    then show ?thesis by (simp add: entry_ok_def)
  next
    case (Some e)
    obtain imp generics ps cb res where e: "e = (imp, generics, ps, cb, res)" by (metis prod_cases5)
    have "name \<in> set operation_names" "case with_callback cb (overload_values ps res) of
        None \<Rightarrow> False | Some ov \<Rightarrow> imp \<noteq> OpLength \<and> valid_shape generics [ov]"
      using entry Some e by (auto simp: list_all_iff)
    then show ?thesis using Some e by (auto simp: validate_shape intro: pure_entry_ok split: option.splits)
  qed
qed

lemma remaining_shapes:
  "valid_shape [] [overload_values [(''document'', TyRecord)] (TyNominal (nominal_standard ''docker'' ''Image'') [])]"
  "valid_shape [''T''] [overload_new (InValue (TyList (TyParameter ''T''))) TyInt, overload_new (InStream (TyParameter ''T'')) TyInt]"
  "''decode_image'' \<in> set operation_names" "''length'' \<in> set operation_names"
  by code_simp+

lemma entry_if: "(c \<Longrightarrow> entry_ok m n a) \<Longrightarrow> (\<not> c \<Longrightarrow> entry_ok m n b) \<Longrightarrow> entry_ok m n (if c then a else b)"
  by simp

lemma standard_operation_ok: "entry_ok m name (standard_operation m name)"
proof (cases "mi_origin m")
  case OriginLocal
  then show ?thesis by (simp add: standard_operation_def entry_ok_def)
next
  case (OriginStandard namespace standard)
  have none: "entry_ok m name (Some None)" by (simp add: entry_ok_def)
  have pure: "entry_ok m n (checked_descriptor (pure_descriptor m n generics ovs imp))"
    if "valid_shape generics ovs" "n \<in> set operation_names" "imp = OpLength \<longrightarrow> ovs = length_overloads"
      for n generics ovs imp
    using that by (intro pure_entry_ok) (simp_all only: validate_shape)
  have docker: "name = ''decode_image'' \<Longrightarrow> entry_ok m name (checked_descriptor (pure_descriptor m name [] [overload_values
      [(''document'', TyRecord)] (TyNominal (nominal_standard ''docker'' ''Image'') [])] DockerDecodeImage))"
    using pure [OF remaining_shapes(1,3), of DockerDecodeImage] by simp
  have len: "name = ''length'' \<Longrightarrow> entry_ok m name (checked_descriptor (pure_descriptor m ''length'' [''T'']
      [overload_new (InValue (TyList (TyParameter ''T''))) TyInt, overload_new (InStream (TyParameter ''T'')) TyInt] OpLength))"
    using pure [OF remaining_shapes(2,4), of OpLength] by (simp add: length_overloads_def)
  show ?thesis
    unfolding standard_operation_def OriginStandard module_origin.case
    by (rule entry_if, rule none, rule entry_if, rule random_operations_ok, rule entry_if, rule io_operations_ok,
        rule entry_if, rule math_operations_ok, rule entry_if, rule list_operations_ok,
        rule entry_if, erule conjunct2 [THEN docker], rule entry_if, rule data_operations_ok,
        rule entry_if, rule record_operations_ok, rule entry_if, rule string_operations_ok,
        rule entry_if, rule none, rule len, simp only: de_Morgan_disj not_not)
qed

subsection \<open>Properties\<close>

text \<open>
  C26: Looking up a standard operation never panics: every compiled descriptor passes its own validation,
  carries the identity it was asked for, and declares the capability it needs exactly when it is not
  pure; a pure one carries no operational metadata at all. Executing the value form of any compiled
  operation never reaches one of the code's unreachable branches.
\<close>

theorem catalogue_sound:
  "\<exists>r. standard_operation m name = Some r
    \<and> (case r of
        None \<Rightarrow> True
      | Some d \<Rightarrow>
          validate d = Ok () \<and> od_id d = operation_id_new m name
          \<and> (od_purity d = Pure \<longleftrightarrow> cm_capability_request (od_downstream d) = None)
          \<and> (od_purity d = Pure \<longleftrightarrow> call_is_foundation_only (od_downstream d))
          \<and> execute_value_with_types d v type_arguments \<noteq> None)"
proof -
  have ok: "entry_ok m name (standard_operation m name)" by (rule standard_operation_ok)
  have execute: "execute_value_with_types d v type_arguments \<noteq> None"
    if "od_implementation d = OpLength \<longrightarrow> od_overloads d = length_overloads" for d
    using that
    by (cases v) (auto simp: execute_value_with_types_def Let_def length_overloads_def overload_new_def split: option.splits)
  show ?thesis
  proof (cases "standard_operation m name")
    case None
    then show ?thesis using ok by (simp add: entry_ok_def)
  next
    case r: (Some r)
    show ?thesis
    proof (cases r)
      case None
      then show ?thesis using r by simp
    next
      case (Some d)
      have "call_is_foundation_only (od_downstream d) \<Longrightarrow> cm_capability_request (od_downstream d) = None"
        by (simp add: call_is_foundation_only_def)
      then show ?thesis using ok r Some execute [of d] by (auto simp: entry_ok_def)
    qed
  qed
qed

lemma set_map_filter_eq: "set (List.map_filter f ns) = {d. \<exists>n \<in> set ns. f n = Some d}"
  by (induction ns) (auto simp: List.map_filter_simps split: option.splits)

text \<open>
  The catalogue of a module lists exactly the operations that can be looked up in it, each once.
\<close>

theorem catalogue_complete:
  "\<exists>ds. standard_operations m = Some ds \<and> set ds = {d. \<exists>name. standard_operation m name = Some (Some d)}
    \<and> distinct (map od_id ds)"
proof -
  have total: "standard_operation m n \<noteq> None" for n
    using standard_operation_ok [of m n] by (auto simp: entry_ok_def split: option.splits)
  have named: "standard_operation m n = Some (Some d) \<Longrightarrow> od_id d = operation_id_new m n \<and> n \<in> set operation_names" for n d
    using standard_operation_ok [of m n] by (auto simp: entry_ok_def)
  define f where "f n = the (standard_operation m n)" for n
  have f: "standard_operation m n = Some (f n)" for n using total [of n] by (auto simp: f_def)
  have nf: "f n = Some d \<Longrightarrow> od_id d = operation_id_new m n \<and> n \<in> set operation_names" for n d
    using named [of n d] f [of n] by simp
  have "those (map (standard_operation m) operation_names) = Some (map f operation_names)"
    by (rule those_map_Some) (rule f)
  then have ds: "standard_operations m = Some (List.map_filter f operation_names)"
    by (simp add: standard_operations_def List.map_filter_def filter_map comp_def)
  have "distinct (map od_id (List.map_filter f ns))" if "distinct ns" for ns
    using that
  proof (induction ns)
    case (Cons n ns)
    have "od_id d \<noteq> operation_id_new m n" if d: "d \<in> set (List.map_filter f ns)" for d
    proof -
      obtain k where "k \<in> set ns" "f k = Some d" using d by (auto simp: set_map_filter_eq)
      then show ?thesis using nf [of k d] Cons.prems by (auto simp: operation_id_new_def)
    qed
    then have new: "operation_id_new m n \<notin> od_id ` set (List.map_filter f ns)" by (metis imageE)
    show ?case
    proof (cases "f n")
      case None
      then show ?thesis using Cons by (simp add: List.map_filter_simps)
    next
      case (Some d)
      then show ?thesis using Cons new nf [OF Some] by (simp add: List.map_filter_simps)
    qed
  qed (simp add: List.map_filter_simps)
  moreover have "distinct operation_names" by code_simp
  moreover have "set (List.map_filter f operation_names) = {d. \<exists>name. standard_operation m name = Some (Some d)}"
    unfolding set_map_filter_eq f option.inject using nf by blast
  ultimately show ?thesis using ds by blast
qed

text \<open>
  C25: Resolution of a call never panics and keeps exactly the overloads of the right arity that accept
  every known argument, in their order; it fails at the first argument that no remaining overload
  accepts. When a validated descriptor is called with concrete types for all arguments, at most one
  overload remains.
\<close>

theorem resolve_call_exact:
  fixes arguments :: "operation_input_type option list"
  assumes "validate d = Ok ()"
  defines "sized \<equiv> filter (\<lambda>ov. length (ov_parameters ov) = length arguments) (od_overloads d)"
  shows "case resolve_call d arguments s of
      None \<Rightarrow> False
    | Some (Ok ks) \<Rightarrow>
        ks = filter (fits_from s 0 arguments) sized \<and> (ks = [] \<longrightarrow> sized = [])
        \<and> ((\<forall>a \<in> set arguments. \<exists>t. a = Some t \<and> concrete (input_type t)) \<longrightarrow> length ks \<le> 1)
    | Some (Err (k, e)) \<Rightarrow>
        k < length arguments \<and> arguments ! k \<noteq> None
        \<and> filter (fits_from s 0 (take (Suc k) arguments)) sized = []
        \<and> (sized = [] \<or> filter (fits_from s 0 (take k arguments)) sized \<noteq> [])"
proof -
  have ok: "resolution_ok s 0 sized arguments (resolve_call d arguments s)"
    unfolding resolve_call_def sized_def by (rule resolve_arguments_spec) simp
  have "length (filter (fits_from s 0 arguments) sized) \<le> 1"
    if c: "\<forall>a \<in> set arguments. \<exists>t. a = Some t \<and> concrete (input_type t)"
  proof -
    have "length (filter (\<lambda>ov. length (ov_parameters ov) = length arguments \<and> fits_from s 0 arguments ov) (od_overloads d)) \<le> 1"
      by (rule filter_unique) (use validate_ok [OF assms(1)] any_overlap_nth fits_both_overlap c in blast)
    then show ?thesis by (simp add: sized_def conj_commute)
  qed
  moreover note unique = calculation
  show ?thesis
  proof (cases "resolve_call d arguments s")
    case None
    then show ?thesis using ok by (simp only: resolution_ok_def option.case)
  next
    case (Some q)
    show ?thesis
    proof (cases q)
      case (Inr ks)
      have ks: "ks = filter (fits_from s 0 arguments) sized \<and> (ks = [] \<longrightarrow> sized = [])"
        using ok unfolding Some Inr resolution_ok_def option.case sum.case .
      then show ?thesis using unique unfolding Some Inr option.case sum.case by metis
    next
      case (Inl ke)
      then show ?thesis using ok Some by (cases ke) (simp add: resolution_ok_def)
    qed
  qed
qed

theorem resolve_call_exact_witness:
  "\<exists>d ov. standard_operation (module_standard ''std'' ''math'') ''min'' = Some (Some d)
    \<and> filter (fits_from Map.empty 0 [Some (InValue TyInt), Some (InValue TyInt)])
        (filter (\<lambda>ov. length (ov_parameters ov) = length [Some (InValue TyInt), Some (InValue TyInt)]) (od_overloads d)) = [ov]"
proof -
  let ?m = "module_standard ''std'' ''math''" and ?args = "[Some (InValue TyInt), Some (InValue TyInt)]"
  let ?d = "pure_descriptor ?m ''min'' [] (math_overloads [''left'', ''right''] True) OpMin"
  let ?ov = "overload_values [(''left'', TyInt), (''right'', TyInt)] TyInt"
  have v: "validate ?d = Ok ()" by code_simp
  then have d: "standard_operation ?m ''min'' = Some (Some ?d)"
    by (simp add: standard_operation_def module_standard_def math_entry_def checked_descriptor_def)
  have r: "resolve_call ?d ?args Map.empty = Some (Ok [?ov])" by code_simp
  show ?thesis
    using resolve_call_exact [OF v, where arguments = ?args and s = Map.empty] d
    unfolding r option.case sum.case by metis
qed

end
