(* ===== verification/Operators_Correct.thy ===== *)
theory Operators_Correct
  imports Operators
begin

section \<open>Correctness of the operators\<close>

text \<open>
  Integer arithmetic is exact or reports an overflow, division and remainder are the floored ones,
  float arithmetic returns a float nearest to the exact result, ordering compares the exact
  numerical values and agrees with equality, and no operation makes a value that breaks the
  invariant of values.
\<close>

subsection \<open>Integers\<close>

lemma checked64_Some: "checked64 v = Some c \<longleftrightarrow> v = sint c"
proof
  assume c: "checked64 v = Some c"
  then have r: "- (2 ^ 63) \<le> v" "v < 2 ^ 63" "c = word_of_int v"
    by (auto simp: checked64_def split: if_splits)
  then have "sint c = signed_take_bit 63 v" by (simp add: sint_sbintrunc')
  also have "\<dots> = v" using r by (intro signed_take_bit_int_eq_self) simp_all
  finally show "v = sint c" ..
next
  assume "v = sint c"
  then show "checked64 v = Some c" using sint_bounds64 [of c] by (simp add: checked64_def)
qed

lemma checked64_None: "checked64 v = None \<longleftrightarrow> (\<forall>c. sint (c :: i64) \<noteq> v)"
  using checked64_Some [of v] by (metis option.distinct(1) option.exhaust)

lemmas checked_defs = checked_add_def checked_sub_def checked_mul_def checked_neg_def

lemma int_or_overflow_iff:
  "int_or_overflow opr (checked64 v) = Ok (VInt c) \<longleftrightarrow> sint c = v"
  "int_or_overflow opr (checked64 v) = Err (IntegerOverflow opr) \<longleftrightarrow> (\<forall>c. sint (c :: i64) \<noteq> v)"
  using checked64_Some [of v] checked64_None [of v]
  by (cases "checked64 v"; auto simp: int_or_overflow_def)+

lemma floored_int:
  fixes a b :: int
  assumes "b \<noteq> 0"
  defines "adjust \<equiv> a smod b \<noteq> 0 \<and> (a smod b < 0) \<noteq> (b < 0)"
  shows "a div b = (if adjust then a sdiv b - 1 else a sdiv b)"
    and "a mod b = (if adjust then a smod b + b else a smod b)"
proof -
  let ?q = "if adjust then a sdiv b - 1 else a sdiv b" and ?r = "if adjust then a smod b + b else a smod b"
  have e: "a = b * ?q + ?r" using mult_sdiv_smod_eq [of b a] by (simp add: algebra_simps)
  have s: "\<bar>a smod b\<bar> < \<bar>b\<bar>" using smod_int_range [OF assms(1), of a] by auto
  have "if 0 < b then 0 \<le> ?r \<and> ?r < b else ?r \<le> 0 \<and> b < ?r"
    using s assms(1) unfolding adjust_def by auto
  then show "a div b = ?q" "a mod b = ?r"
    using e assms(1) int_div_pos_eq [OF e] int_div_neg_eq [OF e] int_mod_pos_eq [OF e] int_mod_neg_eq [OF e]
    by (auto split: if_splits)
qed

lemma sint_MIN: "sint I64_MIN = - (2 ^ 63)"
  by (simp add: I64_MIN_def)

lemma sint_eq_iff: "sint (a :: i64) = sint b \<longleftrightarrow> a = b"
  using checked64_Some [of "sint b"] by (metis option.inject)

lemma sint_eq_0 [simp]: "sint (a :: i64) = 0 \<longleftrightarrow> a = 0"
  using sint_eq_iff [of a 0] by simp

lemma min_div_iff: "a = I64_MIN \<and> b = (- 1 :: i64) \<longleftrightarrow> sint a = - (2 ^ 63) \<and> sint b = - 1"
  unfolding sint_MIN [symmetric] sint_eq_iff using sint_eq_iff [of b "- 1"] by simp

lemma checked_div_sint:
  assumes "b \<noteq> 0" "\<not> (a = I64_MIN \<and> b = - 1)"
  shows "\<exists>q. checked_div a b = Some q \<and> sint q = sint a sdiv sint b"
proof -
  have r: "\<bar>sint a sdiv sint b\<bar> \<le> \<bar>sint a\<bar>" using sdiv_int_range [of "sint a" "sint b"] by auto
  have "sint a sdiv sint b < 2 ^ 63"
  proof (rule ccontr)
    assume c: "\<not> sint a sdiv sint b < 2 ^ 63"
    with r sint_bounds64 [of a] have "sint a = - (2 ^ 63)" "sint a sdiv sint b = - sint a" by linarith+
    then have "sint b = - 1" using int_sdiv_negated_is_minus1 [of "sint a" "sint b"] by simp
    with assms(2) min_div_iff \<open>sint a = - (2 ^ 63)\<close> show False by simp
  qed
  moreover have "- (2 ^ 63) \<le> sint a sdiv sint b" using r sint_bounds64 [of a] by linarith
  ultimately have "checked_div a b = Some (word_of_int (sint a sdiv sint b))"
    using assms(1) by (simp add: checked_div_def checked64_def)
  moreover from this have "checked64 (sint a sdiv sint b) = Some (word_of_int (sint a sdiv sint b))"
    using assms(1) by (simp add: checked_div_def)
  ultimately show ?thesis using checked64_Some by metis
qed

lemma checked_div_min: "checked_div I64_MIN (- 1) = None"
  using sint_MIN by (simp add: checked_div_def checked64_def)

lemma smod_range: "b \<noteq> 0 \<Longrightarrow> \<bar>sint (a :: i64) smod sint b\<bar> < \<bar>sint (b :: i64)\<bar>"
  using smod_int_range [of "sint b" "sint a"] by auto

lemma rem64_sint:
  assumes "b \<noteq> 0" "\<not> (a = I64_MIN \<and> b = - 1)"
  shows "\<exists>r. rem64 a b = Some r \<and> sint r = sint a smod sint b"
proof -
  have "checked64 (sint a smod sint b) = Some (word_of_int (sint a smod sint b))"
    using sint_bounds64 [of b] smod_range [OF assms(1), of a] by (auto simp: checked64_def)
  then have "sint (word_of_int (sint a smod sint b) :: i64) = sint a smod sint b"
    using checked64_Some by metis
  then show ?thesis using assms by (auto simp: rem64_def)
qed

lemma sdiv_min_exact:
  assumes "sint (a :: i64) sdiv sint (b :: i64) = - (2 ^ 63)"
  shows "sint a smod sint b = 0"
proof -
  have "\<bar>sint a sdiv sint b\<bar> \<le> \<bar>sint a\<bar>" using sdiv_int_range [of "sint a" "sint b"] by auto
  with assms sint_bounds64 [of a] have a: "sint a = - (2 ^ 63)" by linarith
  then have "sint b = 1" using assms int_sdiv_same_is_1 [of "sint a" "sint b"] by simp
  then show ?thesis using mult_sdiv_smod_eq [of "sint b" "sint a"] by simp
qed

lemma floored_div_exact:
  assumes "b \<noteq> 0" "\<not> (a = I64_MIN \<and> b = - 1)"
  shows "\<exists>q. floored_div a b = Some (Ok q) \<and> sint q = sint a div sint b"
proof -
  obtain q r where q: "checked_div a b = Some q" "sint q = sint a sdiv sint b"
    and r: "rem64 a b = Some r" "sint r = sint a smod sint b"
    using checked_div_sint [OF assms] rem64_sint [OF assms] by blast
  let ?adj = "r \<noteq> 0 \<and> (sint r < 0) \<noteq> (sint b < 0)"
  have b: "sint b \<noteq> 0" using assms(1) by simp
  have d: "sint a div sint b = (if ?adj then sint q - 1 else sint q)"
    using floored_int(1) [OF b, of "sint a"] sint_eq_0 [of r] unfolding q(2) r(2) by simp
  show ?thesis
  proof (cases ?adj)
    case True
    then have "sint q \<noteq> - (2 ^ 63)" using sdiv_min_exact [of a b] q(2) r(2) sint_eq_0 [of r] by metis
    with sint_bounds64 [of q] have "checked64 (sint q - 1) = Some (word_of_int (sint q - 1))"
      by (simp add: checked64_def)
    moreover from this have "sint (word_of_int (sint q - 1) :: i64) = sint q - 1" using checked64_Some by metis
    ultimately show ?thesis using True d assms(1) q(1) r(1) by (auto simp: floored_div_def checked_sub_def)
  next
    case False
    then show ?thesis using d assms(1) q(1) r(1) by (auto simp: floored_div_def)
  qed
qed

lemma floored_rem_exact:
  assumes "b \<noteq> 0" "\<not> (a = I64_MIN \<and> b = - 1)"
  shows "\<exists>r. floored_rem a b = Some (Ok r) \<and> sint r = sint a mod sint b"
proof -
  obtain r where r: "rem64 a b = Some r" "sint r = sint a smod sint b"
    using rem64_sint [OF assms] by blast
  let ?adj = "r \<noteq> 0 \<and> (sint r < 0) \<noteq> (sint b < 0)"
  have b: "sint b \<noteq> 0" using assms(1) by simp
  have d: "sint a mod sint b = (if ?adj then sint r + sint b else sint r)"
    using floored_int(2) [OF b, of "sint a"] sint_eq_0 [of r] unfolding r(2) by simp
  show ?thesis
  proof (cases ?adj)
    case True
    then have "checked64 (sint r + sint b) = Some (word_of_int (sint r + sint b))"
      using smod_range [OF assms(1), of a] r(2) sint_bounds64 [of b] sint_bounds64 [of r]
      by (auto simp: checked64_def)
    moreover from this have "sint (word_of_int (sint r + sint b) :: i64) = sint r + sint b"
      using checked64_Some by metis
    ultimately show ?thesis using True d assms(1) r(1) by (auto simp: floored_rem_def checked_add_def)
  next
    case False
    then show ?thesis using d assms(1) r(1) by (auto simp: floored_rem_def)
  qed
qed

subsection \<open>Ordering numbers\<close>

lemma cmp_simps:
  "cmp a b = OLess \<longleftrightarrow> a < b" "cmp a b = OEqual \<longleftrightarrow> a = b" "cmp a b = OGreater \<longleftrightarrow> b < a"
  by (auto simp: cmp_def)

lemma partial_cmp_finite:
  "f64_is_finite a \<Longrightarrow> f64_is_finite b \<Longrightarrow> f64_partial_cmp a b = Some (cmp (f64_scaled a) (f64_scaled b))"
  using f64_finite_not_special by (simp add: f64_partial_cmp_def f64_extended_def)

lemma f64_lt_finite: "f64_is_finite a \<Longrightarrow> f64_is_finite b \<Longrightarrow> f64_lt a b \<longleftrightarrow> f64_scaled a < f64_scaled b"
  by (simp add: f64_lt_def partial_cmp_finite cmp_simps)

lemma f64_ge_finite: "f64_is_finite a \<Longrightarrow> f64_is_finite b \<Longrightarrow> f64_ge a b \<longleftrightarrow> f64_scaled b \<le> f64_scaled a"
  by (auto simp: f64_ge_def partial_cmp_finite cmp_simps)

lemma two_pow_63: "f64_is_finite TWO_POW_63" "f64_scaled TWO_POW_63 = 2 ^ 63 * 2 ^ 1075"
proof -
  have u: "unat TWO_POW_63 = 0x43E0000000000000" by (simp add: TWO_POW_63_def)
  have e: "f64_exponent TWO_POW_63 = 1086" "f64_fraction TWO_POW_63 = 0" "\<not> f64_negative TWO_POW_63"
    unfolding f64_exponent_def f64_fraction_def f64_negative_def u by simp_all
  then show "f64_is_finite TWO_POW_63" by (simp add: f64_is_finite_def)
  have "f64_scaled TWO_POW_63 = 2 ^ 52 * 2 ^ 1086"
    unfolding f64_scaled_def f64_mantissa_def f64_scale_def e Let_def by (simp add: e(3))
  also have "\<dots> = 2 ^ 63 * 2 ^ 1075" by (simp only: flip: power_add) simp
  finally show "f64_scaled TWO_POW_63 = 2 ^ 63 * 2 ^ 1075" .
qed

lemmas minus_two_pow_63 = f64_neg_facts [OF two_pow_63(1), THEN conjunct1]
  f64_neg_facts [OF two_pow_63(1), THEN conjunct2, unfolded two_pow_63(2)]

lemma smallest_floats:
  "f64_is_finite 1" "f64_scaled 1 = 2" "f64_is_finite (2 ^ 63 + 1)" "f64_scaled (2 ^ 63 + 1) = - 2"
  by (simp_all add: f64_is_finite_def f64_scaled_def f64_mantissa_def f64_scale_def f64_exponent_def
      f64_fraction_def f64_negative_def)

lemma scaled_even: "2 dvd f64_scaled b"
  using magnitude_even [of b] by (simp add: f64_scaled_magnitude)

lemma nearest_sign:
  assumes "nearest r v 1" "2 dvd v"
  shows "0 < f64_scaled r \<longleftrightarrow> 0 < v" "f64_scaled r < 0 \<longleftrightarrow> v < 0"
proof -
  have n: "\<bar>f64_scaled r - v\<bar> \<le> \<bar>f64_scaled c - v\<bar>" if "f64_is_finite c" for c
    using assms(1) that by (simp add: nearest_def)
  have c: "\<bar>f64_scaled r - v\<bar> \<le> \<bar>2 - v\<bar>" "\<bar>f64_scaled r - v\<bar> \<le> \<bar>- 2 - v\<bar>" "\<bar>f64_scaled r - v\<bar> \<le> \<bar>v\<bar>"
    using n [OF smallest_floats(1)] n [OF smallest_floats(3)] n [OF f64_zero_finite(1) [of False]]
    unfolding smallest_floats(2,4) f64_zero_finite(2) by simp_all
  have "v = 0 \<or> 2 \<le> v \<or> v \<le> - 2" using assms(2) by presburger
  with c show "0 < f64_scaled r \<longleftrightarrow> 0 < v" "f64_scaled r < 0 \<longleftrightarrow> v < 0" by linarith+
qed

lemma small_below_overflow: "(2 :: int) ^ 1075 < int F64_OVERFLOW"
proof -
  have "(2 :: nat) ^ 1075 = 1 * 2 ^ 1075" by simp
  also have "\<dots> \<le> (2 ^ 53 - 1) * 2 ^ 2046" by (intro mult_le_mono power_increasing) simp_all
  finally have "(2 :: nat) ^ 1075 < F64_OVERFLOW" using overflow_above_max by linarith
  then have "int (2 ^ 1075) < int F64_OVERFLOW" by (simp only: of_nat_less_iff)
  then show ?thesis by (simp only: of_nat_power of_nat_numeral)
qed

text \<open>The whole part and the fraction of a float, as the code computes them.\<close>

lemma trunc_split:
  assumes "f64_is_finite b"
  obtains k where "f64_scaled (f64_trunc b) = k * 2 ^ 1075" "\<bar>f64_scaled b - k * 2 ^ 1075\<bar> < 2 ^ 1075"
    and "f64_to_i128 (f64_trunc b) = max (- (2 ^ 127)) (min (2 ^ 127 - 1) k)"
    and "\<bar>k * 2 ^ 1075\<bar> \<le> \<bar>f64_scaled b\<bar>" "k < 0 \<longrightarrow> f64_scaled b < 0" "0 < k \<longrightarrow> 0 < f64_scaled b"
proof -
  define P :: nat where "P = 2 ^ 1075"
  have P: "0 < P" "(2 :: int) ^ 1075 = int P" by (simp_all add: P_def)
  define q where "q = f64_magnitude b div P"
  note t = f64_trunc_exact [OF assms, folded P_def, folded q_def]
  let ?k = "if f64_negative b then - int q else int q"
  have m: "f64_magnitude b = q * P + f64_magnitude b mod P" by (simp add: q_def)
  have mi: "int (f64_magnitude b) = int q * int P + int (f64_magnitude b mod P)"
    using m by (metis of_nat_add of_nat_mult)
  have lt: "int (f64_magnitude b mod P) < int P" using P(1) by simp
  have sc: "f64_scaled (f64_trunc b) = ?k * int P" using t by (simp add: f64_scaled_magnitude)
  have fr: "\<bar>f64_scaled b - ?k * int P\<bar> < int P" "\<bar>?k * int P\<bar> \<le> \<bar>f64_scaled b\<bar>"
    using mi lt by (auto simp: f64_scaled_magnitude abs_mult)
  have pos: "0 < q \<Longrightarrow> 0 < f64_magnitude b" by (cases "f64_magnitude b = 0") (simp_all add: q_def)
  have sg: "?k < 0 \<longrightarrow> f64_scaled b < 0" "0 < ?k \<longrightarrow> 0 < f64_scaled b"
    using pos by (auto simp: f64_scaled_magnitude)
  have "f64_mantissa (f64_trunc b) * 2 ^ f64_scale (f64_trunc b) div P = q"
    using t(3) P(1) by (simp add: f64_magnitude_def)
  then have i: "f64_to_i128 (f64_trunc b) = max (- (2 ^ 127)) (min (2 ^ 127 - 1) ?k)"
    unfolding f64_to_i128_def P_def [symmetric] t(2) Let_def by simp
  show thesis using that [OF sc [folded P(2)] fr(1) [folded P(2)] i fr(2) [folded P(2)] sg] .
qed

lemma compare_int_float_exact:
  assumes "f64_is_finite b"
  shows "compare_int_float i b = cmp (sint i * 2 ^ 1075) (f64_scaled b)"
proof -
  define P :: int where "P = 2 ^ 1075"
  have P: "0 < P" by (simp add: P_def)
  obtain k where k: "f64_scaled (f64_trunc b) = k * P" "\<bar>f64_scaled b - k * P\<bar> < P"
      "f64_to_i128 (f64_trunc b) = max (- (2 ^ 127)) (min (2 ^ 127 - 1) k)" "\<bar>k * P\<bar> \<le> \<bar>f64_scaled b\<bar>"
    using trunc_split [OF assms] unfolding P_def by blast
  have i: "- (2 ^ 63) * P \<le> sint i * P" "sint i * P < 2 ^ 63 * P"
    using sint_bounds64 [of i] P by (intro mult_right_mono mult_strict_right_mono; simp)+
  have ge: "f64_ge b TWO_POW_63 \<longleftrightarrow> 2 ^ 63 * P \<le> f64_scaled b"
    using f64_ge_finite [OF assms two_pow_63(1)] unfolding two_pow_63(2) P_def .
  have lt: "f64_lt b (f64_neg TWO_POW_63) \<longleftrightarrow> f64_scaled b < - (2 ^ 63 * P)"
    using f64_lt_finite [OF assms minus_two_pow_63(1)] unfolding minus_two_pow_63(2) P_def .
  consider "2 ^ 63 * P \<le> f64_scaled b" | "f64_scaled b < - (2 ^ 63 * P)"
    | "\<not> 2 ^ 63 * P \<le> f64_scaled b" "\<not> f64_scaled b < - (2 ^ 63 * P)" by blast
  then have "compare_int_float i b = cmp (sint i * P) (f64_scaled b)"
  proof cases
    case 1
    then show ?thesis using ge i by (simp add: compare_int_float_def cmp_def)
  next
    case 2
    have "0 < 2 ^ 63 * P" using P by simp
    then have "\<not> 2 ^ 63 * P \<le> f64_scaled b" using 2 by linarith
    then show ?thesis using 2 ge lt i by (simp add: compare_int_float_def cmp_def)
  next
    case 3
    have "\<bar>k * P\<bar> \<le> 2 ^ 63 * P" using 3 k(4) by linarith
    then have "\<bar>k\<bar> \<le> 2 ^ 63" using P by (simp add: abs_mult)
    then have k': "f64_to_i128 (f64_trunc b) = k" using k(3) by simp
    let ?v = "f64_scaled b - f64_scaled (f64_trunc b)"
    have "nearest (f64_sub b (f64_trunc b)) ?v 1"
      using f64_sub_correct [OF assms f64_trunc_exact(1) [OF assms]] k(1,2) small_below_overflow
      unfolding P_def by (smt (verit) k(1))
    moreover have "2 dvd ?v" using scaled_even by simp
    ultimately have s: "0 < f64_scaled (f64_sub b (f64_trunc b)) \<longleftrightarrow> 0 < ?v"
        "f64_scaled (f64_sub b (f64_trunc b)) < 0 \<longleftrightarrow> ?v < 0" "f64_is_finite (f64_sub b (f64_trunc b))"
      using nearest_sign by (auto simp: nearest_def)
    have z: "f64_is_finite 0" "f64_scaled 0 = 0" using f64_zero_finite [of False] by (simp_all add: f64_zero_def)
    have f: "f64_lt 0 (f64_sub b (f64_trunc b)) \<longleftrightarrow> k * P < f64_scaled b"
        "f64_lt (f64_sub b (f64_trunc b)) 0 \<longleftrightarrow> f64_scaled b < k * P"
      using s k(1) by (simp_all add: f64_lt_finite z)
    have b: "sint i < k \<Longrightarrow> sint i * P < f64_scaled b" "k < sint i \<Longrightarrow> f64_scaled b < sint i * P"
      using mult_right_mono [of "sint i" "k - 1" P] mult_right_mono [of "k + 1" "sint i" P] P k(2)
      by (auto simp: algebra_simps)
    show ?thesis
      using 3 ge lt k' f b by (auto simp: compare_int_float_def Let_def cmp_def)
  qed
  then show ?thesis by (simp only: P_def)
qed

subsection \<open>Ordering values\<close>

text \<open>The exact value of a number, in units of \<open>2 ^ - 1075\<close>.\<close>

fun num_scaled :: "'e opaal_value \<Rightarrow> int option" where
  "num_scaled (VInt i) = Some (sint i * 2 ^ 1075)"
| "num_scaled (VFloat f) = Some (f64_scaled (float_bits f))"
| "num_scaled v = None"

lemma cmp_reverse: "ordering_reverse (cmp a b) = cmp b a"
  by (auto simp: cmp_def)

lemma reverse_reverse [simp]: "ordering_reverse (ordering_reverse x) = x"
  by (cases x) simp_all

lemma cmp_scale: "0 < k \<Longrightarrow> cmp (a * k) (b * k :: int) = cmp a b"
  by (simp add: cmp_def)

lemma order_numbers:
  assumes "num_scaled a = Some x" "num_scaled b = Some y" "value_ok a" "value_ok b"
  shows "order a b = Some (Ok (cmp x y))"
proof -
  have p: "(0 :: int) < 2 ^ 1075" by simp
  show ?thesis
    using assms
    by (cases a; cases b)
      (simp_all only: num_scaled.simps option.inject option.distinct value_ok.simps,
       auto simp: order.simps float_ok_def compare_int_float_exact partial_cmp_finite cmp_reverse cmp_scale [OF p]
         simp del: power_numeral)
qed

fun reversed_operands :: "operation_error \<Rightarrow> operation_error" where
  "reversed_operands (UnsupportedOperands opr fams) = UnsupportedOperands opr (rev fams)"
| "reversed_operands e = e"

lemma slice_cmp_reverse: "ordering_reverse (slice_cmp a b) = slice_cmp b a"
  by (induction a b rule: slice_cmp.induct) auto

lemma slice_cmp_equal: "slice_cmp a b = OEqual \<longleftrightarrow> a = b"
  by (induction a b rule: slice_cmp.induct) auto

lemma slice_cmp_trans:
  "slice_cmp a b \<noteq> OGreater \<Longrightarrow> slice_cmp b c \<noteq> OGreater \<Longrightarrow> slice_cmp a c \<noteq> OGreater"
proof (induction a b arbitrary: c rule: slice_cmp.induct)
  case (1 x xs y ys)
  then show ?case by (cases c) (auto split: if_splits)
next
  case (3 y ys)
  then show ?case by (cases c) auto
qed (auto elim: slice_cmp.elims)

text \<open>
  The key a value that is not a list is ordered by: the family it is comparable in, and the numbers
  compared lexicographically.
\<close>

fun scalar_key :: "'e opaal_value \<Rightarrow> (nat \<times> int list) option" where
  "scalar_key (VInt i) = Some (0, [sint i * 2 ^ 1075])"
| "scalar_key (VFloat f) = Some (0, [f64_scaled (float_bits f)])"
| "scalar_key (VString s) = Some (1, map (\<lambda>c. int (u8 c)) s)"
| "scalar_key (VBytes s) = Some (2, map (\<lambda>c. int (u8 c)) s)"
| "scalar_key (VPath p) = Some (3, map (\<lambda>c. int (u8 c)) (path_bytes p))"
| "scalar_key (VDuration d) = Some (4, [sint (as_nanos d)])"
| "scalar_key (VByteSize z) = Some (5, [uint (size_bytes z)])"
| "scalar_key v = None"

lemma slice_cmp_single [simp]: "slice_cmp [a] [b] = cmp a b"
  by (auto simp: cmp_def)

lemma slice_cmp_bytes: "slice_cmp (map (\<lambda>c. int (u8 c)) a) (map (\<lambda>c. int (u8 c)) b) = bytes_cmp a b"
proof (induction a arbitrary: b)
  case Nil
  then show ?case by (cases b) simp_all
next
  case (Cons x a)
  then show ?case by (cases b) simp_all
qed

lemma cmp_unat: "cmp (unat a) (unat b) = cmp (uint a) (uint b)"
  by (simp only: cmp_def uint_nat of_nat_less_iff of_nat_eq_iff)

lemma scalar_key_number: "scalar_key a = Some (0, k) \<Longrightarrow> \<exists>x. k = [x] \<and> num_scaled a = Some x"
  by (cases a) (auto simp del: power_numeral)

lemma order_scalar:
  assumes "scalar_key a = Some (t, k)" "scalar_key b = Some (t, l)" "value_ok a" "value_ok b"
  shows "order a b = Some (Ok (slice_cmp k l))"
proof (cases "t = 0")
  case True
  then obtain x y where "k = [x]" "l = [y]" "num_scaled a = Some x" "num_scaled b = Some y"
    using assms(1,2) scalar_key_number by metis
  then show ?thesis using order_numbers [OF _ _ assms(3,4)] by (simp only: slice_cmp_single)
next
  case False
  then show ?thesis
    using assms by (cases a; cases b) (auto simp: order.simps slice_cmp_bytes cmp_unat simp del: slice_cmp.simps)
qed

definition comparable :: "'e opaal_value \<Rightarrow> 'e opaal_value \<Rightarrow> bool" where
  "comparable a b \<longleftrightarrow> (\<exists>t k l. scalar_key a = Some (t, k) \<and> scalar_key b = Some (t, l))"

lemma order_list: "order (VList a) (VList b) = order_lists a b"
  by (simp add: order.simps)

lemma order_other:
  assumes "\<not> comparable a b" "\<not> (\<exists>x y. a = VList x \<and> b = VList y)"
  shows "order a b = Some (Err (unsupported ''<'' [a, b]))"
  using assms by (cases a; cases b) (simp_all add: order.simps comparable_def)

lemma order_induct [case_names scalar list other]:
  fixes a b :: "'e opaal_value"
  assumes "\<And>a b t k l. scalar_key a = Some (t, k) \<Longrightarrow> scalar_key b = Some (t, l) \<Longrightarrow> P a b"
    and "\<And>xs ys. (\<And>x y. x \<in> set xs \<Longrightarrow> y \<in> set ys \<Longrightarrow> P x y) \<Longrightarrow> P (VList xs) (VList ys)"
    and "\<And>a b. \<not> comparable a b \<Longrightarrow> \<not> (\<exists>x y. a = VList x \<and> b = VList y) \<Longrightarrow> P a b"
  shows "P a b"
proof (induction "size a" arbitrary: a b rule: less_induct)
  case (less a b)
  consider "comparable a b" | xs ys where "a = VList xs" "b = VList ys"
    | "\<not> comparable a b" "\<not> (\<exists>x y. a = VList x \<and> b = VList y)" by blast
  then show ?case
  proof cases
    case 1
    then obtain t k l where "scalar_key a = Some (t, k)" "scalar_key b = Some (t, l)"
      unfolding comparable_def by blast
    then show ?thesis by (rule assms(1))
  next
    case (2 xs ys)
    have "P x y" if "x \<in> set xs" for x y
      using less [of x y] that 2 size_list_estimation' [of x xs "size x" size] by (auto simp: less_Suc_eq_le)
    then show ?thesis using 2 assms(2) by blast
  next
    case 3
    then show ?thesis by (rule assms(3))
  qed
qed

lemma order_lists_simps [simp]:
  "order_lists [] ys = Some (Ok (cmp 0 (length ys)))"
  "order_lists (x # xs) [] = Some (Ok OGreater)"
  "order_lists (x # xs) (y # ys) =
     (case order x y of
        Some (Ok OEqual) \<Rightarrow> order_lists xs ys
      | r \<Rightarrow> r)"
  by (auto simp: order_lists.simps cmp_def split: option.splits sum.splits ordering.splits)

lemma order_returns: "value_ok a \<Longrightarrow> value_ok b \<Longrightarrow> order a b \<noteq> None"
proof (induction a b rule: order_induct)
  case (list xs ys)
  have "order_lists us vs \<noteq> None" if "set us \<subseteq> set xs" "set vs \<subseteq> set ys" for us vs
    using that
  proof (induction us arbitrary: vs)
    case (Cons u us)
    then show ?case
      using list by (cases vs) (auto split: option.splits sum.splits ordering.splits simp: list_all_iff)
  qed simp
  then show ?case by (simp add: order_list)
qed (auto simp: order_scalar order_other)

lemma order_reverse:
  "value_ok a \<Longrightarrow> value_ok b
    \<Longrightarrow> order b a = map_option (map_sum reversed_operands ordering_reverse) (order a b)"
proof (induction a b rule: order_induct)
  case (scalar a b t k l)
  then show ?case by (simp add: order_scalar slice_cmp_reverse)
next
  case (list xs ys)
  have "order_lists vs us = map_option (map_sum reversed_operands ordering_reverse) (order_lists us vs)"
    if "set us \<subseteq> set xs" "set vs \<subseteq> set ys" for us vs
    using that
  proof (induction us arbitrary: vs)
    case Nil
    then show ?case by (cases vs) (simp_all add: cmp_def)
  next
    case (Cons u us)
    show ?case
    proof (cases vs)
      case Nil
      then show ?thesis by (simp add: cmp_def)
    next
      case vs: (Cons v ws)
      then have "order v u = map_option (map_sum reversed_operands ordering_reverse) (order u v)"
        using Cons.prems list by (auto simp: list_all_iff)
      then show ?thesis
        using Cons vs by (auto split: option.splits sum.splits ordering.splits)
    qed
  qed
  then show ?case by (simp add: order_list)
next
  case (other a b)
  then have "\<not> comparable b a" "\<not> (\<exists>x y. b = VList x \<and> a = VList y)" by (auto simp: comparable_def)
  then show ?case using other by (simp add: order_other unsupported_def)
qed

lemma list_all_subset: "list_all P xs \<Longrightarrow> set us \<subseteq> set xs \<Longrightarrow> list_all P us"
  by (auto simp: list_all_iff)

lemma int_float_equal_sym: "int_float_equal i f \<longleftrightarrow> sint i * 2 ^ 1075 = f64_scaled (float_bits f)"
  using int_float_equal_scaled [of i f] by (simp only: eq_commute)

lemma finite_float_eq: "float_ok f \<Longrightarrow> float_ok g \<Longrightarrow> f64_scaled (float_bits f) = f64_scaled (float_bits g) \<longleftrightarrow> f = g"
  using f64_scaled_inj [of "float_bits f" "float_bits g"] finite_float.expand by (auto simp: float_ok_def)

lemma scaled_ints: "sint (i :: i64) * 2 ^ 1075 = sint j * 2 ^ 1075 \<longleftrightarrow> i = j"
  using sint_eq_iff [of i j] by (simp only: mult_cancel_right power_not_zero) simp

lemma bytes_inj: "map (\<lambda>c. int (u8 c)) a = map (\<lambda>c. int (u8 c)) b \<longleftrightarrow> a = b"
  by (rule inj_map_eq_map) (auto intro: injI)

lemma duration_key: "sint (as_nanos d) = sint (as_nanos e) \<longleftrightarrow> e = d"
  by (cases d; cases e) (auto dest: signed_word_eqI)

lemma byte_size_key: "uint (size_bytes d) = uint (size_bytes e) \<longleftrightarrow> e = d"
  by (cases d; cases e) (auto dest: unsigned_word_eqI)

lemma scalar_key_eq:
  assumes "scalar_key a = Some (t, k)" "scalar_key b = Some (t, l)" "value_ok a" "value_ok b"
  shows "value_eq err_eq a b \<longleftrightarrow> k = l"
proof (cases "t = 0")
  case True
  then show ?thesis
    using assms by (cases a; cases b)
      (simp_all only: scalar_key.simps option.inject option.distinct prod.inject value_ok.simps,
       auto simp: value_eq_left int_float_equal_sym [symmetric] int_float_equal_scaled [symmetric] scaled_ints finite_float_eq sint_eq_iff
         simp del: power_numeral)
next
  case False
  then show ?thesis
    using assms by (cases a; cases b)
     (auto simp: value_eq_left bytes_inj native_path.expand duration_key byte_size_key)
qed

lemma value_eq_not_other:
  assumes "value_eq err_eq a b" "order a b = Some (Ok x)"
  shows "comparable a b \<or> (\<exists>xs ys. a = VList xs \<and> b = VList ys)"
  using assms order_other [of a b] by fastforce

lemma order_equal:
  assumes "order a b = Some (Ok x)" "value_ok a" "value_ok b"
  shows "x = OEqual \<longleftrightarrow> value_eq err_eq a b"
  using assms
proof (induction a b arbitrary: x rule: order_induct)
  case (scalar a b t k l)
  then show ?case by (auto simp: order_scalar scalar_key_eq slice_cmp_equal)
next
  case (list xs ys)
  have "x = OEqual \<longleftrightarrow> list_all2 (value_eq err_eq) us vs"
    if "order_lists us vs = Some (Ok x)" "set us \<subseteq> set xs" "set vs \<subseteq> set ys" for us vs x
    using that
  proof (induction us arbitrary: vs)
    case Nil
    then show ?case by (cases vs) (auto simp: cmp_def)
  next
    case (Cons u us)
    show ?case
    proof (cases vs)
      case Nil
      with Cons.prems show ?thesis by auto
    next
      case vs: (Cons v ws)
      obtain y where y: "order u v = Some (Ok y)" using Cons.prems(1) vs
        by (auto split: option.splits sum.splits)
      have "y = OEqual \<longleftrightarrow> value_eq err_eq u v"
        using list Cons.prems(2,3) vs y by (auto simp: list_all_iff)
      then show ?thesis using Cons vs y by (cases y) auto
    qed
  qed
  then show ?case using list.prems(1) by (simp add: order_list value_eq_left)
qed (simp add: order_other)

lemma order_lists_trans:
  assumes step: "\<And>u v w x y. u \<in> set us \<Longrightarrow> v \<in> set vs \<Longrightarrow> w \<in> set ws \<Longrightarrow> order u v = Some (Ok x)
      \<Longrightarrow> order v w = Some (Ok y) \<Longrightarrow> x \<noteq> OGreater \<Longrightarrow> y \<noteq> OGreater
      \<Longrightarrow> order u w = Some (Ok (if x = OEqual then y else OLess))"
    and "order_lists us vs = Some (Ok x)" "order_lists vs ws = Some (Ok y)" "x \<noteq> OGreater" "y \<noteq> OGreater"
  shows "order_lists us ws = Some (Ok (if x = OEqual then y else OLess))"
  using assms
proof (induction us arbitrary: vs ws)
  case Nil
  show ?case using Nil.prems(2-5) by (cases vs; cases ws) (auto simp: cmp_def split: if_splits)
next
  case (Cons u us)
  obtain v vs' where vs: "vs = v # vs'" using Cons.prems(2,4) by (cases vs) auto
  obtain w ws' where ws: "ws = w # ws'" using Cons.prems(3,5) vs by (cases ws) auto
  obtain p where p: "order u v = Some (Ok p)" using Cons.prems(2) vs by (auto split: option.splits sum.splits)
  obtain q where q: "order v w = Some (Ok q)" using Cons.prems(3) vs ws by (auto split: option.splits sum.splits)
  have pq: "p \<noteq> OGreater" "q \<noteq> OGreater" using Cons.prems(2-5) vs ws p q by (auto split: ordering.splits)
  have o: "order u w = Some (Ok (if p = OEqual then q else OLess))"
    using Cons.prems(1) [of u v w p q] vs ws p q pq by simp
  have IH: "p = OEqual \<Longrightarrow> q = OEqual \<Longrightarrow> order_lists us ws' = Some (Ok (if x = OEqual then y else OLess))"
  proof (rule Cons.IH [of vs' ws'])
    show "order u' w' = Some (Ok (if x' = OEqual then y' else OLess))"
      if "u' \<in> set us" "v' \<in> set vs'" "w' \<in> set ws'" "order u' v' = Some (Ok x')" "order v' w' = Some (Ok y')"
        "x' \<noteq> OGreater" "y' \<noteq> OGreater" for u' v' w' x' y'
      by (rule Cons.prems(1) [OF _ _ _ that(4-7)]) (use that vs ws in simp_all)
  qed (use Cons.prems(2-5) vs ws p q in simp_all)
  show ?case
    using o IH Cons.prems(2-5) vs ws p q pq by (cases p; cases q) auto
qed

lemma slice_cmp_less: "slice_cmp a b \<noteq> OGreater \<Longrightarrow> slice_cmp b c \<noteq> OGreater
    \<Longrightarrow> slice_cmp a c = (if slice_cmp a b = OEqual then slice_cmp b c else OLess)"
proof -
  assume a: "slice_cmp a b \<noteq> OGreater" and b: "slice_cmp b c \<noteq> OGreater"
  then have ac: "slice_cmp a c \<noteq> OGreater" by (rule slice_cmp_trans)
  have "a = b" if "slice_cmp a c = OEqual"
  proof -
    have "slice_cmp b a \<noteq> OGreater" using that b by (simp add: slice_cmp_equal)
    then have "slice_cmp a b = OEqual" using a slice_cmp_reverse [of a b] by (cases "slice_cmp a b") auto
    then show "a = b" by (simp add: slice_cmp_equal)
  qed
  with ac show ?thesis by (cases "slice_cmp a c") (auto simp: slice_cmp_equal)
qed

lemma order_trans:
  assumes "order a b = Some (Ok x)" "order b c = Some (Ok y)" "x \<noteq> OGreater" "y \<noteq> OGreater"
    and "value_ok a" "value_ok b" "value_ok c"
  shows "order a c = Some (Ok (if x = OEqual then y else OLess))"
  using assms
proof (induction a b arbitrary: c x y rule: order_induct)
  case (scalar a b t k l)
  have "comparable b c" using scalar.prems(2) order_other [of b c] scalar.hyps(2) by fastforce
  then obtain m where m: "scalar_key c = Some (t, m)" using scalar.hyps(2) by (auto simp: comparable_def)
  show ?case using scalar m slice_cmp_less [of k l m] by (simp add: order_scalar)
next
  case (list xs ys)
  have "\<exists>zs. c = VList zs" using list.prems(2) order_other [of "VList ys" c] by (fastforce simp: comparable_def)
  then obtain zs where c: "c = VList zs" by blast
  have ok: "\<And>u. u \<in> set xs \<Longrightarrow> value_ok u" "\<And>u. u \<in> set ys \<Longrightarrow> value_ok u" "\<And>u. u \<in> set zs \<Longrightarrow> value_ok u"
    using list.prems(5-7) c by (simp_all add: list_all_iff)
  have "order_lists xs zs = Some (Ok (if x = OEqual then y else OLess))"
    by (rule order_lists_trans [OF _ list.prems(1,2,3,4) [unfolded c order_list]])
      (rule list.IH; use ok in blast)
  then show ?case by (simp only: c order_list)
qed (simp add: order_other)

subsection \<open>Well-formed results\<close>

text \<open>An operation that does not panic, whose result satisfies the invariant of values.\<close>

definition yields_value :: "('e opaal_value, operation_error) result option \<Rightarrow> bool" where
  "yields_value r \<longleftrightarrow> (case r of None \<Rightarrow> False | Some (Err _) \<Rightarrow> True | Some (Ok v) \<Rightarrow> value_ok v)"

lemma yields_simps [simp]:
  "\<not> yields_value None" "yields_value (Some (Err e))" "yields_value (Some (Ok v)) \<longleftrightarrow> value_ok v"
  by (simp_all add: yields_value_def)

lemma yields_map:
  assumes "\<And>x. value_ok (f x)"
  shows "yields_value (map_option (map_sum id f) r) \<longleftrightarrow> r \<noteq> None"
proof (cases r)
  case (Some x)
  then show ?thesis using assms by (cases x) simp_all
qed simp

lemma finite_float_new_ok: "finite_float_new v = Ok f \<Longrightarrow> float_ok f \<and> f64_scaled (float_bits f) = f64_scaled v"
proof -
  assume f: "finite_float_new v = Ok f"
  then have v: "f64_is_finite v" "f = FiniteFloat (if f64_is_zero v then 0 else v)"
    by (auto simp: finite_float_new_def split: if_splits)
  show ?thesis
  proof (cases "f64_is_zero v")
    case True
    then have "f64_scaled v = 0" using zero_magnitude [OF v(1)] by (simp add: f64_scaled_magnitude)
    moreover have "f64_is_finite 0" "f64_scaled 0 = 0" using f64_zero_finite [of False] by (simp_all add: f64_zero_def)
    ultimately show ?thesis using True v by (simp add: float_ok_def)
  next
    case False
    then show ?thesis using v by (auto simp: float_ok_def f64_is_zero_def)
  qed
qed

lemma float_value_yields [simp]: "yields_value (Some (float_value v))"
  using finite_float_new_ok [of v] by (auto simp: float_value_def split: sum.splits)

lemma int_or_overflow_yields [simp]: "yields_value (Some (int_or_overflow opr r))"
  by (simp add: int_or_overflow_def split: option.splits)

lemma arithmetic_yields:
  "yields_value (Some (add a b))" "yields_value (Some (subtract a b))" "yields_value (Some (multiply a b))"
  "yields_value (Some (negate a))" "value_ok a \<Longrightarrow> yields_value (Some (plus_op a))"
  by (auto simp: add_def subtract_def multiply_def negate_def plus_op_def split: sum.splits numeric.splits opaal_value.splits)

lemma floored_zero: "floored_div a 0 = Some (Err (DivisionByZero ''/''))" "floored_rem a 0 = Some (Err (DivisionByZero ''%''))"
  by (simp_all add: floored_div_def floored_rem_def)

lemma divide_yields: "yields_value (divide_op a b)"
proof -
  have "yields_value (map_option (map_sum id VInt) (floored_div i j))" for i j
  proof (cases "j = 0 \<or> i = I64_MIN \<and> j = - 1")
    case True
    then show ?thesis by (auto simp: floored_zero floored_div_def checked_div_min)
  next
    case False
    then show ?thesis using floored_div_exact [of j i] by auto
  qed
  then show ?thesis by (auto simp: divide_op_def split: sum.splits numeric.splits)
qed

lemma remainder_panics: "remainder a b = None \<longleftrightarrow> a = VInt I64_MIN \<and> b = VInt (- 1)"
proof -
  have "floored_rem i j = None \<longleftrightarrow> i = I64_MIN \<and> j = - 1" for i j
  proof (cases "j = 0 \<or> i = I64_MIN \<and> j = - 1")
    case True
    then show ?thesis by (auto simp: floored_rem_def rem64_def)
  next
    case False
    then show ?thesis using floored_rem_exact [of j i] by auto
  qed
  then show ?thesis
    by (cases a; cases b) (simp_all add: remainder_def numeric_pair_def)
qed

lemma remainder_yields: "\<not> (a = VInt I64_MIN \<and> b = VInt (- 1)) \<Longrightarrow> yields_value (remainder a b)"
  using remainder_panics [of a b] by (auto simp: remainder_def yields_map split: sum.splits numeric.splits)

lemma compare_yields:
  assumes "value_ok a" "value_ok b"
  shows "yields_value (less_op a b)" "yields_value (less_equal_op a b)" "yields_value (greater_op a b)" "yields_value (greater_equal_op a b)"
proof -
  have "yields_value (order_test test a b)" for test
    using order_returns [OF assms] by (simp add: order_test_def yields_map)
  then show "yields_value (less_op a b)" "yields_value (less_equal_op a b)" "yields_value (greater_op a b)"
    "yields_value (greater_equal_op a b)" by (simp_all only: less_op_def less_equal_op_def greater_op_def greater_equal_op_def)
qed

lemma checked_position_bound: "checked_position i n = Ok p \<longleftrightarrow> sint i = int p \<and> p < n"
  by (auto simp: checked_position_def Let_def)

lemma record_get_in: "record_get es k = Some v \<Longrightarrow> \<exists>e \<in> set es. v = snd e"
  unfolding record_get_map_of by (metis map_of_SomeD snd_conv)

lemma index_yields: "value_ok t \<Longrightarrow> yields_value (index t i)"
  by (cases t; cases i)
    (auto simp: index_def checked_position_bound get_opt_def list_all_iff dest!: record_get_in
      split: sum.splits option.splits)

lemma expect_record_distinct: "distinct (map fst es) \<Longrightarrow> expect_record es = Some (VRecord es)"
  using record_check_spec [where checked = "[]" and i = 0 and es = es] by (force simp: expect_record_def record_new_def split: sum.splits)

text \<open>The invariant of an error value: the status it carries is well formed.\<close>

definition error_ok :: "'k runtime_error \<Rightarrow> bool" where
  "error_ok e \<longleftrightarrow> (case error_status e of None \<Rightarrow> True | Some s \<Rightarrow> status_ok s)"

lemma error_ok_display: "error_ok e \<Longrightarrow> error_display kv e \<noteq> None"
  by (cases "re_kind e")
    (auto simp: error_ok_def error_status_def error_display_def status_ok_def leaf_ok_def status_display_def
      split: option.splits)

lemma label_value_eq: "\<exists>es. label_value l = Some (VRecord es) \<and> value_ok (VRecord es :: 'e opaal_value)"
  by (simp add: label_value_def source_span_fields_def expect_record_distinct)

lemma frame_value_eq: "\<exists>es. frame_value f = Some (VRecord es) \<and> value_ok (VRecord es :: 'e opaal_value)"
  by (simp add: frame_value_def source_span_fields_def expect_record_distinct)

lemma those_values:
  assumes "\<And>x. \<exists>v. f x = Some v \<and> value_ok v"
  shows "\<exists>vs. those (map f xs) = Some vs \<and> list_all value_ok vs"
proof (induction xs)
  case (Cons x xs)
  then show ?case using assms [of x] by auto
qed simp

lemma error_field_yields:
  assumes "error_ok e"
  shows "yields_value (error_field kv e name)"
proof -
  have "\<exists>vs. those (map label_value (re_labels e)) = Some vs \<and> list_all value_ok (vs :: 'a runtime_error opaal_value list)"
    by (rule those_values) (use label_value_eq in blast)
  moreover have "\<exists>vs. those (map frame_value (re_frames e)) = Some vs \<and> list_all value_ok (vs :: 'a runtime_error opaal_value list)"
    by (rule those_values) (use frame_value_eq in blast)
  moreover have "\<exists>m. error_display kv e = Some m" using error_ok_display [OF assms, of kv] by blast
  ultimately show ?thesis
    using assms by (auto simp: error_field_def opt_value_def source_span_value_def source_span_fields_def
      expect_record_distinct error_ok_def split: option.splits)
qed

lemma stage_ok: "status_ok s \<Longrightarrow> t \<in> set (st_stages s) \<Longrightarrow> status_ok t"
  by (auto simp: status_ok_def list_all_iff)

lemma status_field_yields: "status_ok s \<Longrightarrow> yields_value (status_field s name)"
  by (auto simp: status_field_def opt_value_def expect_record_distinct list_all_iff dest: stage_ok
      split: option.splits)

lemma field_yields:
  assumes "value_ok t" "\<And>e. t = VError e \<Longrightarrow> error_ok e"
  shows "yields_value (field kv t name)"
  using assms
  by (cases t) (auto simp: field_def status_field_yields error_field_yields list_all_iff dest!: record_get_in
      split: option.splits)

lemma member_range_yields:
  "yields_value (Some (member_op err_eq a b))" "yields_value (Some (range_of a b inclusive))"
  "yields_value (Some (to_int a))"
  by (auto simp: member_op_def range_of_def to_int_def Let_def split: opaal_value.splits)

lemma to_float_yields: "value_ok a \<Longrightarrow> yields_value (to_float a)"
proof (cases a)
  case (VInt i)
  have "f64_is_finite (i64_to_f64 i)" using i64_to_f64_nearest [of i] by (simp add: nearest_def)
  then show ?thesis using VInt finite_float_new_ok [of "i64_to_f64 i"]
    by (auto simp: to_float_def finite_float_new_def split: sum.splits)
qed (simp_all add: to_float_def)

subsection \<open>Conversions\<close>

lemma to_int_exact:
  assumes "float_ok f"
  shows "(\<exists>k. to_int (VFloat f) = Ok (VInt k) \<and> \<bar>f64_scaled (float_bits f) - sint k * 2 ^ 1075\<bar> < 2 ^ 1075
        \<and> \<bar>sint k * 2 ^ 1075\<bar> \<le> \<bar>f64_scaled (float_bits f)\<bar>)
    \<or> to_int (VFloat f) = Err (ConversionOutOfRange (float_bits f))
      \<and> (2 ^ 63 * 2 ^ 1075 \<le> f64_scaled (float_bits f) \<or> f64_scaled (float_bits f) \<le> - (2 ^ 63 + 1) * 2 ^ 1075)"
proof -
  define P :: int where "P = 2 ^ 1075"
  have P: "0 < P" by (simp add: P_def)
  let ?b = "float_bits f" and ?t = "f64_trunc (float_bits f)"
  have fin: "f64_is_finite ?b" using assms by (simp add: float_ok_def)
  have t: "f64_is_finite ?t" by (rule f64_trunc_exact(1) [OF fin])
  obtain k where k: "f64_scaled ?t = k * P" "\<bar>f64_scaled ?b - k * P\<bar> < P"
      "f64_to_i128 ?t = max (- (2 ^ 127)) (min (2 ^ 127 - 1) k)" "\<bar>k * P\<bar> \<le> \<bar>f64_scaled ?b\<bar>"
      "k < 0 \<longrightarrow> f64_scaled ?b < 0" "0 < k \<longrightarrow> 0 < f64_scaled ?b"
    using trunc_split [OF fin] unfolding P_def by blast
  have ge: "f64_ge ?t (f64_neg TWO_POW_63) \<longleftrightarrow> - (2 ^ 63) \<le> k"
    using f64_ge_finite [OF t minus_two_pow_63(1)] k(1)
    unfolding minus_two_pow_63(2) P_def [symmetric] minus_mult_left by (simp only: mult_le_cancel_right_pos [OF P])
  have lt: "f64_lt ?t TWO_POW_63 \<longleftrightarrow> k < 2 ^ 63"
    using f64_lt_finite [OF t two_pow_63(1)] k(1)
    unfolding two_pow_63(2) P_def [symmetric] by (simp only: mult_less_cancel_right_pos [OF P])
  show ?thesis
  proof (cases "- (2 ^ 63) \<le> k \<and> k < 2 ^ 63")
    case True
    then have "f64_to_i128 ?t = k" using k(3) by simp
    then have i: "to_int (VFloat f) = Ok (VInt (word_of_int k))"
      using True ge lt by (simp add: to_int_def f64_to_i64_def Let_def)
    have "sint (word_of_int k :: i64) = k"
      using checked64_Some [of k "word_of_int k"] True by (simp add: checked64_def)
    then show ?thesis using i k(2,4) unfolding P_def by metis
  next
    case False
    then have r: "to_int (VFloat f) = Err (ConversionOutOfRange ?b)"
      using ge lt by (auto simp: to_int_def Let_def)
    have "2 ^ 63 * P \<le> f64_scaled ?b \<or> f64_scaled ?b \<le> - (2 ^ 63 + 1) * P"
    proof (cases "0 < k")
      case True
      with False have "2 ^ 63 * P \<le> k * P" using P by (intro mult_right_mono) auto
      then show ?thesis using k(4,6) True by linarith
    next
      case f: False
      with False have n: "k \<le> - (2 ^ 63 + 1)" "k < 0" by auto
      then have "k * P \<le> - (2 ^ 63 + 1) * P" using P by (intro mult_right_mono) auto
      moreover have "0 < (2 ^ 63 + 1) * P" using P by simp
      ultimately show ?thesis using k(4,5) n(2) by linarith
    qed
    then show ?thesis using r unfolding P_def by blast
  qed
qed

lemma to_float_exact:
  assumes "\<bar>sint i\<bar> \<le> 2 ^ 53"
  shows "\<exists>f. to_float (VInt i :: 'e opaal_value) = Some (Ok (VFloat f)) \<and> float_ok f
    \<and> to_int (VFloat f :: 'e opaal_value) = Ok (VInt i)"
proof -
  define P :: int where "P = 2 ^ 1075"
  have P: "0 < P" by (simp add: P_def)
  have e: "f64_is_finite (i64_to_f64 i)" "f64_scaled (i64_to_f64 i) = sint i * P"
    using i64_to_f64_exact [OF assms] by (simp_all only: P_def)
  obtain f where f: "finite_float_new (i64_to_f64 i) = Ok f" using e(1) by (simp add: finite_float_new_def)
  note ok = finite_float_new_ok [OF f]
  have s: "f64_scaled (float_bits f) = sint i * P" using ok e(2) by simp
  have "\<not> 2 ^ 63 * P \<le> sint i * P" "\<not> sint i * P \<le> - (2 ^ 63 + 1) * P"
    using P assms by (simp_all only: mult_le_cancel_right) auto
  then obtain k where k: "to_int (VFloat f :: 'e opaal_value) = Ok (VInt k)" "\<bar>sint i * P - sint k * P\<bar> < P"
    using to_int_exact [of f] ok s unfolding P_def [symmetric] by auto
  have "\<bar>sint i - sint k\<bar> * P < 1 * P" using k(2) P by (simp add: abs_mult flip: left_diff_distrib)
  then have "\<bar>sint i - sint k\<bar> < 1" using P by (simp only: mult_less_cancel_right_pos)
  then have "k = i" using sint_eq_iff [of i k] by simp
  then show ?thesis using f k(1) ok by (auto simp: to_float_def)
qed

subsection \<open>Properties\<close>

lemma float_value_nearest:
  assumes "if small then nearest w v d else \<not> f64_is_finite w"
  shows "if small then \<exists>r. float_value w = Ok (VFloat r) \<and> float_ok r \<and> nearest (float_bits r) v d
    else float_value w = Err OpNonFiniteFloat"
proof (cases small)
  case True
  then have n: "nearest w v d" "f64_is_finite w" using assms by (auto simp: nearest_def)
  then obtain r where r: "finite_float_new w = Ok r" by (simp add: finite_float_new_def)
  with n finite_float_new_ok [OF r] have "nearest (float_bits r) v d" by (auto simp: nearest_def float_ok_def)
  then show ?thesis using True r finite_float_new_ok [OF r] by (simp add: float_value_def)
next
  case False
  then show ?thesis using assms by (simp add: float_value_def finite_float_new_def)
qed

lemma float_operators:
  "add (VFloat f) (VFloat g) = float_value (f64_add (float_bits f) (float_bits g))"
  "subtract (VFloat f) (VFloat g) = float_value (f64_sub (float_bits f) (float_bits g))"
  "multiply (VFloat f) (VFloat g) = float_value (f64_mul (float_bits f) (float_bits g))"
  by (simp_all add: add_def subtract_def multiply_def numeric_pair_def)

lemma int_operators:
  "add (VInt a) (VInt b) = int_or_overflow ''+'' (checked64 (sint a + sint b))"
  "subtract (VInt a) (VInt b) = int_or_overflow ''-'' (checked64 (sint a - sint b))"
  "multiply (VInt a) (VInt b) = int_or_overflow ''*'' (checked64 (sint a * sint b))"
  "negate (VInt a) = int_or_overflow ''-'' (checked64 (- sint a))"
  by (simp_all add: add_def subtract_def multiply_def negate_def numeric_pair_def checked_defs)

lemma int_divisions:
  "divide_op (VInt a) (VInt b) = map_option (map_sum id VInt) (floored_div a b)"
  "remainder (VInt a) (VInt b) = map_option (map_sum id VInt) (floored_rem a b)"
  by (simp_all add: divide_op_def remainder_def numeric_pair_def)

text \<open>
  Integer addition, subtraction, multiplication and negation are exact: a result is returned exactly
  when it is the mathematical one, and an overflow is reported exactly when no 64-bit integer is.
\<close>

theorem int_arithmetic_exact:
  "(add (VInt a) (VInt b) = Ok (VInt c) \<longleftrightarrow> sint c = sint a + sint b)
    \<and> (add (VInt a) (VInt b) = Err (IntegerOverflow ''+'') \<longleftrightarrow> (\<nexists>d :: i64. sint d = sint a + sint b))
    \<and> (subtract (VInt a) (VInt b) = Ok (VInt c) \<longleftrightarrow> sint c = sint a - sint b)
    \<and> (subtract (VInt a) (VInt b) = Err (IntegerOverflow ''-'') \<longleftrightarrow> (\<nexists>d :: i64. sint d = sint a - sint b))
    \<and> (multiply (VInt a) (VInt b) = Ok (VInt c) \<longleftrightarrow> sint c = sint a * sint b)
    \<and> (multiply (VInt a) (VInt b) = Err (IntegerOverflow ''*'') \<longleftrightarrow> (\<nexists>d :: i64. sint d = sint a * sint b))
    \<and> (negate (VInt a) = Ok (VInt c) \<longleftrightarrow> sint c = - sint a)
    \<and> (negate (VInt a) = Err (IntegerOverflow ''-'') \<longleftrightarrow> a = I64_MIN)"
proof -
  have "(\<nexists>d :: i64. sint d = - sint a) \<longleftrightarrow> a = I64_MIN"
    using checked64_None [of "- sint a"] sint_bounds64 [of a] sint_eq_iff [of a I64_MIN] sint_MIN
    by (auto simp: checked64_def)
  then show ?thesis unfolding int_operators int_or_overflow_iff by simp
qed

text \<open>
  C23: Integer division and remainder are the floored ones for every divisor but zero, which is an
  error: the quotient is rounded down, the remainder has the sign of the divisor. The quotient of
  \<open>i64::MIN\<close> by \<open>-1\<close> is reported as an overflow, and its remainder, which would be zero, panics; no
  other operands of any families do.
\<close>

theorem floored_division:
  "(divide_op (VInt a) (VInt b) = Some (Ok (VInt q)) \<longleftrightarrow> b \<noteq> 0 \<and> sint q = sint a div sint b)
    \<and> (remainder (VInt a) (VInt b) = Some (Ok (VInt r))
        \<longleftrightarrow> b \<noteq> 0 \<and> \<not> (a = I64_MIN \<and> b = - 1) \<and> sint r = sint a mod sint b)
    \<and> (divide_op (VInt a) (VInt b) = Some (Err (IntegerOverflow ''/'')) \<longleftrightarrow> a = I64_MIN \<and> b = - 1)
    \<and> (divide_op (VInt a) (VInt b) = Some (Err (DivisionByZero ''/'')) \<longleftrightarrow> b = 0)
    \<and> (remainder (VInt a) (VInt b) = Some (Err (DivisionByZero ''%'')) \<longleftrightarrow> b = 0)
    \<and> divide_op u v \<noteq> None
    \<and> (remainder u v = None \<longleftrightarrow> u = VInt I64_MIN \<and> v = VInt (- 1))"
proof -
  note d = int_divisions
  have n: "divide_op u v \<noteq> None" using divide_yields [of u v] by (metis yields_simps(1))
  consider "b = 0" | "a = I64_MIN" "b = - 1" | "b \<noteq> 0" "\<not> (a = I64_MIN \<and> b = - 1)" by blast
  then show ?thesis
  proof cases
    case 1
    then show ?thesis using n remainder_panics [of u v] by (simp add: d floored_zero)
  next
    case 2
    have "sint q \<noteq> 2 ^ 63" using sint_bounds64 [of q] by simp
    then show ?thesis
      using 2 n remainder_panics [of u v] by (simp add: d floored_div_def floored_rem_def checked_div_min rem64_def sint_MIN)
  next
    case 3
    obtain q' where q: "floored_div a b = Some (Ok q')" "sint q' = sint a div sint b"
      using floored_div_exact [OF 3] by blast
    obtain r' where r: "floored_rem a b = Some (Ok r')" "sint r' = sint a mod sint b"
      using floored_rem_exact [OF 3] by blast
    show ?thesis
      using 3 n remainder_panics [of u v] sint_eq_iff [of q q'] sint_eq_iff [of r r'] by (auto simp: d q r)
  qed
qed

text \<open>
  C22: Float addition, subtraction, multiplication and division return a float nearest to the exact
  result, and report a non-finite result exactly when the exact one lies beyond the range of the
  finite floats by at least half a unit in the last place. Floats are read in units of \<open>2 ^ - 1075\<close>.
\<close>

theorem float_arithmetic_rounds:
  assumes "float_ok f" "float_ok g"
  defines "x \<equiv> f64_scaled (float_bits f)" and "y \<equiv> f64_scaled (float_bits g)"
  shows "(if \<bar>x + y\<bar> < int F64_OVERFLOW
        then \<exists>r. add (VFloat f) (VFloat g) = Ok (VFloat r) \<and> float_ok r \<and> nearest (float_bits r) (x + y) 1
        else add (VFloat f) (VFloat g) = Err OpNonFiniteFloat)
    \<and> (if \<bar>x - y\<bar> < int F64_OVERFLOW
        then \<exists>r. subtract (VFloat f) (VFloat g) = Ok (VFloat r) \<and> float_ok r \<and> nearest (float_bits r) (x - y) 1
        else subtract (VFloat f) (VFloat g) = Err OpNonFiniteFloat)
    \<and> (if \<bar>x * y\<bar> < int F64_OVERFLOW * 2 ^ 1075
        then \<exists>r. multiply (VFloat f) (VFloat g) = Ok (VFloat r) \<and> float_ok r \<and> nearest (float_bits r) (x * y) (2 ^ 1075)
        else multiply (VFloat f) (VFloat g) = Err OpNonFiniteFloat)
    \<and> (if y = 0 then divide_op (VFloat f) (VFloat g) = Some (Err (DivisionByZero ''/''))
        else if \<bar>x\<bar> * 2 ^ 1075 < int F64_OVERFLOW * \<bar>y\<bar>
        then \<exists>r. divide_op (VFloat f) (VFloat g) = Some (Ok (VFloat r)) \<and> float_ok r
          \<and> nearest (float_bits r) (sgn y * x * 2 ^ 1075) \<bar>y\<bar>
        else divide_op (VFloat f) (VFloat g) = Some (Err OpNonFiniteFloat))"
proof -
  have fin: "f64_is_finite (float_bits f)" "f64_is_finite (float_bits g)"
    using assms(1,2) by (simp_all add: float_ok_def)
  have z: "f64_is_zero (float_bits g) \<longleftrightarrow> y = 0"
    using zero_magnitude [OF fin(2)] by (simp add: y_def f64_scaled_magnitude)
  have d: "divide_op (VFloat f) (VFloat g) = Some (if y = 0 then Err (DivisionByZero ''/'')
      else float_value (f64_div (float_bits f) (float_bits g)))"
    by (simp add: divide_op_def numeric_pair_def z)
  have a: "\<bar>sgn y * x * 2 ^ 1075\<bar> = \<bar>x\<bar> * 2 ^ 1075" if "y \<noteq> 0"
    using that by (simp add: abs_mult abs_sgn_eq)
  show ?thesis
  proof (intro conjI)
    show "if y = 0 then divide_op (VFloat f) (VFloat g) = Some (Err (DivisionByZero ''/''))
        else if \<bar>x\<bar> * 2 ^ 1075 < int F64_OVERFLOW * \<bar>y\<bar>
        then \<exists>r. divide_op (VFloat f) (VFloat g) = Some (Ok (VFloat r)) \<and> float_ok r
          \<and> nearest (float_bits r) (sgn y * x * 2 ^ 1075) \<bar>y\<bar>
        else divide_op (VFloat f) (VFloat g) = Some (Err OpNonFiniteFloat)"
    proof (cases "y = 0")
      case True
      then show ?thesis by (simp add: d)
    next
      case False
      then have eq: "divide_op (VFloat f) (VFloat g) = Some (float_value (f64_div (float_bits f) (float_bits g)))"
        by (simp add: d)
      show ?thesis
        using float_value_nearest [OF f64_div_correct [OF fin], folded x_def y_def, unfolded z, OF False, unfolded a [OF False]]
        unfolding eq by (simp only: False if_False option.inject)
    qed
  qed (unfold float_operators x_def y_def,
      rule float_value_nearest [OF f64_add_correct [OF fin]], rule float_value_nearest [OF f64_sub_correct [OF fin]],
      rule float_value_nearest [OF f64_mul_correct [OF fin]])
qed

text \<open>
  Ordering two numbers compares their exact values, integers with floats included, with no rounding
  of the integer: values are read in units of \<open>2 ^ - 1075\<close>.
\<close>

theorem order_numbers_exact:
  assumes "num_scaled a = Some x" "num_scaled b = Some y" "value_ok a" "value_ok b"
  shows "order a b = Some (Ok (cmp x y))"
  by (rule order_numbers [OF assms])

text \<open>
  C21: Ordering is a total preorder on each family of comparable values, nested lists included, and agrees
  with equality: swapping the operands reverses the answer and an error names them in the other
  order, the answer is Equal exactly for equal_op values, and the relation is transitive, so that a
  comparison of the outer two of three values never fails when both inner ones succeed.
\<close>

theorem order_total_preorder:
  assumes "value_ok a" "value_ok b" "value_ok c"
  shows "order a b \<noteq> None
    \<and> order b a = map_option (map_sum reversed_operands ordering_reverse) (order a b)
    \<and> (order a b = Some (Ok x) \<longrightarrow> (x = OEqual \<longleftrightarrow> value_eq err_eq a b))
    \<and> (order a b = Some (Ok x) \<and> order b c = Some (Ok y) \<and> x \<noteq> OGreater \<and> y \<noteq> OGreater
      \<longrightarrow> order a c = Some (Ok (if x = OEqual then y else OLess)))"
  using order_returns [OF assms(1,2)] order_reverse [OF assms(1,2)] order_equal [OF _ assms(1,2)]
    order_trans [OF _ _ _ _ assms] by blast

text \<open>
  C24: Every operator keeps the invariant of values and none panics on values that satisfy it, apart from
  the remainder of \<open>i64::MIN\<close> by \<open>-1\<close>: its result is an error or a value whose floats are finite,
  whose records have distinct keys and whose statuses are well formed.
\<close>

theorem operators_well_typed:
  assumes "value_ok a" "value_ok b" "\<And>e. a = VError e \<Longrightarrow> error_ok e"
  shows "yields_value (Some (add a b)) \<and> yields_value (Some (subtract a b)) \<and> yields_value (Some (multiply a b))
    \<and> yields_value (divide_op a b) \<and> (a \<noteq> VInt I64_MIN \<or> b \<noteq> VInt (- 1) \<longrightarrow> yields_value (remainder a b))
    \<and> yields_value (Some (negate a)) \<and> yields_value (Some (plus_op a))
    \<and> yields_value (less_op a b) \<and> yields_value (less_equal_op a b) \<and> yields_value (greater_op a b)
    \<and> yields_value (greater_equal_op a b) \<and> yields_value (Some (member_op err_eq a b))
    \<and> yields_value (index a b) \<and> yields_value (field kv a name) \<and> yields_value (Some (range_of a b inclusive))
    \<and> yields_value (Some (to_int a)) \<and> yields_value (to_float a)"
  using arithmetic_yields(1-3) [of a b] arithmetic_yields(4,5) [of a] divide_yields [of a b] remainder_yields [of a b] compare_yields [OF assms(1,2)]
    member_range_yields(1) [of err_eq a b] member_range_yields(2) [of a b inclusive] member_range_yields(3) [of a]
    index_yields [OF assms(1)] field_yields [OF assms(1,3)] to_float_yields [OF assms(1)] assms(1)
  by blast

text \<open>
  Conversion of a float to an integer truncates toward zero, and fails exactly when the truncated
  value does not fit; every integer of at most 53 bits converts to a float and back unchanged.
\<close>

theorem numeric_conversions:
  assumes "float_ok f"
  shows "((\<exists>k. to_int (VFloat f) = Ok (VInt k) \<and> \<bar>f64_scaled (float_bits f) - sint k * 2 ^ 1075\<bar> < 2 ^ 1075
        \<and> \<bar>sint k * 2 ^ 1075\<bar> \<le> \<bar>f64_scaled (float_bits f)\<bar>)
     \<or> to_int (VFloat f) = Err (ConversionOutOfRange (float_bits f))
      \<and> (2 ^ 63 * 2 ^ 1075 \<le> f64_scaled (float_bits f) \<or> f64_scaled (float_bits f) \<le> - (2 ^ 63 + 1) * 2 ^ 1075))
    \<and> (\<bar>sint i\<bar> \<le> 2 ^ 53 \<longrightarrow>
      (\<exists>g. to_float (VInt i :: 'e opaal_value) = Some (Ok (VFloat g)) \<and> to_int (VFloat g :: 'e opaal_value) = Ok (VInt i)))"
  using to_int_exact [OF assms] to_float_exact [of i] by blast

subsection \<open>Witnesses\<close>

lemma tiny_float: "float_ok (FiniteFloat 1)" "f64_scaled (float_bits (FiniteFloat 1)) = 2"
  using smallest_floats by (simp_all add: float_ok_def)

theorem float_arithmetic_rounds_witness:
  "float_ok (FiniteFloat 1)
    \<and> (\<exists>r. add (VFloat (FiniteFloat 1)) (VFloat (FiniteFloat 1)) = Ok (VFloat r) \<and> nearest (float_bits r) 4 1)"
proof -
  have "\<bar>2 + 2 :: int\<bar> < int F64_OVERFLOW" using small_below_overflow by simp
  then show ?thesis
    using float_arithmetic_rounds [OF tiny_float(1) tiny_float(1), unfolded tiny_float(2), THEN conjunct1] tiny_float(1)
    by (simp only: if_True) auto
qed

theorem order_numbers_exact_witness:
  "order (VInt 1) (VFloat (FiniteFloat 1)) = Some (Ok OGreater)"
  using order_numbers_exact [of "VInt 1" "1 * 2 ^ 1075" "VFloat (FiniteFloat 1)" 2] tiny_float by (simp add: cmp_def)

theorem order_total_preorder_witness:
  "order (VList [VInt 1, VNull]) (VList [VInt 3, VNull]) = Some (Ok OLess)"
  using order_total_preorder [of "VList [VInt 1, VNull]" "VList [VInt 2, VNull]" "VList [VInt 3, VNull]" OLess "(=)" OLess]
  by (simp add: order_list order.simps cmp_def)

theorem operators_well_typed_witness:
  "value_ok (VInt 7 :: nat runtime_error opaal_value)
    \<and> yields_value (remainder (VInt 7) (VInt 2 :: nat runtime_error opaal_value))"
  using operators_well_typed [of "VInt 7 :: nat runtime_error opaal_value" "VInt 2" "(=)" demo_kinds "''code''" False] by simp

theorem numeric_conversions_witness:
  "float_ok (FiniteFloat 1) \<and> (\<exists>g. to_float (VInt 5 :: nat opaal_value) = Some (Ok (VFloat g))
    \<and> to_int (VFloat g :: nat opaal_value) = Ok (VInt 5))"
  using numeric_conversions [OF tiny_float(1), of 5, THEN conjunct2] tiny_float(1) by simp

end
