(* ===== verification/Streams.thy ===== *)
theory Streams
  imports Operation_Catalog Lifetime
begin

section \<open>Lazy value and byte streams\<close>

text \<open>
  The model of \<^verbatim>\<open>crates/opaal-runtime/src/stream.rs\<close> and of the stream form of the length operation in
  \<^verbatim>\<open>operation.rs\<close>. A closure that produces items is a sequence: its \<open>n\<close>-th call returns the \<open>n\<close>-th
  element, whatever that is, and the source counts the calls. A poll of the cancellation token sees
  the world at that moment and the cells the tokens share, so a pull takes both; a loop takes one
  world for each of its pulls. The cleanup of a stream acts on a world of its own type \<open>'w\<close>. Errors are
  of the type \<open>'e\<close>.
\<close>

subsection \<open>Schemas and owners\<close>

text \<open>\<open>None\<close> is the panic when the identities are exhausted.\<close>

definition owner_fresh :: "u64 \<Rightarrow> (u64 \<times> u64) option" where
  "owner_fresh counter = (if counter = - 1 then None else Some (counter, counter + 1))"

datatype stream_cardinality = Exact nat | AtMost nat | CardinalityUnknown

record stream_schema =
  ss_element_type :: value_type
  ss_cardinality :: stream_cardinality
  ss_owner :: u64

datatype stream_contract_violation =
    ElementType value_type string
  | CardinalityExceeded stream_cardinality nat
  | CardinalityShortfall nat nat

datatype 'e checked_stream_pull =
    CItem "'e opaal_value"
  | CEnd
  | CFailed 'e
  | CCancelled cancel_reason
  | CViolation stream_contract_violation

datatype 'e stream_pull =
    PItem "'e opaal_value"
  | PEnd
  | PFailed 'e
  | PCancelled cancel_reason

subsection \<open>Byte streams\<close>

datatype 'e byte_pull = BChunk string | BEnd | BFailed 'e | BCancelled cancel_reason

datatype 'e byte_source = BChunks "string list" nat | BPuller "nat \<Rightarrow> 'e byte_pull" nat

fun byte_advance :: "'e byte_source \<Rightarrow> 'e byte_pull \<times> 'e byte_source" where
  "byte_advance (BChunks chunks cursor) =
     (case get_opt chunks cursor of
        Some chunk \<Rightarrow> (BChunk chunk, BChunks chunks (cursor + 1))
      | None \<Rightarrow> (BEnd, BChunks chunks cursor))"
| "byte_advance (BPuller f calls) = (f calls, BPuller f (calls + 1))"

record 'e byte_stream =
  bs_source :: "'e byte_source"
  bs_cancel :: cancellation_token
  bs_owner :: u64
  bs_terminal :: bool

definition byte_with_source :: "'e byte_source \<Rightarrow> cancellation_token \<Rightarrow> u64 \<Rightarrow> ('e byte_stream \<times> u64) option" where
  "byte_with_source source never counter =
     (case owner_fresh counter of
        None \<Rightarrow> None
      | Some (owner, counter') \<Rightarrow>
          Some (\<lparr>bs_source = source, bs_cancel = never, bs_owner = owner, bs_terminal = False\<rparr>, counter'))"

definition byte_from_chunks :: "string list \<Rightarrow> cancellation_token \<Rightarrow> u64 \<Rightarrow> ('e byte_stream \<times> u64) option" where
  "byte_from_chunks chunks = byte_with_source (BChunks chunks 0)"

definition byte_from_pull_fn :: "(nat \<Rightarrow> 'e byte_pull) \<Rightarrow> cancellation_token \<Rightarrow> u64 \<Rightarrow> ('e byte_stream \<times> u64) option" where
  "byte_from_pull_fn f = byte_with_source (BPuller f 0)"

definition byte_with_cancellation :: "cancellation_token \<Rightarrow> 'e byte_stream \<Rightarrow> 'e byte_stream" where
  "byte_with_cancellation token s = s\<lparr>bs_cancel := token\<rparr>"

definition byte_pull_next :: "world \<Rightarrow> cells \<Rightarrow> 'e byte_stream \<Rightarrow> 'e byte_pull \<times> cells \<times> 'e byte_stream" where
  "byte_pull_next w c s =
     (if bs_terminal s then (BEnd, c, s)
      else case token_is_cancelled w (bs_cancel s) c of
        (True, c') \<Rightarrow> (BCancelled (token_reason (bs_cancel s) c'), c', s\<lparr>bs_terminal := True\<rparr>)
      | (False, c') \<Rightarrow>
          (case byte_advance (bs_source s) of
             (pulled, source) \<Rightarrow>
               (pulled, c',
                s\<lparr>bs_source := source,
                  bs_terminal := (case pulled of BChunk _ \<Rightarrow> bs_terminal s | _ \<Rightarrow> True)\<rparr>)))"

subsection \<open>Bounded queues\<close>

record 'e bounded_queue =
  bq_items :: "'e opaal_value list"
  bq_capacity :: nat

definition DEFAULT_CAPACITY :: nat where
  "DEFAULT_CAPACITY = 1024"

text \<open>\<open>None\<close> is the panic of a capacity of zero.\<close>

definition queue_with_capacity :: "nat \<Rightarrow> 'e bounded_queue option" where
  "queue_with_capacity capacity =
     (if capacity \<ge> 1 then Some \<lparr>bq_items = [], bq_capacity = capacity\<rparr> else None)"

definition queue_new :: "'e bounded_queue option" where
  "queue_new = queue_with_capacity DEFAULT_CAPACITY"

definition queue_len :: "'e bounded_queue \<Rightarrow> nat" where
  "queue_len q = length (bq_items q)"

definition queue_is_empty :: "'e bounded_queue \<Rightarrow> bool" where
  "queue_is_empty q \<longleftrightarrow> bq_items q = []"

text \<open>A refused push hands the value back.\<close>

definition try_push :: "'e opaal_value \<Rightarrow> 'e bounded_queue \<Rightarrow> (unit, 'e opaal_value) result \<times> 'e bounded_queue" where
  "try_push v q =
     (if length (bq_items q) \<ge> bq_capacity q then (Err v, q)
      else (Ok (), q\<lparr>bq_items := bq_items q @ [v]\<rparr>))"

definition queue_pop :: "'e bounded_queue \<Rightarrow> 'e opaal_value option \<times> 'e bounded_queue" where
  "queue_pop q = (case bq_items q of [] \<Rightarrow> (None, q) | v # vs \<Rightarrow> (Some v, q\<lparr>bq_items := vs\<rparr>))"

subsection \<open>Value streams\<close>

datatype 'e value_source =
    SOnce "'e opaal_value option"
  | SValues "'e opaal_value list" nat
  | SQueue "'e bounded_queue"
  | SProducer "nat \<Rightarrow> ('e opaal_value, 'e) result option" nat
  | SPuller "nat \<Rightarrow> 'e stream_pull" nat

fun advance :: "'e value_source \<Rightarrow> 'e stream_pull \<times> 'e value_source" where
  "advance (SOnce slot) = (case slot of Some v \<Rightarrow> (PItem v, SOnce None) | None \<Rightarrow> (PEnd, SOnce None))"
| "advance (SValues values cursor) =
     (case get_opt values cursor of
        Some v \<Rightarrow> (PItem v, SValues values (cursor + 1))
      | None \<Rightarrow> (PEnd, SValues values cursor))"
| "advance (SQueue queue) =
     (case queue_pop queue of
        (Some v, q) \<Rightarrow> (PItem v, SQueue q)
      | (None, q) \<Rightarrow> (PEnd, SQueue q))"
| "advance (SProducer f calls) =
     (case f calls of
        Some (Ok v) \<Rightarrow> PItem v
      | Some (Err e) \<Rightarrow> PFailed e
      | None \<Rightarrow> PEnd,
      SProducer f (calls + 1))"
| "advance (SPuller f calls) = (f calls, SPuller f (calls + 1))"

type_synonym 'w stream_cleanup = "'w \<Rightarrow> (unit, string) result \<times> 'w"

record ('e, 'w) value_stream =
  vs_source :: "'e value_source"
  vs_cancel :: cancellation_token
  vs_schema :: stream_schema
  vs_checked_items :: nat
  vs_terminal :: bool
  vs_cleanup :: "'w stream_cleanup option"
  vs_closed :: bool

definition with_source ::
  "'e value_source \<Rightarrow> stream_cardinality \<Rightarrow> cancellation_token \<Rightarrow> u64 \<Rightarrow> (('e, 'w) value_stream \<times> u64) option" where
  "with_source source cardinality never counter =
     (case owner_fresh counter of
        None \<Rightarrow> None
      | Some (owner, counter') \<Rightarrow>
          Some (\<lparr>vs_source = source, vs_cancel = never,
            vs_schema = \<lparr>ss_element_type = TyAny, ss_cardinality = cardinality, ss_owner = owner\<rparr>,
            vs_checked_items = 0, vs_terminal = False, vs_cleanup = None, vs_closed = False\<rparr>, counter'))"

definition stream_once ::
  "'e opaal_value \<Rightarrow> cancellation_token \<Rightarrow> u64 \<Rightarrow> (('e, 'w) value_stream \<times> u64) option" where
  "stream_once v = with_source (SOnce (Some v)) (Exact 1)"

definition from_values ::
  "'e opaal_value list \<Rightarrow> cancellation_token \<Rightarrow> u64 \<Rightarrow> (('e, 'w) value_stream \<times> u64) option" where
  "from_values values = with_source (SValues values 0) (Exact (length values))"

definition from_queue ::
  "'e bounded_queue \<Rightarrow> cancellation_token \<Rightarrow> u64 \<Rightarrow> (('e, 'w) value_stream \<times> u64) option" where
  "from_queue queue = with_source (SQueue queue) (Exact (queue_len queue))"

definition from_fn ::
  "(nat \<Rightarrow> ('e opaal_value, 'e) result option) \<Rightarrow> cancellation_token \<Rightarrow> u64
     \<Rightarrow> (('e, 'w) value_stream \<times> u64) option" where
  "from_fn producer = with_source (SProducer producer 0) CardinalityUnknown"

definition from_pull_fn ::
  "(nat \<Rightarrow> 'e stream_pull) \<Rightarrow> cancellation_token \<Rightarrow> u64 \<Rightarrow> (('e, 'w) value_stream \<times> u64) option" where
  "from_pull_fn producer = with_source (SPuller producer 0) CardinalityUnknown"

definition with_contract ::
  "value_type \<Rightarrow> stream_cardinality \<Rightarrow> ('e, 'w) value_stream \<Rightarrow> ('e, 'w) value_stream" where
  "with_contract element_type cardinality s =
     s\<lparr>vs_schema := (vs_schema s)\<lparr>ss_element_type := element_type, ss_cardinality := cardinality\<rparr>\<rparr>"

definition with_cleanup :: "'w stream_cleanup \<Rightarrow> ('e, 'w) value_stream \<Rightarrow> ('e, 'w) value_stream" where
  "with_cleanup cleanup s = s\<lparr>vs_cleanup := Some cleanup\<rparr>"

definition stream_with_cancellation :: "cancellation_token \<Rightarrow> ('e, 'w) value_stream \<Rightarrow> ('e, 'w) value_stream" where
  "stream_with_cancellation token s = s\<lparr>vs_cancel := token\<rparr>"

definition pull ::
  "world \<Rightarrow> cells \<Rightarrow> ('e, 'w) value_stream \<Rightarrow> 'e stream_pull \<times> cells \<times> ('e, 'w) value_stream" where
  "pull w c s =
     (if vs_terminal s then (PEnd, c, s)
      else case token_is_cancelled w (vs_cancel s) c of
        (True, c') \<Rightarrow> (PCancelled (token_reason (vs_cancel s) c'), c', s\<lparr>vs_terminal := True\<rparr>)
      | (False, c') \<Rightarrow>
          (case advance (vs_source s) of
             (pulled, source) \<Rightarrow>
               (pulled, c',
                s\<lparr>vs_source := source,
                  vs_terminal := (case pulled of PItem _ \<Rightarrow> vs_terminal s | _ \<Rightarrow> True)\<rparr>)))"

definition exceeds :: "stream_cardinality \<Rightarrow> nat \<Rightarrow> bool" where
  "exceeds cardinality seen =
     (case cardinality of
        Exact limit \<Rightarrow> limit < seen
      | AtMost limit \<Rightarrow> limit < seen
      | CardinalityUnknown \<Rightarrow> False)"

definition pull_checked ::
  "world \<Rightarrow> cells \<Rightarrow> ('e, 'w) value_stream \<Rightarrow> 'e checked_stream_pull \<times> cells \<times> ('e, 'w) value_stream" where
  "pull_checked w c s =
     (if vs_terminal s then (CEnd, c, s)
      else case pull w c s of
        (PItem v, c', s') \<Rightarrow>
          let seen = vs_checked_items s' + 1; schema = vs_schema s'
          in if exceeds (ss_cardinality schema) seen
             then (CViolation (CardinalityExceeded (ss_cardinality schema) seen), c', s'\<lparr>vs_terminal := True\<rparr>)
             else if \<not> accepts (ss_element_type schema) v
             then (CViolation (ElementType (ss_element_type schema) (family_name v)), c', s'\<lparr>vs_terminal := True\<rparr>)
             else (CItem v, c', s'\<lparr>vs_checked_items := seen\<rparr>)
      | (PEnd, c', s') \<Rightarrow>
          (case ss_cardinality (vs_schema s') of
             Exact expected \<Rightarrow>
               if vs_checked_items s' < expected
               then (CViolation (CardinalityShortfall expected (vs_checked_items s')), c', s')
               else (CEnd, c', s')
           | _ \<Rightarrow> (CEnd, c', s'))
      | (PFailed e, c', s') \<Rightarrow> (CFailed e, c', s')
      | (PCancelled reason, c', s') \<Rightarrow> (CCancelled reason, c', s'))"

definition close_stream ::
  "('e, 'w) value_stream \<Rightarrow> 'w \<Rightarrow> (unit, string) result \<times> ('e, 'w) value_stream \<times> 'w" where
  "close_stream s h =
     (if vs_closed s then (Ok (), s, h)
      else case vs_cleanup s of
        Some cleanup \<Rightarrow> (case cleanup h of (r, h') \<Rightarrow> (r, s\<lparr>vs_closed := True\<rparr>, h'))
      | None \<Rightarrow> (Ok (), s\<lparr>vs_closed := True\<rparr>, h))"

definition drop_stream :: "('e, 'w) value_stream \<Rightarrow> 'w \<Rightarrow> 'w" where
  "drop_stream s h = snd (snd (close_stream s h))"

datatype 'e collect_outcome =
    Collected "'e opaal_value list"
  | CollectLimit nat
  | CollectFailed 'e
  | CollectCancelled cancel_reason

text \<open>
  The loop of \<open>collect_bounded\<close>, with the pulls counted by \<open>i\<close> and the room left, \<open>limit\<close> minus the
  length of what is collected, as the argument of the recursion.
\<close>

fun collect_loop ::
  "(nat \<Rightarrow> world) \<Rightarrow> nat \<Rightarrow> nat \<Rightarrow> nat \<Rightarrow> 'e opaal_value list \<Rightarrow> cells \<Rightarrow> ('e, 'w) value_stream
     \<Rightarrow> 'e collect_outcome \<times> cells \<times> ('e, 'w) value_stream" where
  "collect_loop ws limit i 0 collected c s =
     (case pull (ws i) c s of
        (PEnd, c', s') \<Rightarrow> (Collected collected, c', s')
      | (PItem _, c', s') \<Rightarrow> (CollectLimit limit, c', s')
      | (PFailed e, c', s') \<Rightarrow> (CollectFailed e, c', s')
      | (PCancelled r, c', s') \<Rightarrow> (CollectCancelled r, c', s'))"
| "collect_loop ws limit i (Suc room) collected c s =
     (case pull (ws i) c s of
        (PItem v, c', s') \<Rightarrow> collect_loop ws limit (i + 1) room (collected @ [v]) c' s'
      | (PEnd, c', s') \<Rightarrow> (Collected collected, c', s')
      | (PFailed e, c', s') \<Rightarrow> (CollectFailed e, c', s')
      | (PCancelled r, c', s') \<Rightarrow> (CollectCancelled r, c', s'))"

definition collect_bounded ::
  "(nat \<Rightarrow> world) \<Rightarrow> nat \<Rightarrow> cells \<Rightarrow> ('e, 'w) value_stream
     \<Rightarrow> 'e collect_outcome \<times> cells \<times> ('e, 'w) value_stream" where
  "collect_bounded ws limit c s = collect_loop ws limit 0 limit [] c s"

subsection \<open>The length of a stream\<close>

datatype 'e operation_stream_primary =
    OpValue "'e opaal_value"
  | OpLimitExceeded nat
  | OpFailed 'e
  | OpCancelled cancel_reason
  | OpContractViolation stream_contract_violation
  | OpRejected operation_error
  | OpCleanupFailed string

record 'e operation_stream_outcome =
  so_primary :: "'e operation_stream_primary"
  so_delivered_items :: nat
  so_cleanup_failure :: "string option"

definition finish_stream_operation ::
  "('e, 'w) value_stream \<Rightarrow> 'e operation_stream_primary \<Rightarrow> nat \<Rightarrow> 'w
     \<Rightarrow> 'e operation_stream_outcome \<times> ('e, 'w) value_stream \<times> 'w" where
  "finish_stream_operation s primary delivered h =
     (case close_stream s h of
        (r, s', h') \<Rightarrow>
          (case (primary, r) of
             (OpValue _, Err failure) \<Rightarrow>
               \<lparr>so_primary = OpCleanupFailed failure, so_delivered_items = delivered, so_cleanup_failure = None\<rparr>
           | (_, Err failure) \<Rightarrow>
               \<lparr>so_primary = primary, so_delivered_items = delivered, so_cleanup_failure = Some failure\<rparr>
           | (_, Ok _) \<Rightarrow>
               \<lparr>so_primary = primary, so_delivered_items = delivered, so_cleanup_failure = None\<rparr>,
           s', h'))"

text \<open>The loop of the length operation; the argument of the recursion is the room left below the limit.\<close>

fun length_loop ::
  "operation_descriptor \<Rightarrow> (nat \<Rightarrow> world) \<Rightarrow> nat \<Rightarrow> nat \<Rightarrow> nat \<Rightarrow> cells \<Rightarrow> ('e, 'w) value_stream
     \<Rightarrow> 'e operation_stream_primary \<times> nat \<times> cells \<times> ('e, 'w) value_stream" where
  "length_loop d ws limit delivered room c s =
     (case pull_checked (ws delivered) c s of
        (CItem _, c', s') \<Rightarrow>
          (case room of
             0 \<Rightarrow> (OpLimitExceeded limit, delivered, c', s')
           | Suc room' \<Rightarrow> length_loop d ws limit (delivered + 1) room' c' s')
      | (CEnd, c', s') \<Rightarrow>
          (case int_of_length d delivered of Ok v \<Rightarrow> OpValue v | Err e \<Rightarrow> OpRejected e, delivered, c', s')
      | (CFailed e, c', s') \<Rightarrow> (OpFailed e, delivered, c', s')
      | (CCancelled r, c', s') \<Rightarrow> (OpCancelled r, delivered, c', s')
      | (CViolation v, c', s') \<Rightarrow> (OpContractViolation v, delivered, c', s'))"

declare length_loop.simps [simp del]

text \<open>\<open>None\<close> is the \<open>unreachable!\<close> of an operation other than length that has a stream overload.\<close>

definition execute_value_stream ::
  "operation_descriptor \<Rightarrow> (nat \<Rightarrow> world) \<Rightarrow> nat \<Rightarrow> cells \<Rightarrow> ('e, 'w) value_stream \<Rightarrow> 'w
     \<Rightarrow> ('e operation_stream_outcome \<times> cells \<times> ('e, 'w) value_stream \<times> 'w) option" where
  "execute_value_stream d ws limit c s h =
     (if \<not> list_ex (\<lambda>ov. case ov_input ov of InStream _ \<Rightarrow> True | InValue _ \<Rightarrow> False) (od_overloads d)
      then (case finish_stream_operation s
              (OpRejected (NoMatchingOverload (qualified_name (od_id d)) ''ValueStream'')) 0 h of
              (outcome, s', h') \<Rightarrow> Some (outcome, c, s', h'))
      else if od_implementation d \<noteq> OpLength then None
      else (case length_loop d ws limit 0 limit c s of
          (primary, delivered, c', s') \<Rightarrow>
            (case finish_stream_operation s' primary delivered h of
               (outcome, s'', h') \<Rightarrow> Some (outcome, c', s'', h'))))"


section \<open>What the streams promise\<close>

subsection \<open>Traces of pulls\<close>

text \<open>The results of \<open>n\<close> pulls in a row, the \<open>i\<close>-th in the world \<open>ws i\<close>, and what they leave.\<close>

fun trace ::
  "(nat \<Rightarrow> world) \<Rightarrow> nat \<Rightarrow> nat \<Rightarrow> cells \<Rightarrow> ('e, 'w) value_stream
     \<Rightarrow> 'e stream_pull list \<times> cells \<times> ('e, 'w) value_stream" where
  "trace ws i 0 c s = ([], c, s)"
| "trace ws i (Suc n) c s =
     (case pull (ws i) c s of
        (r, c', s') \<Rightarrow> (case trace ws (i + 1) n c' s' of (rs, c'', s'') \<Rightarrow> (r # rs, c'', s'')))"

fun checked_trace ::
  "(nat \<Rightarrow> world) \<Rightarrow> nat \<Rightarrow> nat \<Rightarrow> cells \<Rightarrow> ('e, 'w) value_stream
     \<Rightarrow> 'e checked_stream_pull list \<times> cells \<times> ('e, 'w) value_stream" where
  "checked_trace ws i 0 c s = ([], c, s)"
| "checked_trace ws i (Suc n) c s =
     (case pull_checked (ws i) c s of
        (r, c', s') \<Rightarrow> (case checked_trace ws (i + 1) n c' s' of (rs, c'', s'') \<Rightarrow> (r # rs, c'', s'')))"

definition is_item :: "'e stream_pull \<Rightarrow> bool" where
  "is_item r = (case r of PItem _ \<Rightarrow> True | _ \<Rightarrow> False)"

definition is_checked_item :: "'e checked_stream_pull \<Rightarrow> bool" where
  "is_checked_item r = (case r of CItem _ \<Rightarrow> True | _ \<Rightarrow> False)"

lemma pull_terminal: "vs_terminal s \<Longrightarrow> pull w c s = (PEnd, c, s)"
  by (simp add: pull_def)

lemma pull_checked_terminal: "vs_terminal s \<Longrightarrow> pull_checked w c s = (CEnd, c, s)"
  by (simp add: pull_checked_def)

lemma trace_terminal: "vs_terminal s \<Longrightarrow> trace ws i n c s = (replicate n PEnd, c, s)"
  by (induction n arbitrary: i) (simp_all add: pull_terminal)

lemma checked_trace_terminal: "vs_terminal s \<Longrightarrow> checked_trace ws i n c s = (replicate n CEnd, c, s)"
  by (induction n arbitrary: i) (simp_all add: pull_checked_terminal)

text \<open>A pull keeps everything of the stream but the source and the latch.\<close>

lemma pull_frame:
  assumes "pull w c s = (r, c', s')"
  shows "vs_schema s' = vs_schema s \<and> vs_checked_items s' = vs_checked_items s \<and> vs_cleanup s' = vs_cleanup s
    \<and> vs_closed s' = vs_closed s \<and> vs_cancel s' = vs_cancel s \<and> (vs_terminal s' \<longleftrightarrow> vs_terminal s \<or> \<not> is_item r)"
  using assms by (auto simp: pull_def is_item_def split: if_splits prod.splits bool.splits stream_pull.splits)

lemma pull_checked_frame:
  assumes "pull_checked w c s = (r, c', s')"
  shows "vs_schema s' = vs_schema s \<and> vs_cleanup s' = vs_cleanup s \<and> vs_closed s' = vs_closed s
    \<and> (vs_terminal s' \<longleftrightarrow> vs_terminal s \<or> \<not> is_checked_item r)"
proof (cases "vs_terminal s")
  case True
  with assms show ?thesis by (simp add: pull_checked_terminal is_checked_item_def)
next
  case False
  obtain p c1 s1 where p: "pull w c s = (p, c1, s1)" by (cases "pull w c s") auto
  from pull_frame [OF p] False assms show ?thesis
    by (cases p) (auto simp: pull_checked_def p is_item_def is_checked_item_def Let_def split: if_splits stream_cardinality.splits)
qed

subsection \<open>Collecting\<close>

lemma collect_loop_trace:
  assumes "length acc + room = limit"
  shows "\<exists>vs r. length vs \<le> room \<and> trace ws i (Suc (length vs)) c s
      = (map PItem vs @ [r], snd (collect_loop ws limit i room acc c s))
    \<and> (is_item r \<longrightarrow> length vs = room)
    \<and> fst (collect_loop ws limit i room acc c s) =
        (case r of PItem _ \<Rightarrow> CollectLimit limit | PEnd \<Rightarrow> Collected (acc @ vs) | PFailed e \<Rightarrow> CollectFailed e
         | PCancelled q \<Rightarrow> CollectCancelled q)"
  using assms
proof (induction room arbitrary: i acc c s)
  case 0
  obtain r c' s' where r: "pull (ws i) c s = (r, c', s')" by (cases "pull (ws i) c s") auto
  show ?case by (rule exI [of _ "[]"], rule exI [of _ r]) (simp add: r split: stream_pull.splits)
next
  case (Suc room)
  obtain r c' s' where r: "pull (ws i) c s = (r, c', s')" by (cases "pull (ws i) c s") auto
  show ?case
  proof (cases "is_item r")
    case True
    then obtain v where v: "r = PItem v" by (auto simp: is_item_def split: stream_pull.splits)
    from Suc.IH [of "acc @ [v]" "i + 1" c' s'] Suc.prems obtain vs q where
      "length vs \<le> room" "trace ws (i + 1) (Suc (length vs)) c' s'
        = (map PItem vs @ [q], snd (collect_loop ws limit (i + 1) room (acc @ [v]) c' s'))"
      "is_item q \<longrightarrow> length vs = room"
      "fst (collect_loop ws limit (i + 1) room (acc @ [v]) c' s') =
        (case q of PItem _ \<Rightarrow> CollectLimit limit | PEnd \<Rightarrow> Collected ((acc @ [v]) @ vs) | PFailed e \<Rightarrow> CollectFailed e
         | PCancelled q \<Rightarrow> CollectCancelled q)"
      by auto
    then show ?thesis
      by (intro exI [of _ "v # vs"] exI [of _ q]) (simp add: r v del: trace.simps(2) add: trace.simps(2) [of ws i] split: stream_pull.splits)
  next
    case False
    then show ?thesis
      by (intro exI [of _ "[]"] exI [of _ r]) (simp add: r is_item_def split: stream_pull.splits)
  qed
qed

subsection \<open>Checked pulls\<close>

definition within :: "stream_cardinality \<Rightarrow> nat \<Rightarrow> bool" where
  "within cardinality n \<longleftrightarrow> \<not> exceeds cardinality n"

text \<open>
  What the terminal result \<open>t\<close> may be after \<open>n\<close> accepted items, for the result \<open>p\<close> that the source itself gave
  at that pull.
\<close>

definition fair_end :: "stream_schema \<Rightarrow> nat \<Rightarrow> 'e stream_pull \<Rightarrow> 'e checked_stream_pull \<Rightarrow> bool" where
  "fair_end schema n p t =
     (case t of
        CItem _ \<Rightarrow> False
      | CEnd \<Rightarrow> p = PEnd \<and> (\<forall>m. ss_cardinality schema = Exact m \<longrightarrow> n = m)
      | CFailed e \<Rightarrow> p = PFailed e
      | CCancelled reason \<Rightarrow> p = PCancelled reason
      | CViolation (CardinalityShortfall m k) \<Rightarrow> p = PEnd \<and> ss_cardinality schema = Exact m \<and> k = n \<and> n < m
      | CViolation (CardinalityExceeded declared k) \<Rightarrow>
          is_item p \<and> ss_cardinality schema = declared \<and> k = n + 1 \<and> declared \<in> {Exact n, AtMost n}
      | CViolation (ElementType ty family) \<Rightarrow>
          (\<exists>v. p = PItem v \<and> \<not> accepts ty v \<and> family = family_name v)
          \<and> ty = ss_element_type schema \<and> within (ss_cardinality schema) (n + 1))"

lemma within_zero [simp]: "within declared 0"
  by (simp add: within_def exceeds_def split: stream_cardinality.splits)

text \<open>The result of the source leaves no choice for the terminal result; for an item within the count:\<close>

lemma fair_end_item:
  assumes "fair_end schema n (PItem v) t" "within (ss_cardinality schema) (n + 1)"
  shows "\<not> accepts (ss_element_type schema) v \<and> t = CViolation (ElementType (ss_element_type schema) (family_name v))"
proof (cases t)
  case (CViolation violation)
  with assms show ?thesis by (cases violation) (auto simp: fair_end_def within_def exceeds_def)
qed (use assms in \<open>simp_all add: fair_end_def\<close>)

text \<open>A checked pull is a raw pull judged by the contract.\<close>

lemma pull_checked_step:
  assumes "pull_checked w c s = (r, c', s')" "pull w c s = (p, c1, s1)"
    and "\<not> vs_terminal s" "within (ss_cardinality (vs_schema s)) (vs_checked_items s)"
  shows "(\<exists>v. r = CItem v \<and> p = PItem v \<and> accepts (ss_element_type (vs_schema s)) v \<and> \<not> vs_terminal s'
        \<and> c' = c1 \<and> s' = s1\<lparr>vs_checked_items := vs_checked_items s + 1\<rparr>
        \<and> within (ss_cardinality (vs_schema s)) (vs_checked_items s + 1))
    \<or> (fair_end (vs_schema s) (vs_checked_items s) p r \<and> vs_terminal s')"
  using pull_frame [OF assms(2)] assms
  by (cases p)
    (auto simp: pull_checked_def is_item_def fair_end_def within_def exceeds_def Let_def
      split: if_splits stream_cardinality.splits)

text \<open>The count of the checked items plays no part in a raw pull.\<close>

lemma pull_recount:
  "pull w c (s\<lparr>vs_checked_items := k\<rparr>) =
     (case pull w c s of (r, c', s') \<Rightarrow> (r, c', s'\<lparr>vs_checked_items := k\<rparr>))"
  by (auto simp: pull_def split: prod.splits bool.splits stream_pull.splits)

lemma trace_recount: "fst (trace ws i n c (s\<lparr>vs_checked_items := k\<rparr>)) = fst (trace ws i n c s)"
  by (induction n arbitrary: i c s) (auto simp: pull_recount split: prod.splits, metis fst_conv)

definition judged :: "stream_schema \<Rightarrow> nat \<Rightarrow> 'e stream_pull list \<Rightarrow> 'e checked_stream_pull list \<Rightarrow> bool" where
  "judged schema n ps ts =
     (ps = [] \<and> ts = [] \<or> (\<exists>p qs t k. ps = p # qs \<and> ts = t # replicate k CEnd \<and> fair_end schema n p t))"

lemma checked_trace_shape:
  assumes "\<not> vs_terminal s" "within (ss_cardinality (vs_schema s)) (vs_checked_items s)"
  shows "\<exists>vs ps ts. fst (checked_trace ws i n c s) = map CItem vs @ ts \<and> fst (trace ws i n c s) = map PItem vs @ ps
    \<and> length vs + length ts = n
    \<and> (\<forall>v \<in> set vs. accepts (ss_element_type (vs_schema s)) v)
    \<and> within (ss_cardinality (vs_schema s)) (vs_checked_items s + length vs)
    \<and> judged (vs_schema s) (vs_checked_items s + length vs) ps ts"
  using assms
proof (induction n arbitrary: i c s)
  case 0
  then show ?case by (intro exI [of _ "[]"]) (simp add: judged_def)
next
  case (Suc n)
  obtain r c' s' where r: "pull_checked (ws i) c s = (r, c', s')" by (cases "pull_checked (ws i) c s") auto
  obtain p c1 s1 where p: "pull (ws i) c s = (p, c1, s1)" by (cases "pull (ws i) c s") auto
  have tr: "fst (checked_trace ws i (Suc n) c s) = r # fst (checked_trace ws (i + 1) n c' s')"
    "fst (trace ws i (Suc n) c s) = p # fst (trace ws (i + 1) n c1 s1)"
    by (simp_all add: r p split: prod.splits)
  from pull_checked_step [OF r p Suc.prems] show ?case
  proof (elim disjE exE conjE)
    fix v
    assume v: "r = CItem v" "p = PItem v" "accepts (ss_element_type (vs_schema s)) v" "\<not> vs_terminal s'" "c' = c1"
      "s' = s1\<lparr>vs_checked_items := vs_checked_items s + 1\<rparr>"
      "within (ss_cardinality (vs_schema s)) (vs_checked_items s + 1)"
    have sch: "vs_schema s' = vs_schema s" "vs_checked_items s' = vs_checked_items s + 1"
      using pull_checked_frame [OF r] v(6) by simp_all
    from Suc.IH [of s' "i + 1" c'] v sch obtain vs ps ts where
      "fst (checked_trace ws (i + 1) n c' s') = map CItem vs @ ts" "fst (trace ws (i + 1) n c1 s1) = map PItem vs @ ps"
      "length vs + length ts = n"
      "\<forall>v \<in> set vs. accepts (ss_element_type (vs_schema s)) v"
      "within (ss_cardinality (vs_schema s)) (vs_checked_items s + 1 + length vs)"
      "judged (vs_schema s) (vs_checked_items s + 1 + length vs) ps ts"
      by (auto simp: trace_recount)
    with v tr show ?thesis by (intro exI [of _ "v # vs"] exI [of _ ps] exI [of _ ts]) simp
  next
    assume e: "fair_end (vs_schema s) (vs_checked_items s) p r" "vs_terminal s'"
    from checked_trace_terminal [OF e(2)] tr have
      "fst (checked_trace ws i (Suc n) c s) = r # replicate n CEnd" by simp
    with e(1) tr(2) Suc.prems show ?thesis
      by (intro exI [of _ "[]"] exI [of _ "p # fst (trace ws (i + 1) n c1 s1)"] exI [of _ "r # replicate n CEnd"])
        (auto simp: judged_def)
  qed
qed

subsection \<open>Sources that deliver a list\<close>

primrec delivers :: "'e value_source \<Rightarrow> 'e opaal_value list \<Rightarrow> bool" where
  "delivers src [] \<longleftrightarrow> fst (advance src) = PEnd"
| "delivers src (v # vs) \<longleftrightarrow> fst (advance src) = PItem v \<and> delivers (snd (advance src)) vs"

lemma delivers_values: "delivers (SValues values k) (drop k values)"
proof (induction "length values - k" arbitrary: k)
  case 0
  then show ?case by (simp add: get_opt_def)
next
  case (Suc n)
  then have "k < length values" by simp
  then have "drop k values = values ! k # drop (k + 1) values" by (simp add: Cons_nth_drop_Suc)
  with Suc \<open>k < length values\<close> show ?case by (simp add: get_opt_def)
qed

lemma delivers_queue: "delivers (SQueue q) (bq_items q)"
proof (induction "bq_items q" arbitrary: q)
  case Nil
  then show ?case by (simp add: queue_pop_def flip: Nil)
next
  case (Cons v vs)
  from Cons(1) [of "q\<lparr>bq_items := vs\<rparr>"] show ?case by (simp add: queue_pop_def flip: Cons(2))
qed

lemma pull_quiet:
  assumes "tk_signal (vs_cancel s) = SgNever" "\<not> vs_terminal s"
  shows "pull w c s = (fst (advance (vs_source s)), c,
    s\<lparr>vs_source := snd (advance (vs_source s)), vs_terminal := \<not> is_item (fst (advance (vs_source s)))\<rparr>)"
  using assms by (auto simp: pull_def token_is_cancelled_def is_item_def split: prod.splits stream_pull.splits)

lemma collect_delivers:
  assumes "delivers (vs_source s) vs" "tk_signal (vs_cancel s) = SgNever" "\<not> vs_terminal s"
  shows "fst (collect_loop ws limit i room acc c s) =
    (if length vs \<le> room then Collected (acc @ vs) else CollectLimit limit)"
  using assms
proof (induction vs arbitrary: s i room acc)
  case Nil
  then show ?case by (cases room) (simp_all add: pull_quiet)
next
  case (Cons v vs)
  then show ?case
    by (cases room) (simp_all add: pull_quiet is_item_def)
qed

subsection \<open>A bounded first-in first-out buffer\<close>

text \<open>
  What a producer and a consumer rely on: an offer is taken at the back exactly when there is room, a
  refused one changes nothing, and the consumer gets the front.
\<close>

locale bounded_fifo =
  fixes offer :: "'a \<Rightarrow> 'q \<Rightarrow> (unit, 'a) result \<times> 'q"
    and grab :: "'q \<Rightarrow> 'a option \<times> 'q"
    and contents :: "'q \<Rightarrow> 'a list"
    and room_of :: "'q \<Rightarrow> nat"
  assumes offer_room: "length (contents q) < room_of q \<Longrightarrow> fst (offer v q) = Ok ()
      \<and> contents (snd (offer v q)) = contents q @ [v] \<and> room_of (snd (offer v q)) = room_of q"
    and offer_full: "room_of q \<le> length (contents q) \<Longrightarrow> offer v q = (Err v, q)"
    and grab_front: "contents q = v # vs \<Longrightarrow> fst (grab q) = Some v \<and> contents (snd (grab q)) = vs
      \<and> room_of (snd (grab q)) = room_of q"
    and grab_empty: "contents q = [] \<Longrightarrow> grab q = (None, q)"
begin

lemma offer_bounded: "length (contents q) \<le> room_of q \<Longrightarrow>
    length (contents (snd (offer v q))) \<le> room_of (snd (offer v q)) \<and> room_of (snd (offer v q)) = room_of q"
  using offer_room [of q v] offer_full [of q v] by (cases "length (contents q) < room_of q") auto

lemma offer_contents: "contents (snd (offer v q)) = contents q @ (if length (contents q) < room_of q then [v] else [])"
  using offer_room [of q v] offer_full [of q v] by (cases "length (contents q) < room_of q") auto

lemma offers_contents:
  assumes "length (contents q) \<le> room_of q"
  shows "contents (fold (\<lambda>v q. snd (offer v q)) xs q) = take (room_of q) (contents q @ xs)
    \<and> room_of (fold (\<lambda>v q. snd (offer v q)) xs q) = room_of q"
  using assms
proof (induction xs arbitrary: q)
  case (Cons x xs)
  from offer_bounded [OF Cons.prems, of x] Cons.IH [of "snd (offer x q)"]
  have "contents (fold (\<lambda>v q. snd (offer v q)) (x # xs) q) = take (room_of q) (contents (snd (offer x q)) @ xs)
    \<and> room_of (fold (\<lambda>v q. snd (offer v q)) (x # xs) q) = room_of q" by simp
  with Cons.prems show ?case
    by (cases "room_of q - length (contents q)") (auto simp: offer_contents)
qed simp

lemma grab_offer:
  assumes "length (contents q) < room_of q"
  shows "fst (grab (snd (offer v q))) = Some (hd (contents q @ [v]))"
  using grab_front [of "snd (offer v q)"] offer_contents [of v q] assms by (cases "contents q") auto

end

interpretation bq: bounded_fifo try_push queue_pop bq_items bq_capacity
  by unfold_locales (auto simp: try_push_def queue_pop_def)

definition fill :: "'e opaal_value list \<Rightarrow> 'e bounded_queue \<Rightarrow> 'e bounded_queue" where
  "fill vs q = fold (\<lambda>v q. snd (try_push v q)) vs q"

lemma fill_items: "bq_items q = [] \<Longrightarrow> bq_items (fill vs q) = take (bq_capacity q) vs"
  using bq.offers_contents [of q vs] by (simp add: fill_def)

subsection \<open>Closing and the length operation\<close>

lemma close_once:
  assumes "\<not> vs_closed s" "vs_cleanup s = Some f" "f h = (r, h1)"
  shows "close_stream s h = (r, s\<lparr>vs_closed := True\<rparr>, h1)" "drop_stream (s\<lparr>vs_closed := True\<rparr>) h1 = h1"
  using assms by (simp_all add: close_stream_def drop_stream_def)

lemma checked_trace_frame:
  "checked_trace ws i n c s = (rs, c', s') \<Longrightarrow>
     vs_schema s' = vs_schema s \<and> vs_cleanup s' = vs_cleanup s \<and> vs_closed s' = vs_closed s"
proof (induction n arbitrary: i c s rs)
  case (Suc n)
  obtain r c1 s1 where r: "pull_checked (ws i) c s = (r, c1, s1)" by (cases "pull_checked (ws i) c s") auto
  obtain rs1 c2 s2 where t: "checked_trace ws (i + 1) n c1 s1 = (rs1, c2, s2)"
    by (cases "checked_trace ws (i + 1) n c1 s1") auto
  with r Suc.prems have "c2 = c'" "s2 = s'" by simp_all
  with Suc.IH [of "i + 1" c1 s1 rs1] t pull_checked_frame [OF r] show ?case by simp
qed simp

lemma length_loop_trace:
  assumes "delivered + room = limit"
  shows "\<exists>vs r. length vs \<le> room \<and> checked_trace ws delivered (Suc (length vs)) c s
      = (map CItem vs @ [r], snd (snd (length_loop d ws limit delivered room c s)))
    \<and> (is_checked_item r \<longrightarrow> length vs = room)
    \<and> fst (snd (length_loop d ws limit delivered room c s)) = delivered + length vs
    \<and> fst (length_loop d ws limit delivered room c s) =
        (case r of CItem _ \<Rightarrow> OpLimitExceeded limit
         | CEnd \<Rightarrow> (case int_of_length d (delivered + length vs) of Ok v \<Rightarrow> OpValue v | Err e \<Rightarrow> OpRejected e)
         | CFailed e \<Rightarrow> OpFailed e | CCancelled q \<Rightarrow> OpCancelled q | CViolation q \<Rightarrow> OpContractViolation q)"
  using assms
proof (induction room arbitrary: delivered c s)
  case 0
  obtain r c' s' where r: "pull_checked (ws delivered) c s = (r, c', s')" by (cases "pull_checked (ws delivered) c s") auto
  show ?case by (intro exI [of _ "[]"] exI [of _ r]) (simp add: r length_loop.simps [of d ws limit delivered] split: checked_stream_pull.splits)
next
  case (Suc room)
  obtain r c' s' where r: "pull_checked (ws delivered) c s = (r, c', s')" by (cases "pull_checked (ws delivered) c s") auto
  show ?case
  proof (cases "is_checked_item r")
    case True
    then obtain v where v: "r = CItem v" by (auto simp: is_checked_item_def split: checked_stream_pull.splits)
    let ?l = "length_loop d ws limit (delivered + 1) room c' s'"
    have l: "length_loop d ws limit delivered (Suc room) c s = ?l" by (simp add: r v length_loop.simps [of d ws limit delivered])
    from Suc.IH [of "delivered + 1" c' s'] Suc.prems obtain vs q where
      "length vs \<le> room" "checked_trace ws (delivered + 1) (Suc (length vs)) c' s' = (map CItem vs @ [q], snd (snd ?l))"
      "is_checked_item q \<longrightarrow> length vs = room" "fst (snd ?l) = delivered + 1 + length vs"
      "fst ?l = (case q of CItem _ \<Rightarrow> OpLimitExceeded limit
         | CEnd \<Rightarrow> (case int_of_length d (delivered + 1 + length vs) of Ok v \<Rightarrow> OpValue v | Err e \<Rightarrow> OpRejected e)
         | CFailed e \<Rightarrow> OpFailed e | CCancelled q \<Rightarrow> OpCancelled q | CViolation q \<Rightarrow> OpContractViolation q)"
      by auto
    moreover from this(2) have "checked_trace ws delivered (Suc (length (v # vs))) c s = (map CItem (v # vs) @ [q], snd (snd ?l))"
      by (simp add: r v del: checked_trace.simps(2) add: checked_trace.simps(2) [of ws delivered])
    ultimately show ?thesis
      by (intro exI [of _ "v # vs"] exI [of _ q]) (simp only: l list.size add_Suc_right add_Suc, simp split: checked_stream_pull.splits)
  next
    case False
    then show ?thesis
      by (intro exI [of _ "[]"] exI [of _ r]) (simp add: r is_checked_item_def length_loop.simps [of d ws limit delivered] split: checked_stream_pull.splits)
  qed
qed

lemma finish_closes:
  assumes "\<not> vs_closed s" "vs_cleanup s = Some f" "f h = (r, h1)"
  shows "finish_stream_operation s primary n h =
    ((case (primary, r) of
        (OpValue _, Err failure) \<Rightarrow>
          \<lparr>so_primary = OpCleanupFailed failure, so_delivered_items = n, so_cleanup_failure = None\<rparr>
      | (_, Err failure) \<Rightarrow> \<lparr>so_primary = primary, so_delivered_items = n, so_cleanup_failure = Some failure\<rparr>
      | (_, Ok _) \<Rightarrow> \<lparr>so_primary = primary, so_delivered_items = n, so_cleanup_failure = None\<rparr>),
     s\<lparr>vs_closed := True\<rparr>, h1)"
  by (simp add: finish_stream_operation_def close_once [OF assms])

section \<open>The properties\<close>

text \<open>
  C15: Collecting a stream always returns, whatever the producer does, after at most one pull more than the
  limit. It pulls up to the first result that is not an item, or up to one item beyond the limit; it
  returns exactly the items pulled when that last result is the end, and the limit, the failure or the
  cancellation otherwise. The stream is left as those pulls leave it.
\<close>

theorem collect_bounded_returns:
  fixes s :: "('e, 'w) value_stream"
  shows "\<exists>vs r. length vs \<le> limit
    \<and> trace ws 0 (length vs + 1) c s = (map PItem vs @ [r], snd (collect_bounded ws limit c s))
    \<and> (case r of
         PItem _ \<Rightarrow> fst (collect_bounded ws limit c s) = CollectLimit limit \<and> length vs = limit
       | PEnd \<Rightarrow> fst (collect_bounded ws limit c s) = Collected vs
       | PFailed e \<Rightarrow> fst (collect_bounded ws limit c s) = CollectFailed e
       | PCancelled reason \<Rightarrow> fst (collect_bounded ws limit c s) = CollectCancelled reason)"
proof -
  have "length ([] :: 'e opaal_value list) + limit = limit" by simp
  from collect_loop_trace [OF this, of ws 0 c s] obtain vs r where
    "length vs \<le> limit" "trace ws 0 (Suc (length vs)) c s = (map PItem vs @ [r], snd (collect_loop ws limit 0 limit [] c s))"
    "is_item r \<longrightarrow> length vs = limit" "fst (collect_loop ws limit 0 limit [] c s) =
      (case r of PItem _ \<Rightarrow> CollectLimit limit | PEnd \<Rightarrow> Collected vs | PFailed e \<Rightarrow> CollectFailed e
       | PCancelled q \<Rightarrow> CollectCancelled q)"
    unfolding append_Nil by blast
  then show ?thesis
    unfolding collect_bounded_def by (intro exI [of _ vs] exI [of _ r]) (cases r; simp only: Suc_eq_plus1 is_item_def stream_pull.case simp_thms)
qed

text \<open>
  C16: However often a fresh stream with a declared contract is pulled, the checked results are the items the
  source gave, of the declared element type and never more than the declared cardinality, up to the first
  result of the source that is not such an item; that result gives the one terminal result, and after it
  come only ends. The terminal result is true to the source: a failure and a cancellation are the source's
  own, an end is its end with an exact count met, a shortfall is its end with the count not met, an excess
  is an item beyond the declared number, and a violation of the element type is an item that the declared
  type refuses, reported with its family.
\<close>

theorem checked_stream_contract:
  assumes "\<not> vs_terminal s" "vs_checked_items s = 0"
  shows "\<exists>vs ps ts. fst (checked_trace ws i n c s) = map CItem vs @ ts
    \<and> fst (trace ws i n c s) = map PItem vs @ ps
    \<and> length vs + length ts = n
    \<and> (\<forall>v \<in> set vs. accepts (ss_element_type (vs_schema s)) v)
    \<and> (\<forall>m. ss_cardinality (vs_schema s) \<in> {Exact m, AtMost m} \<longrightarrow> length vs \<le> m)
    \<and> (ps = [] \<and> ts = []
       \<or> (\<exists>p qs t k. ps = p # qs \<and> ts = t # replicate k CEnd \<and> fair_end (vs_schema s) (length vs) p t))"
proof -
  from checked_trace_shape [of s ws i n c] assms obtain vs ps ts where
    s: "fst (checked_trace ws i n c s) = map CItem vs @ ts" "fst (trace ws i n c s) = map PItem vs @ ps"
      "length vs + length ts = n" "\<forall>v \<in> set vs. accepts (ss_element_type (vs_schema s)) v"
      "within (ss_cardinality (vs_schema s)) (length vs)" "judged (vs_schema s) (length vs) ps ts"
    by auto
  moreover from s(5) have "\<forall>m. ss_cardinality (vs_schema s) \<in> {Exact m, AtMost m} \<longrightarrow> length vs \<le> m"
    by (auto simp: within_def exceeds_def)
  ultimately show ?thesis unfolding judged_def by blast
qed

text \<open>
  C18: A queue filled by a producer and drained through a stream hands over what it had room for, in order: of
  the values offered to a fresh queue the first ones up to the capacity are kept, the rest are refused,
  and collecting the stream built from it gives back exactly those, or the limit when they do not fit.
\<close>

theorem queue_stream_fifo:
  assumes "queue_with_capacity k = Some q" "from_queue (fill vs q) never counter = Some (s, counter')"
    "tk_signal never = SgNever"
  shows "queue_len (fill vs q) = min k (length vs)
    \<and> fst (collect_bounded ws limit c s) =
        (if min k (length vs) \<le> limit then Collected (take k vs) else CollectLimit limit)"
proof -
  from assms(1) have q: "bq_items q = []" "bq_capacity q = k" by (auto simp: queue_with_capacity_def split: if_splits)
  then have items: "bq_items (fill vs q) = take k vs" using fill_items [of q vs] by simp
  from assms(2,3) have s: "vs_source s = SQueue (fill vs q)" "tk_signal (vs_cancel s) = SgNever" "\<not> vs_terminal s"
    by (auto simp: from_queue_def with_source_def split: option.splits)
  with delivers_queue [of "fill vs q"] items have "delivers (vs_source s) (take k vs)" by simp
  from collect_delivers [OF this s(2,3), of ws limit 0 limit "[]" c] items show ?thesis
    by (simp add: collect_bounded_def queue_len_def min.commute)
qed

text \<open>
  C17: The length of a stream. For the compiled length operation and a stream that owns a resource, the call
  returns, and the resource is released exactly once: by the call, and not again when the stream is
  dropped. The result is the number of checked items when the stream ends within the limit, and
  otherwise says what happened: the limit was passed, the producer failed, the run was cancelled or the
  contract was broken; a failed release replaces a value and is kept beside any other result.
\<close>

theorem stream_length_exact:
  fixes s :: "('e, 'w) value_stream"
  assumes "standard_operation m name = Some (Some d)" "od_implementation d = OpLength" "limit < 2 ^ 63"
    and "\<not> vs_closed s" "vs_cleanup s = Some f" "f h = (released, h1)"
  shows "\<exists>outcome c' s' vs r. execute_value_stream d ws limit c s h = Some (outcome, c', s', h1)
    \<and> drop_stream s' h1 = h1
    \<and> length vs \<le> limit \<and> fst (checked_trace ws 0 (length vs + 1) c s) = map CItem vs @ [r]
    \<and> so_delivered_items outcome = length vs
    \<and> so_cleanup_failure outcome = (if r = CEnd then None else case released of Ok _ \<Rightarrow> None | Err e \<Rightarrow> Some e)
    \<and> (case r of
         CEnd \<Rightarrow> so_primary outcome =
           (case released of Ok _ \<Rightarrow> OpValue (VInt (word_of_nat (length vs))) | Err e \<Rightarrow> OpCleanupFailed e)
       | CItem _ \<Rightarrow> so_primary outcome = OpLimitExceeded limit \<and> length vs = limit
       | CFailed e \<Rightarrow> so_primary outcome = OpFailed e
       | CCancelled reason \<Rightarrow> so_primary outcome = OpCancelled reason
       | CViolation v \<Rightarrow> so_primary outcome = OpContractViolation v)"
proof -
  from standard_operation_ok [of m name] assms(1,2) have ov: "od_overloads d = length_overloads"
    by (simp add: entry_ok_def)
  define l where "l = length_loop d ws limit 0 limit c s"
  obtain p n c1 s1 where l: "l = (p, n, c1, s1)" by (cases l) auto
  from length_loop_trace [OF add_0, of limit ws c s d, folded l_def, unfolded l fst_conv snd_conv add_0] obtain vs r where t:
    "length vs \<le> limit" "checked_trace ws 0 (Suc (length vs)) c s = (map CItem vs @ [r], c1, s1)"
    "is_checked_item r \<longrightarrow> length vs = limit" "n = length vs"
    "p = (case r of CItem _ \<Rightarrow> OpLimitExceeded limit
         | CEnd \<Rightarrow> (case int_of_length d (length vs) of Ok v \<Rightarrow> OpValue v | Err e \<Rightarrow> OpRejected e)
         | CFailed e \<Rightarrow> OpFailed e | CCancelled q \<Rightarrow> OpCancelled q | CViolation q \<Rightarrow> OpContractViolation q)"
    by blast
  from checked_trace_frame [OF t(2)] assms(4,5) have s1: "\<not> vs_closed s1" "vs_cleanup s1 = Some f" by simp_all
  have count: "int_of_length d (length vs) = Ok (VInt (word_of_nat (length vs)) :: 'e opaal_value)"
    using t(1) assms(3) by (simp add: int_of_length_def)
  have run: "execute_value_stream d ws limit c s h =
      (case finish_stream_operation s1 p n h of (outcome, s', h') \<Rightarrow> Some (outcome, c1, s', h'))"
    using assms(2) l by (simp add: execute_value_stream_def ov length_overloads_def overload_new_def l_def split: prod.splits)
  show ?thesis
    unfolding run finish_closes [OF s1 assms(6)] prod.case
    by (rule exI, rule exI, rule exI, rule exI [of _ vs], rule exI [of _ r], intro conjI, rule refl)
      (use t count close_once(2) [OF s1 assms(6)] in
        \<open>simp_all add: is_checked_item_def split: checked_stream_pull.splits sum.splits\<close>)
qed

subsection \<open>Witnesses\<close>

definition quiet_token :: cancellation_token where
  "quiet_token = \<lparr>tk_signal = SgNever, tk_reason = 0\<rparr>"

definition demo_stream :: "(string, nat) value_stream" where
  "demo_stream =
     \<lparr>vs_source = SValues [VInt 7, VInt 9] 0, vs_cancel = quiet_token,
      vs_schema = \<lparr>ss_element_type = TyInt, ss_cardinality = Exact 2, ss_owner = 1\<rparr>,
      vs_checked_items = 0, vs_terminal = False, vs_cleanup = Some (\<lambda>n. (Ok (), n + 1)), vs_closed = False\<rparr>"

text \<open>
  An integer, then a string that the declared type refuses: from the results of the source alone the
  contract gives the whole checked trace, which evaluation confirms.
\<close>

definition mixed_stream :: "(string, nat) value_stream" where
  "mixed_stream = demo_stream\<lparr>vs_source := SValues [VInt 7, VString ''x''] 0\<rparr>"

lemma mixed_raw: "fst (trace (\<lambda>_. noon) 0 3 demo_cells mixed_stream) = [PItem (VInt 7), PItem (VString ''x''), PEnd]"
  by (simp add: mixed_stream_def demo_stream_def quiet_token_def numeral_3_eq_3 pull_def token_is_cancelled_def get_opt_def)

theorem checked_stream_contract_witness:
  "fst (checked_trace (\<lambda>_. noon) 0 3 demo_cells mixed_stream)
     = [CItem (VInt 7), CViolation (ElementType TyInt ''string''), CEnd]"
proof -
  have schema: "vs_schema mixed_stream = \<lparr>ss_element_type = TyInt, ss_cardinality = Exact 2, ss_owner = 1\<rparr>"
    by (simp add: mixed_stream_def demo_stream_def)
  have "\<not> vs_terminal mixed_stream" "vs_checked_items mixed_stream = 0" by (simp_all add: mixed_stream_def demo_stream_def)
  from checked_stream_contract [OF this, of "\<lambda>_. noon" 0 3 demo_cells] obtain vs ps ts where
    t: "fst (checked_trace (\<lambda>_. noon) 0 3 demo_cells mixed_stream) = map CItem vs @ ts"
      "[PItem (VInt 7), PItem (VString ''x''), PEnd] = map PItem vs @ ps" "length vs + length ts = 3"
      "\<forall>v \<in> set vs. accepts TyInt v"
      "ps = [] \<and> ts = [] \<or> (\<exists>p qs t k. ps = p # qs \<and> ts = t # replicate k CEnd \<and> fair_end (vs_schema mixed_stream) (length vs) p t)"
    unfolding mixed_raw schema by auto
  have item: "\<not> accepts TyInt v \<and> q = CViolation (ElementType TyInt (family_name v))"
    if "fair_end (vs_schema mixed_stream) n (PItem v) q" "n < 2" for n v q
    using fair_end_item [OF that(1)] that(2) by (simp add: schema within_def exceeds_def)
  have vs: "vs = [VInt 7]"
    using t(2,4,5) by (auto simp: Cons_eq_append_conv Cons_eq_map_conv dest!: item)
  with t(2,3,5) have "ts = [CViolation (ElementType TyInt ''string''), CEnd]"
    by (auto simp: family_name_def numeral_3_eq_3 dest!: item)
  with vs t(1) show ?thesis by simp
qed

theorem queue_stream_fifo_witness:
  "\<exists>q s counter'. queue_with_capacity 2 = Some q
    \<and> from_queue (fill [VInt 1, VInt 2, VInt 3] q) quiet_token 1 = Some (s :: (string, nat) value_stream, counter')
    \<and> fst (collect_bounded (\<lambda>_. noon) 10 demo_cells s) = (Collected [VInt 1, VInt 2] :: string collect_outcome)"
proof -
  have q: "queue_with_capacity 2 = Some (\<lparr>bq_items = [], bq_capacity = 2\<rparr> :: string bounded_queue)"
    by (simp add: queue_with_capacity_def)
  obtain s counter' where s: "from_queue (fill [VInt 1, VInt 2, VInt 3] \<lparr>bq_items = [], bq_capacity = 2\<rparr>) quiet_token 1
      = Some (s :: (string, nat) value_stream, counter')"
    by (simp add: from_queue_def with_source_def owner_fresh_def)
  have "tk_signal quiet_token = SgNever" by (simp add: quiet_token_def)
  from queue_stream_fifo [OF q s this, of "\<lambda>_. noon" 10 demo_cells] q s show ?thesis by auto
qed

theorem stream_length_exact_witness:
  "\<exists>d outcome c' s'. standard_operation (module_standard ''std'' ''value'') ''length'' = Some (Some d)
    \<and> execute_value_stream d (\<lambda>_. noon) 10 demo_cells demo_stream 0 = Some (outcome, c', s', 1)
    \<and> drop_stream s' 1 = 1"
proof -
  let ?m = "module_standard ''std'' ''value''"
  let ?d = "pure_descriptor ?m ''length'' [''T''] length_overloads OpLength"
  have v: "validate ?d = Ok ()" by code_simp
  then have d: "standard_operation ?m ''length'' = Some (Some ?d)"
    by (simp add: standard_operation_def module_standard_def checked_descriptor_def length_overloads_def)
  have i: "od_implementation ?d = OpLength" by (simp add: pure_descriptor_def)
  have "\<not> vs_closed demo_stream" "vs_cleanup demo_stream = Some (\<lambda>n. (Ok (), n + 1))" by (simp_all add: demo_stream_def)
  from stream_length_exact [OF d i _ this, of 10 0 "Ok ()" 1 "\<lambda>_. noon" demo_cells] d show ?thesis by auto
qed

end
