(* ===== verification/Glob.thy ===== *)
theory Glob
  imports Paths
begin

section \<open>Filesystem patterns\<close>

text \<open>
  The model of the patterns of \<^verbatim>\<open>crates/opaal-runtime/src/glob.rs\<close>: the decoding of native names, the
  parser of components and character classes, the table-driven matcher of one component and the
  matcher of whole paths. The lemmas relate both matchers to the meaning of the pattern symbols.
\<close>

datatype native_char = NUnicode nat | NInvalid nat

definition native_order :: "native_char \<Rightarrow> nat" where
  "native_order c = (case c of NUnicode cp \<Rightarrow> cp | NInvalid b \<Rightarrow> 0x110000 + b)"

text \<open>
  The \<open>expect\<close> of \<open>native_chars\<close> is on the validity of the prefix before an error, which
  \<open>utf8_chars_Err\<close> of the prelude shows; the same fact makes each round take a byte at least.
\<close>

function native_chars :: "string \<Rightarrow> native_char list" where
  "native_chars bytes =
     (if bytes = [] then []
      else (case utf8_chars bytes of
          Ok cs \<Rightarrow> map NUnicode cs
        | Err (valid, error_len) \<Rightarrow>
            let rest = drop valid bytes;
                invalid = min (case error_len of Some n \<Rightarrow> n | None \<Rightarrow> 1) (length rest)
            in map NUnicode (chars (take valid bytes)) @ map (\<lambda>b. NInvalid (u8 b)) (take invalid rest)
               @ native_chars (drop invalid rest)))"
  by pat_completeness auto
termination
proof (relation "measure length")
  fix bytes :: string and x valid error_len rest invalid
  assume "utf8_chars bytes = Err x" "(valid, error_len) = x" "rest = drop valid bytes"
    "invalid = min (case error_len of Some n \<Rightarrow> n | None \<Rightarrow> 1) (length rest)"
  with utf8_chars_Err [of bytes valid error_len] show "(drop invalid rest, bytes) \<in> measure length"
    by (cases error_len) (auto simp: min_def)
qed simp

declare native_chars.simps [simp del]

definition is_dot_entry :: "string \<Rightarrow> bool" where
  "is_dot_entry name \<longleftrightarrow> name = ''.'' \<or> name = ''..''"

definition starts_with_dot :: "string \<Rightarrow> bool" where
  "starts_with_dot name \<longleftrightarrow> get_opt (native_chars name) 0 = Some (NUnicode (u8 CHR ''.''))"

subsection \<open>Character classes\<close>

abbreviation uni :: "char \<Rightarrow> native_char" where
  "uni c \<equiv> NUnicode (u8 c)"

record character_class =
  cc_negated :: bool
  cc_ranges :: "(native_char \<times> native_char) list"

fun class_items ::
  "native_char list \<Rightarrow> (native_char \<times> bool) list \<Rightarrow> ((native_char \<times> bool) list \<times> native_char list, string) result" where
  "class_items [] items = Err ''a character class is missing `]`''"
| "class_items (c # cs) items =
     (if c = uni CHR '']'' then Ok (items, cs)
      else if c = uni CHR 0x5C then
        (case cs of
           [] \<Rightarrow> Err ''a character-class escape has no following character''
         | d # ds \<Rightarrow> class_items ds (items @ [(d, True)]))
      else class_items cs (items @ [(c, False)]))"

fun class_ranges ::
  "(native_char \<times> bool) list \<Rightarrow> (native_char \<times> native_char) list \<Rightarrow> ((native_char \<times> native_char) list, string) result" where
  "class_ranges [] ranges = Ok ranges"
| "class_ranges ((start, e) # b # (fin, e') # items) ranges =
     (if b = (uni CHR ''-'', False)
      then if native_order fin < native_order start
        then Err ''a character-class range cannot descend''
        else class_ranges items (ranges @ [(start, fin)])
      else class_ranges (b # (fin, e') # items) (ranges @ [(start, start)]))"
| "class_ranges ((start, e) # items) ranges = class_ranges items (ranges @ [(start, start)])"

definition class_parse :: "native_char list \<Rightarrow> (character_class \<times> native_char list, string) result" where
  "class_parse pattern =
     (let negated = (case pattern of c # _ \<Rightarrow> c = uni CHR ''!'' \<or> c = uni CHR ''^'' | [] \<Rightarrow> False);
          body = (if negated then tl pattern else pattern)
      in case class_items body [] of
           Err e \<Rightarrow> Err e
         | Ok (items, rest) \<Rightarrow>
             if items = [] then Err ''a character class cannot be empty''
             else (case class_ranges items [] of
                 Err e \<Rightarrow> Err e
               | Ok ranges \<Rightarrow> Ok (\<lparr>cc_negated = negated, cc_ranges = ranges\<rparr>, rest)))"

definition class_matches :: "character_class \<Rightarrow> native_char \<Rightarrow> bool" where
  "class_matches c x =
     (list_ex (\<lambda>(a, b). native_order a \<le> native_order x \<and> native_order x \<le> native_order b) (cc_ranges c)
        \<noteq> cc_negated c)"

lemma class_items_length: "class_items cs items = Ok (items', rest) \<Longrightarrow> length rest < length cs"
  by (induction cs items rule: class_items.induct) (auto split: if_splits list.splits)

lemma class_parse_length: "class_parse cs = Ok (c, rest) \<Longrightarrow> length rest < Suc (length cs)"
  using class_items_length
  by (fastforce simp: class_parse_def Let_def split: sum.splits prod.splits if_splits list.splits)

subsection \<open>Components\<close>

datatype pattern_atom =
    AtLiteral native_char
  | AtAnyOne
  | AtAnyMany
  | AtClass character_class

record component_pattern =
  cp_atoms :: "pattern_atom list"
  cp_explicit_hidden :: bool

function parse_atoms :: "native_char list \<Rightarrow> pattern_atom list \<Rightarrow> (pattern_atom list, string) result" where
  "parse_atoms [] atoms = Ok atoms"
| "parse_atoms (c # cs) atoms =
     (if c = uni CHR 0x5C then
        (case cs of
           [] \<Rightarrow> Err ''a trailing escape has no pattern character''
         | d # ds \<Rightarrow> parse_atoms ds (atoms @ [AtLiteral d]))
      else if c = uni CHR ''*'' then
        parse_atoms cs (if atoms \<noteq> [] \<and> last atoms = AtAnyMany then atoms else atoms @ [AtAnyMany])
      else if c = uni CHR ''?'' then parse_atoms cs (atoms @ [AtAnyOne])
      else if c = uni CHR ''['' then
        (case class_parse cs of
           Err e \<Rightarrow> Err e
         | Ok (cl, rest) \<Rightarrow> parse_atoms rest (atoms @ [AtClass cl]))
      else parse_atoms cs (atoms @ [AtLiteral c]))"
  by pat_completeness auto
termination
  by (relation "measure (\<lambda>(cs, _). length cs)") (auto dest: class_parse_length)

definition component_parse :: "native_char list \<Rightarrow> (component_pattern, string) result" where
  "component_parse cs =
     (case parse_atoms cs [] of
        Err e \<Rightarrow> Err e
      | Ok atoms \<Rightarrow>
          Ok \<lparr>cp_atoms = atoms, cp_explicit_hidden = (atoms \<noteq> [] \<and> hd atoms = AtLiteral (uni CHR ''.''))\<rparr>)"

text \<open>One row of the table from the row before it; rows have one entry per prefix of the name.\<close>

definition shift_row :: "(native_char \<Rightarrow> bool) \<Rightarrow> native_char list \<Rightarrow> bool list \<Rightarrow> bool list" where
  "shift_row ok cs current =
     foldl (\<lambda>next i. next[Suc i := next ! Suc i \<or> (current ! i \<and> ok (cs ! i))])
       (replicate (Suc (length cs)) False) [0..<length cs]"

definition many_row :: "native_char list \<Rightarrow> bool list \<Rightarrow> bool list" where
  "many_row cs current =
     foldl (\<lambda>next i. next[i := current ! i \<or> next ! (i - 1)])
       ((replicate (Suc (length cs)) False)[0 := current ! 0]) [1..<Suc (length cs)]"

definition atom_row :: "native_char list \<Rightarrow> bool list \<Rightarrow> pattern_atom \<Rightarrow> bool list" where
  "atom_row cs current a =
     (case a of
        AtAnyMany \<Rightarrow> many_row cs current
      | AtAnyOne \<Rightarrow> shift_row (\<lambda>_. True) cs current
      | AtLiteral e \<Rightarrow> shift_row (\<lambda>x. x = e) cs current
      | AtClass c \<Rightarrow> shift_row (class_matches c) cs current)"

definition component_matches :: "component_pattern \<Rightarrow> string \<Rightarrow> bool" where
  "component_matches p name =
     (if starts_with_dot name \<and> \<not> cp_explicit_hidden p then False
      else let cs = native_chars name
        in foldl (atom_row cs) ((replicate (Suc (length cs)) False)[0 := True]) (cp_atoms p) ! length cs)"

subsection \<open>Whole paths\<close>

datatype pattern_segment = SegParent | SegRecursive | SegComponent component_pattern

definition segment_parse :: "string \<Rightarrow> (pattern_segment, string) result" where
  "segment_parse component =
     (let cs = native_chars component
      in if cs = [uni CHR ''*'', uni CHR ''*''] then Ok SegRecursive
         else (case component_parse cs of Err e \<Rightarrow> Err e | Ok p \<Rightarrow> Ok (SegComponent p)))"

record glob_pattern =
  gp_initial :: string
  gp_segments :: "pattern_segment list"
  gp_empty :: bool

fun parse_components ::
  "path_component list \<Rightarrow> string \<Rightarrow> pattern_segment list \<Rightarrow> bool \<Rightarrow> (string \<times> pattern_segment list \<times> bool, string) result" where
  "parse_components [] initial segments saw = Ok (initial, segments, saw)"
| "parse_components (CompRootDir # cs) initial segments saw =
     parse_components cs (path_push initial ''/'') segments saw"
| "parse_components (CompCurDir # cs) initial segments saw = parse_components cs initial segments True"
| "parse_components (CompParentDir # cs) initial segments saw =
     parse_components cs initial (segments @ [SegParent]) saw"
| "parse_components (CompNormal c # cs) initial segments saw =
     (case segment_parse c of
        Err e \<Rightarrow> Err e
      | Ok s \<Rightarrow> parse_components cs initial (segments @ [s]) saw)"

definition glob_parse :: "string \<Rightarrow> (glob_pattern, string) result" where
  "glob_parse pattern =
     (if pattern = [] then Ok \<lparr>gp_initial = [], gp_segments = [], gp_empty = True\<rparr>
      else if char_of (0::nat) \<in> set pattern then Err ''patterns cannot contain NUL''
      else (case parse_components (path_components pattern) [] [] False of
          Err e \<Rightarrow> Err e
        | Ok (initial, segments, saw_curdir) \<Rightarrow>
            Ok \<lparr>gp_initial = (if saw_curdir \<and> initial = [] \<and> segments = [] then path_push initial ''.'' else initial),
              gp_segments = segments, gp_empty = False\<rparr>))"

function match_segments :: "pattern_segment list \<Rightarrow> string list \<Rightarrow> bool" where
  "match_segments [] candidate = (candidate = [])"
| "match_segments (SegParent # rest) candidate =
     (get_opt candidate 0 = Some ''..'' \<and> match_segments rest (tl candidate))"
| "match_segments (SegRecursive # rest) candidate =
     (match_segments rest candidate
      \<or> (case candidate of
           [] \<Rightarrow> False
         | name # names \<Rightarrow> \<not> starts_with_dot name \<and> match_segments (SegRecursive # rest) names))"
| "match_segments (SegComponent p # rest) candidate =
     (case candidate of [] \<Rightarrow> False | name # names \<Rightarrow> component_matches p name \<and> match_segments rest names)"
  by pat_completeness auto
termination
  by (relation "measures [\<lambda>(ps, cs). length ps + length cs, \<lambda>(ps, cs). length ps]") auto

definition candidate_segment :: "path_component \<Rightarrow> string option" where
  "candidate_segment c =
     (case c of CompNormal v \<Rightarrow> Some v | CompParentDir \<Rightarrow> Some ''..'' | CompCurDir \<Rightarrow> None | CompRootDir \<Rightarrow> None)"

definition glob_matches :: "glob_pattern \<Rightarrow> string \<Rightarrow> bool" where
  "glob_matches p candidate =
     (if gp_empty p then candidate = []
      else if is_absolute (gp_initial p) \<noteq> is_absolute candidate then False
      else match_segments (gp_segments p) (List.map_filter candidate_segment (path_components candidate)))"

definition glob_pattern_matches :: "string \<Rightarrow> string \<Rightarrow> (bool, string) result" where
  "glob_pattern_matches pattern candidate =
     (case glob_parse pattern of Err e \<Rightarrow> Err e | Ok p \<Rightarrow> Ok (glob_matches p candidate))"

section \<open>What patterns mean\<close>

text \<open>
  The reference semantics: a literal, \<open>?\<close> and a class take one character, \<open>*\<close> takes any number of
  them, \<open>**\<close> takes any number of visible components, and \<open>..\<close> takes \<open>..\<close>.
\<close>

definition atom_ok :: "pattern_atom \<Rightarrow> native_char \<Rightarrow> bool" where
  "atom_ok a x =
     (case a of AtLiteral e \<Rightarrow> x = e | AtAnyOne \<Rightarrow> True | AtClass c \<Rightarrow> class_matches c x | AtAnyMany \<Rightarrow> False)"

fun atoms_mean :: "pattern_atom list \<Rightarrow> native_char list \<Rightarrow> bool" where
  "atoms_mean [] cs = (cs = [])"
| "atoms_mean (a # as) cs =
     (if a = AtAnyMany then \<exists>k \<le> length cs. atoms_mean as (drop k cs)
      else cs \<noteq> [] \<and> atom_ok a (hd cs) \<and> atoms_mean as (tl cs))"

fun segments_mean :: "pattern_segment list \<Rightarrow> string list \<Rightarrow> bool" where
  "segments_mean [] names = (names = [])"
| "segments_mean (SegParent # ps) names = (names \<noteq> [] \<and> hd names = ''..'' \<and> segments_mean ps (tl names))"
| "segments_mean (SegRecursive # ps) names =
     (\<exists>k \<le> length names. list_all (\<lambda>n. \<not> starts_with_dot n) (take k names) \<and> segments_mean ps (drop k names))"
| "segments_mean (SegComponent p # ps) names =
     (names \<noteq> [] \<and> (starts_with_dot (hd names) \<longrightarrow> cp_explicit_hidden p)
      \<and> atoms_mean (cp_atoms p) (native_chars (hd names)) \<and> segments_mean ps (tl names))"

lemma atoms_mean_append:
  "atoms_mean (as @ bs) cs \<longleftrightarrow> (\<exists>k \<le> length cs. atoms_mean as (take k cs) \<and> atoms_mean bs (drop k cs))"
proof (induction as arbitrary: cs)
  case Nil
  show ?case by (auto intro: exI [of _ 0])
next
  case (Cons a as)
  show ?case
  proof (cases "a = AtAnyMany")
    case True
    have "(\<exists>j \<le> length cs. \<exists>k \<le> length cs - j. atoms_mean as (take k (drop j cs)) \<and> atoms_mean bs (drop k (drop j cs)))
      \<longleftrightarrow> (\<exists>m \<le> length cs. (\<exists>j \<le> m. atoms_mean as (drop j (take m cs))) \<and> atoms_mean bs (drop m cs))"
      (is "?l \<longleftrightarrow> ?r")
    proof
      assume ?l
      then obtain j k where "j \<le> length cs" "k \<le> length cs - j" "atoms_mean as (take k (drop j cs))"
        "atoms_mean bs (drop k (drop j cs))" by blast
      then show ?r by (intro exI [of _ "j + k"] conjI exI [of _ j]) (simp_all add: drop_take add.commute)
    next
      assume ?r
      then obtain m j where "m \<le> length cs" "j \<le> m" "atoms_mean as (drop j (take m cs))"
        "atoms_mean bs (drop m cs)" by blast
      then show ?l by (intro exI [of _ j] conjI exI [of _ "m - j"]) (simp_all add: drop_take)
    qed
    with True Cons.IH show ?thesis by (simp add: min_absorb2 cong: conj_cong)
  next
    case False
    show ?thesis
    proof (cases cs)
      case (Cons x xs)
      have "(\<exists>k \<le> length xs. atoms_mean as (take k xs) \<and> atoms_mean bs (drop k xs)) \<longleftrightarrow>
        (\<exists>k \<le> Suc (length xs). k \<noteq> 0 \<and> atoms_mean as (take (k - 1) xs) \<and> atoms_mean bs (drop (k - 1) xs))"
        (is "?l \<longleftrightarrow> ?r")
      proof
        assume ?l
        then obtain k where "k \<le> length xs" "atoms_mean as (take k xs)" "atoms_mean bs (drop k xs)" by blast
        then show ?r by (intro exI [of _ "Suc k"]) simp
      next
        assume ?r
        then obtain k where "k \<le> Suc (length xs)" "k \<noteq> 0" "atoms_mean as (take (k - 1) xs)"
          "atoms_mean bs (drop (k - 1) xs)" by blast
        then show ?l by (intro exI [of _ "k - 1"]) simp
      qed
      with False Cons Cons.IH show ?thesis by (auto simp: take_Cons' drop_Cons')
    qed (use False in simp)
  qed
qed

lemma shift_row_fold:
  assumes "m \<le> length cs" "length current = Suc (length cs)"
  shows "let row = foldl (\<lambda>next i. next[Suc i := next ! Suc i \<or> (current ! i \<and> ok (cs ! i))])
        (replicate (Suc (length cs)) False) [0..<m]
    in length row = Suc (length cs)
      \<and> (\<forall>j \<le> length cs. row ! j \<longleftrightarrow> 0 < j \<and> j \<le> m \<and> current ! (j - 1) \<and> ok (cs ! (j - 1)))"
  using assms(1)
proof (induction m)
  case (Suc m)
  then show ?case by (auto simp: Let_def nth_list_update le_Suc_eq)
qed (auto simp: Let_def simp del: replicate_Suc)

lemma shift_row:
  assumes "length current = Suc (length cs)"
  shows "length (shift_row ok cs current) = Suc (length cs)"
    "j \<le> length cs \<Longrightarrow> shift_row ok cs current ! j \<longleftrightarrow> 0 < j \<and> current ! (j - 1) \<and> ok (cs ! (j - 1))"
  using shift_row_fold [OF order_refl assms, of ok] unfolding shift_row_def Let_def by auto

lemma many_row_fold:
  assumes "m \<le> length cs" "length current = Suc (length cs)"
  shows "let row = foldl (\<lambda>next i. next[i := current ! i \<or> next ! (i - 1)])
        ((replicate (Suc (length cs)) False)[0 := current ! 0]) [1..<Suc m]
    in length row = Suc (length cs) \<and> (\<forall>j \<le> m. row ! j \<longleftrightarrow> (\<exists>i \<le> j. current ! i))"
  using assms(1)
proof (induction m)
  case (Suc m)
  then show ?case by (auto simp: Let_def nth_list_update le_Suc_eq)
qed (simp add: Let_def del: replicate_Suc)

lemma many_row:
  assumes "length current = Suc (length cs)"
  shows "length (many_row cs current) = Suc (length cs)"
    "j \<le> length cs \<Longrightarrow> many_row cs current ! j \<longleftrightarrow> (\<exists>i \<le> j. current ! i)"
  using many_row_fold [OF order_refl assms] unfolding many_row_def Let_def by auto

definition row_means :: "pattern_atom list \<Rightarrow> native_char list \<Rightarrow> bool list \<Rightarrow> bool" where
  "row_means as cs row \<longleftrightarrow> length row = Suc (length cs) \<and> (\<forall>j \<le> length cs. row ! j \<longleftrightarrow> atoms_mean as (take j cs))"

lemma atoms_mean_many: "atoms_mean (as @ [AtAnyMany]) cs \<longleftrightarrow> (\<exists>k \<le> length cs. atoms_mean as (take k cs))"
proof -
  have "\<exists>j \<le> length cs - k. length cs \<le> j + k" for k by (intro exI [of _ "length cs - k"]) simp
  then show ?thesis by (simp add: atoms_mean_append)
qed

lemma atoms_mean_one:
  assumes "a \<noteq> AtAnyMany"
  shows "atoms_mean (as @ [a]) cs \<longleftrightarrow> cs \<noteq> [] \<and> atoms_mean as (butlast cs) \<and> atom_ok a (last cs)"
proof (cases cs rule: rev_cases)
  case Nil
  then show ?thesis using assms by (simp add: atoms_mean_append)
next
  case (snoc xs x)
  have "atoms_mean [a] (drop k xs @ [x]) \<longleftrightarrow> k = length xs \<and> atom_ok a x" if "k \<le> length xs" for k
    using that assms by (cases "drop k xs") auto
  moreover have "\<not> atoms_mean [a] (drop k (xs @ [x]))" if "k = Suc (length xs)" for k
    using that assms by simp
  moreover have "atoms_mean [a] [x] \<longleftrightarrow> atom_ok a x" using assms by simp
  ultimately show ?thesis unfolding snoc atoms_mean_append
    by (auto simp: le_Suc_eq simp del: atoms_mean.simps intro!: exI [of _ "length xs"])
qed

lemma atom_row_means:
  assumes "row_means as cs row"
  shows "row_means (as @ [a]) cs (atom_row cs row a)"
proof -
  have l: "length row = Suc (length cs)" and r: "\<And>j. j \<le> length cs \<Longrightarrow> row ! j \<longleftrightarrow> atoms_mean as (take j cs)"
    using assms by (auto simp: row_means_def)
  show ?thesis
  proof (cases "a = AtAnyMany")
    case True
    have "(\<exists>i \<le> j. row ! i) \<longleftrightarrow> (\<exists>k \<le> j. atoms_mean as (take k cs))" if "j \<le> length cs" for j
      using r that by (metis le_trans)
    with True many_row [OF l] show ?thesis by (auto simp: row_means_def atom_row_def atoms_mean_many min_def)
  next
    case False
    have e: "atom_row cs row a = shift_row (atom_ok a) cs row"
      using False by (cases a) (simp_all add: atom_row_def atom_ok_def [abs_def])
    have "atoms_mean (as @ [a]) (take j cs) \<longleftrightarrow> 0 < j \<and> row ! (j - 1) \<and> atom_ok a (cs ! (j - 1))"
      if "j \<le> length cs" for j
      using that r [of "j - 1"]
      by (cases j) (auto simp: atoms_mean_one [OF False] take_Suc_conv_app_nth)
    with shift_row [OF l, where ok = "atom_ok a"] show ?thesis unfolding e by (simp add: row_means_def)
  qed
qed

lemma foldl_row_means:
  "row_means as cs row \<Longrightarrow> row_means (as @ bs) cs (foldl (atom_row cs) row bs)"
proof (induction bs arbitrary: as row)
  case (Cons b bs)
  from Cons.IH [OF atom_row_means [OF Cons.prems, of b]] show ?case by simp
qed simp

lemma component_matches_means:
  "component_matches p name \<longleftrightarrow>
     (starts_with_dot name \<longrightarrow> cp_explicit_hidden p) \<and> atoms_mean (cp_atoms p) (native_chars name)"
proof -
  let ?cs = "native_chars name"
  have "row_means [] ?cs ((replicate (Suc (length ?cs)) False)[0 := True])"
    by (auto simp: row_means_def nth_list_update nth_Cons' simp del: replicate_Suc)
  from foldl_row_means [OF this, of "cp_atoms p"] show ?thesis
    by (auto simp: component_matches_def Let_def row_means_def)
qed

lemma match_segments_means: "match_segments ps names \<longleftrightarrow> segments_mean ps names"
proof (induction ps names rule: match_segments.induct)
  case (2 rest names)
  then show ?case by (cases names) simp_all
next
  case (3 rest names)
  show ?case
  proof (cases names)
    case Nil
    with 3 show ?thesis by simp
  next
    case (Cons n ns)
    have "segments_mean (SegRecursive # rest) (n # ns) \<longleftrightarrow>
        segments_mean rest (n # ns) \<or> \<not> starts_with_dot n \<and> segments_mean (SegRecursive # rest) ns" (is "?l \<longleftrightarrow> ?r")
    proof
      assume ?l
      then obtain k where "k \<le> Suc (length ns)" "list_all (\<lambda>n. \<not> starts_with_dot n) (take k (n # ns))"
        "segments_mean rest (drop k (n # ns))" by auto
      then show ?r by (cases k) auto
    next
      assume ?r
      then show ?l
      proof
        assume "segments_mean rest (n # ns)"
        then show ?l by (auto intro: exI [of _ 0])
      next
        assume "\<not> starts_with_dot n \<and> segments_mean (SegRecursive # rest) ns"
        then obtain k where "\<not> starts_with_dot n" "k \<le> length ns" "list_all (\<lambda>n. \<not> starts_with_dot n) (take k ns)"
          "segments_mean rest (drop k ns)" by auto
        then show ?l by (auto intro!: exI [of _ "Suc k"])
      qed
    qed
    with 3 Cons show ?thesis by simp
  qed
next
  case (4 p rest names)
  then show ?case by (cases names) (simp_all add: component_matches_means)
qed simp

text \<open>A name without pattern symbols denotes itself.\<close>

definition plain_char :: "native_char \<Rightarrow> bool" where
  "plain_char c \<longleftrightarrow> c \<notin> {uni CHR 0x5C, uni CHR ''*'', uni CHR ''?'', uni CHR ''[''}"

lemma parse_atoms_plain: "list_all plain_char cs \<Longrightarrow> parse_atoms cs acc = Ok (acc @ map AtLiteral cs)"
  by (induction cs arbitrary: acc) (auto simp: plain_char_def)

lemma atoms_mean_literals: "atoms_mean (map AtLiteral cs) ds \<longleftrightarrow> ds = cs"
proof (induction cs arbitrary: ds)
  case (Cons c cs)
  then show ?case by (cases ds) (auto simp: atom_ok_def)
qed auto

text \<open>The bytes a decoded name came from.\<close>

definition native_bytes :: "native_char list \<Rightarrow> string" where
  "native_bytes cs = concat (map (\<lambda>c. case c of NUnicode cp \<Rightarrow> encode_utf8 cp | NInvalid b \<Rightarrow> [char_of b]) cs)"

lemma native_bytes_append: "native_bytes (a @ b) = native_bytes a @ native_bytes b"
  by (simp add: native_bytes_def)

lemma native_bytes_unicode: "valid_utf8 s \<Longrightarrow> native_bytes (map NUnicode (chars s)) = s"
proof (induction rule: valid_utf8_induct)
  case (Scalar s cp w)
  have v: "valid_utf8 s" using Scalar.hyps by (simp add: valid_utf8_step)
  have "encode_utf8 cp = take w s" using str_next_decode [OF Scalar.hyps(1)] by simp
  with Scalar v chars_step [OF Scalar.hyps(1) v] show ?case by (simp add: native_bytes_def)
qed (simp add: native_bytes_def)

lemma native_bytes_chars: "native_bytes (native_chars bs) = bs"
proof (induction bs rule: native_chars.induct)
  case (1 bs)
  show ?case
  proof (cases "utf8_chars bs")
    case (Inr cs)
    then have "valid_utf8 bs" "chars bs = cs" by (simp_all add: utf8_chars_Ok)
    with Inr native_bytes_unicode [of bs] show ?thesis by (subst native_chars.simps) (auto simp: native_bytes_def)
  next
    case (Inl er)
    obtain n e where er: "er = (n, e)" by (cases er)
    from utf8_chars_Err [of bs n e] Inl er have n: "valid_utf8 (take n bs)" "bs \<noteq> []" by auto
    let ?r = "drop n bs"
    let ?k = "min (case e of Some m \<Rightarrow> m | None \<Rightarrow> 1) (length ?r)"
    have "native_bytes (native_chars (drop ?k ?r)) = drop ?k ?r"
      using 1 [OF n(2) Inl [unfolded er] refl refl refl] .
    moreover have "native_bytes (map (\<lambda>b. NInvalid (u8 b)) (take ?k ?r)) = take ?k ?r"
      by (simp add: native_bytes_def comp_def)
    moreover have "take n bs @ take ?k ?r @ drop ?k ?r = bs" by (simp only: append_take_drop_id)
    ultimately show ?thesis using n Inl er
      by (subst native_chars.simps) (simp add: Let_def native_bytes_append native_bytes_unicode del: drop_drop)
  qed
qed

lemma native_chars_inj: "native_chars a = native_chars b \<longleftrightarrow> a = b"
  by (metis native_bytes_chars)

subsection \<open>Properties\<close>

text \<open>
  C9: The table-driven matcher of a component is the meaning of its symbols: it accepts a name exactly
  when the name is visible or the pattern starts with a literal dot, and the atoms, read one after
  the other, take all of its characters.
\<close>

theorem component_matches_exact:
  "component_matches p name \<longleftrightarrow>
     (starts_with_dot name \<longrightarrow> cp_explicit_hidden p) \<and> atoms_mean (cp_atoms p) (native_chars name)"
  by (rule component_matches_means)

text \<open>
  A pattern matches a path exactly when it is absolute like the path and its segments take all the
  components of the path: \<open>**\<close> any number of visible ones, each other segment one.
\<close>

theorem glob_matches_exact:
  assumes "glob_parse pattern = Ok p" "pattern \<noteq> []"
  shows "glob_pattern_matches pattern candidate =
    Ok (is_absolute (gp_initial p) = is_absolute candidate
      \<and> segments_mean (gp_segments p) (List.map_filter candidate_segment (path_components candidate)))"
proof -
  have "\<not> gp_empty p"
    using assms by (auto simp: glob_parse_def split: if_splits sum.splits prod.splits)
  then show ?thesis by (simp add: glob_pattern_matches_def glob_matches_def assms(1) match_segments_means)
qed

text \<open>
  A name without pattern symbols is a pattern for itself and nothing else, whatever bytes it has:
  decoding a native name loses nothing.
\<close>

theorem plain_pattern_exact:
  assumes "list_all plain_char (native_chars name)"
  shows "\<exists>p. component_parse (native_chars name) = Ok p \<and> (\<forall>other. component_matches p other \<longleftrightarrow> other = name)"
proof -
  let ?p = "\<lparr>cp_atoms = map AtLiteral (native_chars name),
    cp_explicit_hidden = (native_chars name \<noteq> [] \<and> hd (native_chars name) = uni CHR ''.'')\<rparr>"
  have e: "component_parse (native_chars name) = Ok ?p"
    using parse_atoms_plain [OF assms, of "[]"] by (cases "native_chars name") (auto simp: component_parse_def)
  have "starts_with_dot name \<longrightarrow> cp_explicit_hidden ?p"
    by (cases "native_chars name") (auto simp: starts_with_dot_def)
  then have "component_matches ?p other \<longleftrightarrow> other = name" for other
    by (auto simp: component_matches_means atoms_mean_literals native_chars_inj)
  with e show ?thesis by blast
qed

text \<open>
  \<open>glob\<close> never yields the entries \<open>.\<close> and \<open>..\<close>, but the matcher without traversal accepts \<open>..\<close> for a
  pattern that starts with a literal dot.
\<close>

lemma hidden_pattern_accepts_parent: "glob_pattern_matches ''.*'' ''..'' = Ok True"
  by code_simp

subsection \<open>Witnesses\<close>

theorem component_matches_exact_witness:
  "component_matches \<lparr>cp_atoms = [AtAnyOne, AtLiteral (uni CHR ''b'')], cp_explicit_hidden = False\<rparr> ''ab''
    \<and> \<not> component_matches \<lparr>cp_atoms = [AtAnyOne, AtLiteral (uni CHR ''b'')], cp_explicit_hidden = False\<rparr> ''.b''"
proof -
  have "native_chars ''ab'' = [uni CHR ''a'', uni CHR ''b'']" "native_chars ''.b'' = [uni CHR ''.'', uni CHR ''b'']"
    by code_simp+
  then show ?thesis by (simp add: component_matches_exact starts_with_dot_def get_opt_def atom_ok_def)
qed

theorem glob_matches_exact_witness:
  "let p = \<lparr>gp_initial = [], gp_segments = [SegRecursive, SegComponent \<lparr>cp_atoms = [AtAnyMany], cp_explicit_hidden = False\<rparr>],
      gp_empty = False\<rparr> in
   glob_pattern_matches ''**/*'' ''a/b'' =
    Ok (is_absolute (gp_initial p) = is_absolute ''a/b''
      \<and> segments_mean (gp_segments p) (List.map_filter candidate_segment (path_components ''a/b'')))"
  unfolding Let_def by (rule glob_matches_exact) (code_simp, simp)

theorem plain_pattern_exact_witness:
  "\<exists>p. component_parse (native_chars ''a.rs'') = Ok p \<and> (\<forall>other. component_matches p other \<longleftrightarrow> other = ''a.rs'')"
  by (rule plain_pattern_exact) code_simp

end
