(* ===== verification/Keys.thy ===== *)
theory Keys
  imports Prelude
begin

section \<open>Decoding terminal input\<close>

text \<open>
  The model of \<^verbatim>\<open>crates/opaal-cli/src/terminal_editor/key.rs\<close>: the byte-at-a-time decoder with the state
  it holds between bytes. \<open>None\<close> is the panic of the counter's subtraction. The lemmas show that no
  input makes it panic or grow without bound, that text comes back character by character, and that
  an escape byte brings it to the same state from any other.
\<close>

definition MAX_PARAMETER_BYTES :: nat where
  "MAX_PARAMETER_BYTES = 16"

datatype key =
    KChar nat
  | KBackspace | KDelete | KLeft | KRight | KUp | KDown | KHome | KEnd | KKillToEnd | KKillToStart
  | KKillWordBack | KComplete | KCancel | KEndOfFileOrDelete | KEnter

datatype decoder_state = StGround | StEscape | StControlSequence | StUtf8

record key_decoder =
  kd_state :: decoder_state
  kd_pending :: string
  kd_remaining :: nat

definition decoder_new :: key_decoder where
  "decoder_new = \<lparr>kd_state = StGround, kd_pending = [], kd_remaining = 0\<rparr>"

definition decoder_reset :: "key_decoder \<Rightarrow> key_decoder" where
  "decoder_reset d = d\<lparr>kd_state := StGround, kd_pending := [], kd_remaining := 0\<rparr>"

definition begin_utf8 :: "byte \<Rightarrow> key_decoder \<Rightarrow> key option \<times> key_decoder" where
  "begin_utf8 b d =
     (let width = (if 0xC2 \<le> u8 b \<and> u8 b \<le> 0xDF then Some 2
            else if 0xE0 \<le> u8 b \<and> u8 b \<le> 0xEF then Some 3
            else if 0xF0 \<le> u8 b \<and> u8 b \<le> 0xF4 then Some 4
            else None)
      in case width of
           None \<Rightarrow> (None, d)
         | Some w \<Rightarrow> (None, d\<lparr>kd_pending := [b], kd_remaining := w - 1, kd_state := StUtf8\<rparr>))"

definition push_ground :: "byte \<Rightarrow> key_decoder \<Rightarrow> key option \<times> key_decoder" where
  "push_ground b d =
     (if u8 b = 0x1B then (None, d\<lparr>kd_state := StEscape\<rparr>)
      else if u8 b = 0x01 then (Some KHome, d)
      else if u8 b = 0x03 then (Some KCancel, d)
      else if u8 b = 0x04 then (Some KEndOfFileOrDelete, d)
      else if u8 b = 0x05 then (Some KEnd, d)
      else if u8 b = 0x08 \<or> u8 b = 0x7F then (Some KBackspace, d)
      else if u8 b = 0x09 then (Some KComplete, d)
      else if u8 b = 0x0A \<or> u8 b = 0x0D then (Some KEnter, d)
      else if u8 b = 0x0B then (Some KKillToEnd, d)
      else if u8 b = 0x15 then (Some KKillToStart, d)
      else if u8 b = 0x17 then (Some KKillWordBack, d)
      else if u8 b \<le> 0x1F then (None, d)
      else if u8 b \<le> 0x7F then (Some (KChar (u8 b)), d)
      else begin_utf8 b d)"

definition push_utf8 :: "byte \<Rightarrow> key_decoder \<Rightarrow> (key option \<times> key_decoder) option" where
  "push_utf8 b d =
     (if \<not> (0x80 \<le> u8 b \<and> u8 b \<le> 0xBF) then Some (push_ground b (decoder_reset d))
      else let d1 = d\<lparr>kd_pending := kd_pending d @ [b]\<rparr>
        in if kd_remaining d1 = 0 then None
           else let d2 = d1\<lparr>kd_remaining := kd_remaining d1 - 1\<rparr>
             in if 0 < kd_remaining d2 then Some (None, d2)
                else let decoded = (case utf8_chars (kd_pending d2) of Ok (cp # _) \<Rightarrow> Some cp | _ \<Rightarrow> None)
                  in Some (map_option KChar decoded, decoder_reset d2))"

definition push_escape :: "byte \<Rightarrow> key_decoder \<Rightarrow> key option \<times> key_decoder" where
  "push_escape b d =
     (if b = CHR ''['' \<or> b = CHR ''O'' then (None, d\<lparr>kd_pending := [], kd_state := StControlSequence\<rparr>)
      else if u8 b = 0x1B then (None, d)
      else push_ground b (decoder_reset d))"

definition control_key :: "byte \<Rightarrow> string \<Rightarrow> key option" where
  "control_key b parameters =
     (if b = CHR ''A'' then Some KUp
      else if b = CHR ''B'' then Some KDown
      else if b = CHR ''C'' then Some KRight
      else if b = CHR ''D'' then Some KLeft
      else if b = CHR ''H'' then Some KHome
      else if b = CHR ''F'' then Some KEnd
      else if b = CHR ''~'' \<and> (parameters = ''1'' \<or> parameters = ''7'') then Some KHome
      else if b = CHR ''~'' \<and> (parameters = ''4'' \<or> parameters = ''8'') then Some KEnd
      else if b = CHR ''~'' \<and> parameters = ''3'' then Some KDelete
      else None)"

definition push_control_sequence :: "byte \<Rightarrow> key_decoder \<Rightarrow> key option \<times> key_decoder" where
  "push_control_sequence b d =
     (if u8 b = 0x1B then (None, d\<lparr>kd_pending := [], kd_state := StEscape\<rparr>)
      else if 48 \<le> u8 b \<and> u8 b \<le> 57 \<or> b = CHR '';'' then
        if MAX_PARAMETER_BYTES \<le> length (kd_pending d) then (None, decoder_reset d)
        else (None, d\<lparr>kd_pending := kd_pending d @ [b]\<rparr>)
      else (control_key b (kd_pending d), decoder_reset d))"

definition decoder_push :: "byte \<Rightarrow> key_decoder \<Rightarrow> (key option \<times> key_decoder) option" where
  "decoder_push b d =
     (case kd_state d of
        StGround \<Rightarrow> Some (push_ground b d)
      | StEscape \<Rightarrow> Some (push_escape b d)
      | StControlSequence \<Rightarrow> Some (push_control_sequence b d)
      | StUtf8 \<Rightarrow> push_utf8 b d)"

fun feed :: "string \<Rightarrow> key_decoder \<Rightarrow> (key list \<times> key_decoder) option" where
  "feed [] d = Some ([], d)"
| "feed (b # bs) d =
     (case decoder_push b d of
        None \<Rightarrow> None
      | Some (k, d') \<Rightarrow>
          map_option (\<lambda>(ks, d''). ((case k of None \<Rightarrow> ks | Some x \<Rightarrow> x # ks), d'')) (feed bs d'))"

section \<open>Correctness\<close>

definition decoder_ok :: "key_decoder \<Rightarrow> bool" where
  "decoder_ok d \<longleftrightarrow>
     (case kd_state d of
        StGround \<Rightarrow> kd_pending d = [] \<and> kd_remaining d = 0
      | StEscape \<Rightarrow> kd_pending d = [] \<and> kd_remaining d = 0
      | StControlSequence \<Rightarrow> length (kd_pending d) \<le> MAX_PARAMETER_BYTES \<and> kd_remaining d = 0
      | StUtf8 \<Rightarrow> 0 < kd_remaining d \<and> kd_pending d \<noteq> [] \<and> length (kd_pending d) + kd_remaining d \<le> 4)"

lemma reset_new [simp]: "decoder_reset d = decoder_new"
  by (cases d) (simp add: decoder_reset_def decoder_new_def)

lemma decoder_new_ok: "decoder_ok decoder_new"
  by (simp add: decoder_ok_def decoder_new_def)

lemma push_ground_ok: "decoder_ok d \<Longrightarrow> kd_state d = StGround \<Longrightarrow> decoder_ok (snd (push_ground b d))"
  by (simp add: push_ground_def begin_utf8_def decoder_ok_def Let_def)

lemma push_ok:
  assumes "decoder_ok d"
  shows "\<exists>k d'. decoder_push b d = Some (k, d') \<and> decoder_ok d'"
proof -
  have g: "\<exists>k d'. push_ground b decoder_new = (k, d') \<and> decoder_ok d'"
    using push_ground_ok [OF decoder_new_ok, of b]
    by (cases "push_ground b decoder_new") (simp add: decoder_new_def)
  show ?thesis
  proof (cases "kd_state d")
    case StGround
    with push_ground_ok [OF assms this, of b] show ?thesis
      by (cases "push_ground b d") (simp add: decoder_push_def)
  next
    case StEscape
    with assms g show ?thesis by (auto simp: decoder_push_def push_escape_def decoder_ok_def)
  next
    case StControlSequence
    with assms decoder_new_ok show ?thesis
      by (auto simp: decoder_push_def push_control_sequence_def decoder_ok_def)
  next
    case StUtf8
    with assms g decoder_new_ok show ?thesis
      by (auto simp: decoder_push_def push_utf8_def decoder_ok_def Let_def)
  qed
qed

definition decoder_exec :: "byte \<Rightarrow> key_decoder \<Rightarrow> key_decoder option" where
  "decoder_exec b d = map_option snd (decoder_push b d)"

interpretation decoder: machine decoder_exec decoder_ok
proof
  fix d b
  assume "decoder_ok d"
  from push_ok [OF this, of b] show "\<exists>d'. decoder_exec b d = Some d' \<and> decoder_ok d'"
    by (auto simp: decoder_exec_def)
qed

lemma decoder_feed_run: "map_option snd (feed bs d) = run_ops decoder_exec bs d"
proof (induction bs arbitrary: d)
  case (Cons b bs)
  then show ?case
    by (auto simp: decoder_exec_def option.map_comp comp_def split_def split: option.splits)
qed simp

lemma decoder_feed_append:
  "feed (a @ b) d = (case feed a d of None \<Rightarrow> None
     | Some (ks, d') \<Rightarrow> map_option (\<lambda>(ks', d''). (ks @ ks', d'')) (feed b d'))"
  by (induction a arbitrary: d)
    (auto split: option.splits prod.splits simp: option.map_comp comp_def split_def option.map_ident)

lemma feed_continuation:
  assumes "kd_state d = StUtf8" "kd_remaining d = length cs" "cs \<noteq> []" "list_all (\<lambda>b. is_cont (u8 b)) cs"
  shows "feed cs d =
    Some (case utf8_chars (kd_pending d @ cs) of Ok (cp # _) \<Rightarrow> [KChar cp] | _ \<Rightarrow> [], decoder_new)"
  using assms
proof (induction cs arbitrary: d)
  case (Cons c cs)
  then have c: "0x80 \<le> u8 c \<and> u8 c \<le> 0xBF" by (simp add: is_cont_def)
  show ?case
  proof (cases "cs = []")
    case True
    with Cons.prems c show ?thesis
      by (auto simp: decoder_push_def push_utf8_def Let_def split: sum.splits list.splits)
  next
    case False
    let ?d = "d\<lparr>kd_pending := kd_pending d @ [c], kd_remaining := length cs\<rparr>"
    have "decoder_push c d = Some (None, ?d)"
      using Cons.prems c False by (simp add: decoder_push_def push_utf8_def Let_def)
    with Cons.IH [of ?d] Cons.prems False show ?thesis by simp
  qed
qed simp

definition typed :: "nat \<Rightarrow> bool" where
  "typed cp \<longleftrightarrow> 0x20 \<le> cp \<and> cp \<noteq> 0x7F"

lemma feed_scalar:
  assumes n: "str_next s = Utf8_Scalar cp w" and t: "typed cp"
  shows "feed (take w s) decoder_new = Some ([KChar cp], decoder_new)"
proof -
  note d = str_next_ScalarD [OF n]
  obtain b r where s: "s = b # r" using d(1) by (cases s) auto
  have e: "take w s = encode_utf8 cp" "is_scalar cp" using str_next_decode [OF n] by auto
  have u: "utf8_chars (take w s) = Ok [cp]"
    using chars_Cons_encode [OF e(2), of "[]"] valid_utf8_encode [OF e(2)] e(1) by (simp add: utf8_chars_Ok)
  show ?thesis
  proof (cases "w = 1")
    case True
    with e(1) s have "[b] = encode_utf8 cp" by simp
    then have "u8 b = cp" "u8 b < 0x80"
      using str_next_decode(2) [OF n] True by (auto simp: encode_utf8_def encode_bytes_def len_utf8_def of_char_char_of_nat
          split: if_splits)
    with True s t show ?thesis
      by (simp add: decoder_push_def push_ground_def typed_def decoder_new_def)
  next
    case False
    then have w: "2 \<le> w" "w \<le> 4" "w = utf8_char_width (u8 b)" using d s by auto
    let ?d = "decoder_new\<lparr>kd_pending := [b], kd_remaining := w - 1, kd_state := StUtf8\<rparr>"
    have p: "decoder_push b decoder_new = Some (None, ?d)"
      using w by (auto simp: decoder_push_def push_ground_def begin_utf8_def utf8_char_width_def decoder_new_def Let_def
          split: if_splits)
    have tk: "take w s = b # take (w - 1) r" using w(1) s by (simp add: take_Cons')
    have c: "take (w - 1) r \<noteq> []" "length (take (w - 1) r) = w - 1" using d(4) w s by auto
    have "is_cont (u8 (r ! i))" if "i < w - 1" for i using d(7) [of "Suc i"] that s by simp
    then have "list_all (\<lambda>b. is_cont (u8 b)) (take (w - 1) r)"
      using c(2) by (auto simp: list_all_length)
    from feed_continuation [of ?d, OF _ _ c(1) this] c(2) u tk p show ?thesis by simp
  qed
qed

lemma decoder_feed_text:
  assumes "valid_utf8 s" "list_all typed (chars s)"
  shows "feed s decoder_new = Some (map KChar (chars s), decoder_new)"
  using assms
proof (induction rule: valid_utf8_induct)
  case (Scalar s cp w)
  have v: "valid_utf8 s" using Scalar.hyps by (simp add: valid_utf8_step)
  note c = chars_step [OF Scalar.hyps(1) v]
  with Scalar.prems have "typed cp" "list_all typed (chars (drop w s))" by simp_all
  with feed_scalar [OF Scalar.hyps(1)] Scalar.IH c decoder_feed_append [of "take w s" "drop w s" decoder_new]
  show ?case by simp
qed simp

abbreviation ESC :: byte where
  "ESC \<equiv> CHR 0x1B"

lemma escape_resyncs:
  assumes "decoder_ok d"
  shows "decoder_push ESC d = Some (None, \<lparr>kd_state = StEscape, kd_pending = [], kd_remaining = 0\<rparr>)"
proof (cases "kd_state d")
  case StUtf8
  then show ?thesis by (simp add: decoder_push_def push_utf8_def push_ground_def decoder_new_def)
next
  case StGround
  with assms show ?thesis by (cases d) (simp add: decoder_push_def push_ground_def decoder_ok_def)
next
  case StEscape
  with assms show ?thesis by (cases d) (simp add: decoder_push_def push_escape_def decoder_ok_def)
next
  case StControlSequence
  with assms show ?thesis by (cases d) (simp add: decoder_push_def push_control_sequence_def decoder_ok_def)
qed

subsection \<open>Properties\<close>

text \<open>
  No input breaks the decoder. Whatever bytes arrive, decoding never panics, and what it holds
  between two bytes is never more than sixteen parameter bytes or three bytes of a character.
\<close>

theorem decoder_bounded:
  "\<exists>ks d. feed bs decoder_new = Some (ks, d) \<and> decoder_ok d \<and> length (kd_pending d) \<le> MAX_PARAMETER_BYTES
    \<and> length ks \<le> length bs"
proof -
  obtain d where r: "run_ops decoder_exec bs decoder_new = Some d" and ok: "decoder_ok d"
    using decoder.run_inv [OF decoder_new_ok, of bs] by blast
  have "length ks \<le> length bs" if "feed bs e = Some (ks, d')" for ks e d'
    using that by (induction bs arbitrary: ks e) (fastforce split: option.splits)+
  moreover have "length (kd_pending d) \<le> MAX_PARAMETER_BYTES"
    using ok by (auto simp: decoder_ok_def MAX_PARAMETER_BYTES_def split: decoder_state.splits)
  ultimately show ?thesis using decoder_feed_run [of bs decoder_new] r ok by auto
qed

text \<open>
  C33: Typed text comes back. The bytes of any text without control characters, split over reads in any
  way, decode to its characters in order, one key each, and leave the decoder as new.
\<close>

theorem decoder_text_roundtrip:
  assumes "valid_utf8 s" "list_all typed (chars s)"
  shows "feed s decoder_new = Some (map KChar (chars s), decoder_new)"
  by (rule decoder_feed_text [OF assms])

text \<open>
  The decoder recovers from noise. After any bytes at all, a cursor or editing sequence that starts
  with an escape is decoded like on a fresh decoder, and adds exactly its key.
\<close>

theorem decoder_recovers:
  assumes "feed noise decoder_new = Some (ks, d)" "feed s decoder_new = Some (ks', d')" "s = ESC # rest"
  shows "feed (noise @ s) decoder_new = Some (ks @ ks', d')"
proof -
  from decoder_feed_run [of noise decoder_new] assms(1) have "run_ops decoder_exec noise decoder_new = Some d" by simp
  with decoder.run_inv [OF decoder_new_ok, of noise] have "decoder_ok d" by simp
  from escape_resyncs [OF this] escape_resyncs [OF decoder_new_ok] have "feed s d = feed s decoder_new"
    by (simp add: assms(3))
  with assms(1,2) show ?thesis by (simp add: decoder_feed_append)
qed

subsection \<open>Witnesses\<close>

lemma demo_text: "valid_utf8 (encode_utf8 0x20AC @ ''ok'') \<and> chars (encode_utf8 0x20AC @ ''ok'') = [0x20AC, 111, 107]"
proof -
  have "is_scalar 0x20AC" by (simp add: is_scalar_def)
  moreover have "valid_utf8 ''ok'' \<and> chars ''ok'' = [111, 107]" using valid_utf8_ascii [of "''ok''"] by simp
  ultimately show ?thesis by (simp add: chars_Cons_encode valid_utf8_encode valid_utf8_append)
qed

theorem decoder_text_roundtrip_witness:
  "feed (encode_utf8 0x20AC @ ''ok'') decoder_new = Some (map KChar [0x20AC, 111, 107], decoder_new)"
  using decoder_text_roundtrip [of "encode_utf8 0x20AC @ ''ok''"] demo_text by (simp add: typed_def)

theorem decoder_recovers_witness:
  "feed ([CHR 0xE2] @ [ESC, CHR ''['', CHR ''A'']) decoder_new = Some ([] @ [KUp], decoder_new)"
proof (rule decoder_recovers [OF _ _ refl])
  show "feed [CHR 0xE2] decoder_new = Some ([], \<lparr>kd_state = StUtf8, kd_pending = [CHR 0xE2], kd_remaining = 2\<rparr>)"
    by (simp add: decoder_push_def push_ground_def begin_utf8_def decoder_new_def Let_def)
  show "feed [ESC, CHR ''['', CHR ''A''] decoder_new = Some ([KUp], decoder_new)"
    by (simp add: decoder_push_def push_ground_def push_escape_def push_control_sequence_def control_key_def
        decoder_new_def)
qed

end
