(* ===== verification/History.thy ===== *)
theory History
  imports Prelude
begin

section \<open>Recall of submissions\<close>

text \<open>
  The model of \<^verbatim>\<open>crates/opaal-cli/src/terminal_editor/history.rs\<close>: the ring of retained submissions, the
  position of a recall and the draft parked when it starts. The lemmas show what the ring retains
  and that a walk back and forth returns every entry and at last the draft.
\<close>

record history_ring =
  hr_entries :: "string list"
  hr_capacity :: nat
  hr_position :: nat
  hr_draft :: string

definition history_new :: "nat \<Rightarrow> history_ring" where
  "history_new capacity =
     \<lparr>hr_entries = [], hr_capacity = max capacity 1, hr_position = 0, hr_draft = []\<rparr>"

definition history_record :: "string \<Rightarrow> history_ring \<Rightarrow> history_ring" where
  "history_record entry h =
     (let h1 = h\<lparr>hr_position := 0, hr_draft := []\<rparr>
      in if entry = [] then h1
         else if hr_entries h1 \<noteq> [] \<and> last (hr_entries h1) = entry then h1
         else let kept = (if length (hr_entries h1) = hr_capacity h1 then tl (hr_entries h1) else hr_entries h1)
           in h1\<lparr>hr_entries := kept @ [entry]\<rparr>)"

definition entry_at_position :: "history_ring \<Rightarrow> string option" where
  "entry_at_position h =
     (if hr_position h \<le> length (hr_entries h)
      then get_opt (hr_entries h) (length (hr_entries h) - hr_position h) else None)"

definition recall_previous :: "string \<Rightarrow> history_ring \<Rightarrow> string option \<times> history_ring" where
  "recall_previous draft h =
     (if length (hr_entries h) \<le> hr_position h then (None, h)
      else let h1 = (if hr_position h = 0 then h\<lparr>hr_draft := draft\<rparr> else h);
               h2 = h1\<lparr>hr_position := hr_position h1 + 1\<rparr>
        in (entry_at_position h2, h2))"

definition recall_next :: "history_ring \<Rightarrow> string option \<times> history_ring" where
  "recall_next h =
     (if hr_position h = 0 then (None, h)
      else let h1 = h\<lparr>hr_position := hr_position h - 1\<rparr>
        in if hr_position h1 = 0 then (Some (hr_draft h1), h1\<lparr>hr_draft := []\<rparr>)
           else (entry_at_position h1, h1))"

definition reset_position :: "history_ring \<Rightarrow> history_ring" where
  "reset_position h = h\<lparr>hr_position := 0, hr_draft := []\<rparr>"

definition history_len :: "history_ring \<Rightarrow> nat" where
  "history_len h = length (hr_entries h)"

definition history_is_empty :: "history_ring \<Rightarrow> bool" where
  "history_is_empty h \<longleftrightarrow> hr_entries h = []"

definition newest_entries :: "history_ring \<Rightarrow> string list" where
  "newest_entries h = rev (hr_entries h)"

definition history_load :: "string list \<Rightarrow> history_ring \<Rightarrow> history_ring" where
  "history_load entries h = reset_position (fold history_record entries (h\<lparr>hr_entries := []\<rparr>))"

section \<open>Correctness\<close>

datatype history_op =
    HRecord string
  | HPrevious string
  | HNext
  | HReset
  | HLoad "string list"

definition history_exec :: "history_op \<Rightarrow> history_ring \<Rightarrow> history_ring option" where
  "history_exec a h =
     Some (case a of
        HRecord e \<Rightarrow> history_record e h
      | HPrevious d \<Rightarrow> snd (recall_previous d h)
      | HNext \<Rightarrow> snd (recall_next h)
      | HReset \<Rightarrow> reset_position h
      | HLoad es \<Rightarrow> history_load es h)"

definition history_ok :: "history_ring \<Rightarrow> bool" where
  "history_ok h \<longleftrightarrow> 0 < hr_capacity h \<and> length (hr_entries h) \<le> hr_capacity h \<and> [] \<notin> set (hr_entries h)
     \<and> successively (\<noteq>) (hr_entries h) \<and> hr_position h \<le> length (hr_entries h)
     \<and> (hr_position h = 0 \<longrightarrow> hr_draft h = [])"

lemma history_new_ok: "history_ok (history_new c)"
  by (simp add: history_ok_def history_new_def)

lemma successively_tl: "successively P xs \<Longrightarrow> successively P (tl xs)"
  by (cases xs) (auto simp: successively_Cons)

lemma record_ok:
  assumes "history_ok h"
  shows "history_ok (history_record e h)"
proof -
  have "successively (\<noteq>) (tl (hr_entries h) @ [e])" if "hr_entries h = [] \<or> last (hr_entries h) \<noteq> e"
  proof (cases "tl (hr_entries h) = []")
    case False
    then have "last (tl (hr_entries h)) = last (hr_entries h)" by (simp add: last_tl)
    with False that assms show ?thesis
      by (auto simp: successively_append_iff history_ok_def successively_tl)
  qed simp
  moreover have "successively (\<noteq>) (hr_entries h @ [e])" if "hr_entries h = [] \<or> last (hr_entries h) \<noteq> e"
    using that assms by (auto simp: successively_append_iff history_ok_def)
  moreover have "[] \<notin> set (tl (hr_entries h))" using assms by (cases "hr_entries h") (auto simp: history_ok_def)
  ultimately show ?thesis using assms by (auto simp: history_record_def Let_def history_ok_def)
qed

lemma record_resets: "hr_position (history_record e h) = 0 \<and> hr_draft (history_record e h) = []
    \<and> hr_capacity (history_record e h) = hr_capacity h"
  by (simp add: history_record_def Let_def)

lemma fold_record_ok: "history_ok h \<Longrightarrow> history_ok (fold history_record es h)"
  by (induction es arbitrary: h) (auto simp: record_ok)

lemma reset_ok: "history_ok h \<Longrightarrow> history_ok (reset_position h)"
  by (simp add: history_ok_def reset_position_def)

text \<open>The ring is cleared before a load with the position and the draft of before, which the first
  record or the final reset sets back.\<close>

lemma fold_record_clear:
  assumes "0 < hr_capacity h"
  shows "history_ok (reset_position (fold history_record es (h\<lparr>hr_entries := []\<rparr>)))"
proof (cases es)
  case Nil
  then show ?thesis using assms by (simp add: history_ok_def reset_position_def)
next
  case (Cons e es')
  have "history_record e (h\<lparr>hr_entries := []\<rparr>) = history_record e (reset_position (h\<lparr>hr_entries := []\<rparr>))"
    by (simp add: history_record_def reset_position_def Let_def)
  moreover have "history_ok (reset_position (h\<lparr>hr_entries := []\<rparr>))"
    using assms by (simp add: history_ok_def reset_position_def)
  ultimately show ?thesis unfolding Cons by (simp add: reset_ok fold_record_ok record_ok)
qed

lemma previous_ok: "history_ok h \<Longrightarrow> history_ok (snd (recall_previous d h))"
  by (simp add: recall_previous_def Let_def history_ok_def Suc_le_eq)

lemma next_ok: "history_ok h \<Longrightarrow> history_ok (snd (recall_next h))"
  by (auto simp: recall_next_def Let_def history_ok_def)

interpretation history: machine history_exec history_ok
proof
  fix h a
  assume ok: "history_ok h"
  show "\<exists>h'. history_exec a h = Some h' \<and> history_ok h'"
  proof (cases a)
    case (HLoad es)
    have "history_ok (history_load es h)"
      unfolding history_load_def using ok by (intro fold_record_clear) (simp add: history_ok_def)
    with HLoad show ?thesis by (simp add: history_exec_def)
  qed (use ok in \<open>simp_all add: history_exec_def record_ok reset_ok previous_ok next_ok\<close>)
qed

lemma entry_at: "0 < p \<Longrightarrow> p \<le> length es \<Longrightarrow> hr_entries h = es \<Longrightarrow> hr_position h = p \<Longrightarrow>
    entry_at_position h = Some (es ! (length es - p))"
  by (simp add: entry_at_position_def)

fun walk_back :: "nat \<Rightarrow> string \<Rightarrow> history_ring \<Rightarrow> string option list \<times> history_ring" where
  "walk_back 0 d h = ([], h)"
| "walk_back (Suc n) d h =
     (case recall_previous d h of (r, h1) \<Rightarrow> case walk_back n d h1 of (rs, h2) \<Rightarrow> (r # rs, h2))"

fun walk_forth :: "nat \<Rightarrow> history_ring \<Rightarrow> string option list \<times> history_ring" where
  "walk_forth 0 h = ([], h)"
| "walk_forth (Suc n) h =
     (case recall_next h of (r, h1) \<Rightarrow> case walk_forth n h1 of (rs, h2) \<Rightarrow> (r # rs, h2))"

lemma walk_back_eq:
  assumes "0 < hr_position h" "hr_position h + n \<le> length (hr_entries h)"
  shows "walk_back n d h =
    (map (\<lambda>i. Some (hr_entries h ! (length (hr_entries h) - (hr_position h + Suc i)))) [0..<n],
     h\<lparr>hr_position := hr_position h + n\<rparr>)"
  using assms
proof (induction n arbitrary: h)
  case (Suc n)
  let ?h = "h\<lparr>hr_position := hr_position h + 1\<rparr>"
  have "recall_previous d h = (Some (hr_entries h ! (length (hr_entries h) - Suc (hr_position h))), ?h)"
    using Suc.prems entry_at [of "Suc (hr_position h)" "hr_entries h" ?h]
    by (simp add: recall_previous_def Let_def)
  with Suc.IH [of ?h] Suc.prems show ?case by (simp add: map_upt_Suc del: upt_Suc)
qed simp

lemma walk_forth_eq:
  assumes "hr_position h = n" "n \<le> length (hr_entries h)" "0 < n"
  shows "walk_forth n h =
    (map (\<lambda>i. Some (hr_entries h ! (length (hr_entries h) - (n - Suc i)))) [0..<n - 1] @ [Some (hr_draft h)],
     h\<lparr>hr_position := 0, hr_draft := []\<rparr>)"
  using assms
proof (induction n arbitrary: h)
  case (Suc n)
  show ?case
  proof (cases "n = 0")
    case True
    with Suc.prems show ?thesis by (simp add: recall_next_def Let_def)
  next
    case False
    let ?h = "h\<lparr>hr_position := n\<rparr>"
    have "recall_next h = (Some (hr_entries h ! (length (hr_entries h) - n)), ?h)"
      using Suc.prems False entry_at [of n "hr_entries h" ?h] by (simp add: recall_next_def Let_def)
    moreover have "[0..<n] = 0 # map Suc [0..<n - 1]" using False by (cases n) (simp_all add: map_Suc_upt upt_conv_Cons del: upt_Suc)
    ultimately show ?thesis using Suc.IH [of ?h] Suc.prems False by (simp add: comp_def)
  qed
qed simp

text \<open>What the ring promises to retain, without a ring: the last submissions, without empty ones and
  without repetitions in a row.\<close>

definition retained :: "nat \<Rightarrow> string list \<Rightarrow> string list" where
  "retained c es = (let kept = remdups_adj (filter (\<lambda>e. e \<noteq> []) es) in drop (length kept - c) kept)"

lemma remdups_adj_snoc:
  "remdups_adj (xs @ [x]) = (if xs \<noteq> [] \<and> last xs = x then remdups_adj xs else remdups_adj xs @ [x])"
  by (induction xs rule: remdups_adj.induct) auto

lemma last_remdups_adj_eq: "xs \<noteq> [] \<Longrightarrow> last (remdups_adj xs) = last xs"
  by (induction xs rule: remdups_adj.induct) auto

lemma record_retains:
  assumes "hr_entries h = retained c es" "hr_capacity h = c" "0 < c"
  shows "hr_entries (history_record e h) = retained c (es @ [e])"
proof -
  let ?f = "filter (\<lambda>e. e \<noteq> []) es"
  let ?k = "remdups_adj ?f"
  have ret: "hr_entries h = drop (length ?k - c) ?k" using assms(1) by (simp add: retained_def Let_def)
  have "?k = [] \<longleftrightarrow> ?f = []" by simp
  then have ne: "hr_entries h = [] \<longleftrightarrow> ?f = []" using assms(3) unfolding ret by (cases "?k") auto
  have l: "?f \<noteq> [] \<Longrightarrow> last (hr_entries h) = last ?f"
    using assms(3) by (simp add: ret last_drop last_remdups_adj_eq)
  have len: "length (hr_entries h) = min c (length ?k)" by (auto simp: ret)
  have grow: "(if length (hr_entries h) = c then tl (hr_entries h) else hr_entries h) @ [e]
      = drop (length (?k @ [e]) - c) (?k @ [e])"
  proof (cases "c \<le> length ?k")
    case True
    then have "length (hr_entries h) = c" by (simp add: len)
    moreover have "tl (drop (length ?k - c) ?k) = drop (Suc (length ?k) - c) ?k"
      using True by (simp add: tl_drop drop_Suc [symmetric] Suc_diff_le)
    ultimately show ?thesis using True assms(3) by (simp add: ret Suc_diff_le)
  next
    case False
    then show ?thesis by (simp add: ret)
  qed
  show ?thesis
  proof (cases "e = [] \<or> ?f \<noteq> [] \<and> last ?f = e")
    case True
    then have "retained c (es @ [e]) = retained c es" by (auto simp: retained_def remdups_adj_snoc)
    with True ne l assms(1) show ?thesis by (auto simp: history_record_def Let_def)
  next
    case False
    then have "retained c (es @ [e]) = drop (length (?k @ [e]) - c) (?k @ [e])"
      by (auto simp: retained_def Let_def remdups_adj_snoc)
    moreover have "hr_entries (history_record e h) =
        (if length (hr_entries h) = c then tl (hr_entries h) else hr_entries h) @ [e]"
      using False ne l assms(2) by (auto simp: history_record_def Let_def)
    ultimately show ?thesis using grow by simp
  qed
qed

lemma load_retains:
  assumes "0 < hr_capacity h"
  shows "hr_entries (history_load es h) = retained (hr_capacity h) es"
proof -
  have "hr_entries (fold history_record es (h\<lparr>hr_entries := []\<rparr>)) = retained (hr_capacity h) es
    \<and> hr_capacity (fold history_record es (h\<lparr>hr_entries := []\<rparr>)) = hr_capacity h"
  proof (induction es rule: rev_induct)
    case (snoc e es)
    then show ?case using record_retains [of _ "hr_capacity h" es e] assms by (simp add: record_resets)
  qed (simp add: retained_def)
  then show ?thesis by (simp add: history_load_def reset_position_def)
qed

subsection \<open>Properties\<close>

text \<open>
  The ring refines the list of submissions: loading a snapshot, or recording submissions one after
  the other into a new ring, leaves the last ones that fit, in order, without empty ones and
  without repetitions in a row.
\<close>

theorem history_retains:
  "hr_entries (history_load es (history_new c)) = retained (max c 1) es
    \<and> hr_entries (fold history_record es (history_new c)) = retained (max c 1) es"
proof -
  have c: "0 < hr_capacity (history_new c)" "hr_capacity (history_new c) = max c 1" by (simp_all add: history_new_def)
  have "hr_entries (history_load es (history_new c)) = hr_entries (fold history_record es (history_new c))"
    by (simp add: history_load_def reset_position_def history_new_def)
  with load_retains [OF c(1), of es] c(2) show ?thesis by simp
qed

text \<open>
  Every ring reached by recording, recalling, resetting and loading in any order holds at most its
  capacity, no empty entry and no two equal entries in a row, and its position is on an entry or at
  the draft.
\<close>

theorem history_reachable_ok:
  "\<exists>h. run_ops history_exec ops (history_new c) = Some h \<and> history_ok h"
  by (rule history.run_inv [OF history_new_ok])

text \<open>
  C34: A recall finds its way back. From the draft, stepping back \<open>n\<close> times returns the \<open>n\<close> newest
  entries, newest first; stepping forth \<open>n\<close> times then returns them in reverse up to the newest and
  at last the draft, and the ring is as before the recall.
\<close>

theorem recall_roundtrip:
  assumes "hr_position h = 0" "hr_draft h = []" "n < length (hr_entries h)"
    and "walk_back (Suc n) d h = (backs, h1)" "walk_forth (Suc n) h1 = (forths, h2)"
  shows "backs = map Some (take (Suc n) (newest_entries h)) \<and> forths = tl (rev backs) @ [Some d] \<and> h2 = h"
proof -
  let ?es = "hr_entries h"
  let ?h = "h\<lparr>hr_draft := d, hr_position := Suc 0\<rparr>"
  have r: "recall_previous d h = (Some (?es ! (length ?es - 1)), ?h)"
    using assms(1,3) entry_at [of "Suc 0" ?es ?h] by (auto simp: recall_previous_def Let_def)
  have b: "backs = map (\<lambda>i. Some (?es ! (length ?es - Suc i))) [0..<Suc n]" "h1 = ?h\<lparr>hr_position := Suc n\<rparr>"
    using assms(3,4) r walk_back_eq [of ?h n d] by (auto simp: map_upt_Suc simp del: upt_Suc)
  have f: "forths = map (\<lambda>i. Some (?es ! (length ?es - (Suc n - Suc i)))) [0..<n] @ [Some d]"
    "h2 = h\<lparr>hr_draft := [], hr_position := 0\<rparr>"
    using assms(3,5) walk_forth_eq [of h1 "Suc n"] b(2) by simp_all
  have "backs = map Some (take (Suc n) (newest_entries h))"
    unfolding b(1) newest_entries_def using assms(3)
    by (intro nth_equalityI) (auto simp: rev_nth nth_append simp del: upt_Suc)
  moreover have "tl (rev backs) = map (\<lambda>i. Some (?es ! (length ?es - (Suc n - Suc i)))) [0..<n]"
    unfolding b(1) by (intro nth_equalityI) (auto simp: nth_tl rev_nth simp del: upt_Suc)
  moreover have "h2 = h" using f(2) assms(1,2) by (cases h) simp
  ultimately show ?thesis using f(1) by simp
qed

theorem recall_roundtrip_witness:
  "let h = history_load [''a'', ''b'', ''c''] (history_new 9);
       (backs, h1) = walk_back 2 ''draft'' h; (forths, h2) = walk_forth 2 h1 in
   backs = map Some (take 2 (newest_entries h)) \<and> forths = tl (rev backs) @ [Some ''draft''] \<and> h2 = h"
proof -
  let ?h = "history_load [''a'', ''b'', ''c''] (history_new 9)"
  have "hr_position ?h = 0" "hr_draft ?h = []" "1 < length (hr_entries ?h)"
    by (simp_all add: history_load_def reset_position_def history_record_def history_new_def Let_def)
  from recall_roundtrip [OF this prod.collapse [symmetric] prod.collapse [symmetric]] show ?thesis
    by (simp add: Let_def split_def numeral_2_eq_2)
qed

end
