(* ===== verification/Spec2Isabelle.thy ===== *)
theory Spec2Isabelle
  imports Classification Scope_Correct Job Environment Operational_Files Timestamps Operation_Catalog Operators_Correct Streams Glob Keys History
begin

text \<open>
  OPAAL: a verification library beside the Rust sources under \<^verbatim>\<open>src/crates\<close>.

  \<^bold>\<open>The program.\<close> OPAAL is a structured shell language. The crate \<^verbatim>\<open>opaal-syntax\<close> turns source text into
  tokens and a syntax tree and tells an editor whether the text typed so far is complete. The crate
  \<^verbatim>\<open>opaal-runtime\<close> evaluates it: values, lexical scopes and operators; lazy streams between the stages of a
  pipeline; jobs; and, around every effect on the host, an authority that fails closed, a cancellation
  scope, a store of secrets with the redactor of everything that is shown, and bounded operational modules
  for files, paths and clocks. \<^verbatim>\<open>opaal-platform\<close> states what the runtime asks of a host, \<^verbatim>\<open>opaal-platform-posix\<close>
  implements it, \<^verbatim>\<open>opaal-cli\<close> and \<^verbatim>\<open>opaal-lsp\<close> are the clients.

  \<^bold>\<open>Conventions.\<close> A fallible routine returns \<open>('a, 'e) result\<close>, that is \<open>Ok\<close> or \<open>Err\<close>; a routine that may
  panic returns an option around that, and \<open>None\<close> is the panic, so a theorem that gives \<open>Some\<close> shows that the
  code does not panic. A routine that takes \<^verbatim>\<open>&mut self\<close> returns the state it leaves. Text, byte slices
  and native names are strings of eight-bit characters, and byte offsets are list positions. \<^verbatim>\<open>i64\<close>, \<^verbatim>\<open>u64\<close>
  and the bits of an \<^verbatim>\<open>f64\<close> are words with the checked, wrapping and saturating operations written out; a
  \<^verbatim>\<open>usize\<close> that counts what is in memory is a natural number, and where the code saturates or compares with
  its maximum so does the model. Atomics are cells of an explicit store, a poll reads a \<open>world\<close> that answers
  predicates and clocks, and theorems quantify over the worlds of all polls.

  \<^bold>\<open>Shared theories.\<close>
  \<^item> \<open>Prelude\<close>: results and panics, UTF-8 validation and string slicing, lists, and the locales
    \<open>guarded_machine\<close>, \<open>machine\<close> and \<open>ordered_machine\<close>: operations that keep an invariant, under a duty of
    the caller or without one, and never move a state back in an order. A client proves one step and
    interprets the locale; its facts about runs are inherited.
  \<^item> \<open>Btree\<close> (\<^verbatim>\<open>BTreeMap\<close> as the locale \<open>ordered_map\<close> and a sorted list that meets it), \<open>Paths\<close> (components of
    \<^verbatim>\<open>std::path\<close>), \<open>Floats\<close> (binary64 with rounding to nearest, ties to even).

  \<^bold>\<open>Syntax.\<close>
  \<^item> \<open>Source\<close> (\<^verbatim>\<open>source.rs\<close>): spans, the line index and the positions of the editor protocol. Its lemmas tie
    the line of an offset to the line feeds before it, relate offsets and positions in both directions and
    show that no operation panics on valid text.
  \<^item> \<open>Lexer\<close> and \<open>Lexer_Correct\<close> (\<^verbatim>\<open>lexer.rs\<close>): every rule, the context stack and the cancellable run. Each
    rule meets the locale \<open>lex_rule\<close>; from that the run is total and lossless, its spans tile the text, and
    the kinds follow the contexts. There is
    no fuel: the run recurses on the bytes left, and a step that would not move fails the progress
    assertion of the code and is \<open>None\<close>; totality shows that there is none. No other definition uses fuel either: loops
    recurse on what is left to do, with a termination proof where that is not structural.
  \<^item> \<open>Classification\<close> (\<^verbatim>\<open>classification.rs\<close>, \<^verbatim>\<open>diagnostic.rs\<close>): the verdict complete, incomplete or invalid, against
    a grammar of balanced token streams.

  \<^bold>\<open>Values and evaluation.\<close>
  \<^item> \<open>Value\<close> and \<open>Value_Correct\<close> (\<^verbatim>\<open>value.rs\<close>, the value types of \<^verbatim>\<open>module.rs\<close>): equality with exact comparison
    of integers and floats, records, tables, statuses, acceptance, substitution and unification of types.
  \<^item> \<open>Scope\<close> and \<open>Scope_Correct\<close> (\<^verbatim>\<open>scope.rs\<close>): the stack of frames with all operations. The stores of lists that
    the evaluator has checked itself are operations too, under the duty \<open>prevalidated\<close>.
  \<^item> \<open>Runtime_Error\<close>, \<open>Operators\<close>, \<open>Operators_Correct\<close> (\<^verbatim>\<open>eval.rs\<close>, \<^verbatim>\<open>operation.rs\<close>): structured errors and their
    transport; arithmetic, order, membership, indexing and conversions against exact mathematics.
  \<^item> \<open>Operation_Catalog\<close> (\<^verbatim>\<open>operation.rs\<close>): the compiled descriptors, their validation and the resolution of calls.
  \<^item> \<open>Streams\<close> (\<^verbatim>\<open>stream.rs\<close>, \<^verbatim>\<open>operation.rs\<close>): byte and value streams, queues, contracts, collection and length. A
    closure is the sequence of its results. The checked results are related to a trace of the raw pulls.
  \<^item> \<open>Budget\<close> (\<^verbatim>\<open>eval.rs\<close>): the resource budget; the events of a run say what was granted and refused, and the
    accounts of the budget agree with them.
  \<^item> \<open>Job\<close> (\<^verbatim>\<open>job.rs\<close>): the life cycle of one job with all its transitions.
  \<^item> \<open>Glob\<close> (\<^verbatim>\<open>glob.rs\<close>): patterns, and the table-driven matcher against the meaning of their symbols.

  \<^bold>\<open>The operational boundary.\<close>
  \<^item> \<open>Lifetime\<close> (\<^verbatim>\<open>lifetime.rs\<close>, the tokens of \<^verbatim>\<open>eval.rs\<close>): cancellation with concurrent polls as interleaved
    atomic steps, deadlines and the stack of cleanups.
  \<^item> \<open>Security\<close> (\<^verbatim>\<open>security.rs\<close>): the secret store and the redactor, over a JSON serializer that is a parameter
    with the locale \<open>json_serializer\<close>, interpreted on a concrete quoting function.
  \<^item> \<open>Authority\<close> (\<^verbatim>\<open>authority.rs\<close> and the enforcement answers of the adapters): requests, rules and verdicts.
  \<^item> \<open>Outcome\<close>, \<open>Environment\<close>, \<open>Operational_Context\<close> (\<^verbatim>\<open>outcome.rs\<close>, \<^verbatim>\<open>seam.rs\<close>, \<^verbatim>\<open>environment.rs\<close>,
    \<^verbatim>\<open>context.rs\<close>, \<^verbatim>\<open>operational/mod.rs\<close>): composition of outcomes, snapshots and deltas of the environment, and the
    gate that joins authority, cancellation, cleanup and secrets.
  \<^item> \<open>Lexical_Paths\<close>, \<open>Operational_Files\<close>, \<open>Timestamps\<close> (\<^verbatim>\<open>operational/path.rs\<close>, \<^verbatim>\<open>filesystem.rs\<close>, \<^verbatim>\<open>time.rs\<close>): paths
    against a stack of names, gated reads and writes over any adapter (and over the deterministic adapter
    of \<^verbatim>\<open>opaal-platform\<close>, which meets the locale \<open>bounded_reader\<close>), and the calendar.

  \<^bold>\<open>The terminal.\<close> \<open>Keys\<close> and \<open>History\<close> (\<^verbatim>\<open>terminal_editor/key.rs\<close>, \<^verbatim>\<open>history.rs\<close>): the byte-at-a-time decoder
  and the ring of recalled submissions.

  \<^bold>\<open>Parameters.\<close> The host's answers (clocks, predicates, enforcement, file adapters), the JSON serializer,
  the closures that produce stream items, the cleanups, and equality of the errors stored in values are
  arguments of the definitions; no fact about them is used that a theorem does not state as a hypothesis.
  The kinds of runtime error that no accessor looks into are a type parameter.

  \<^bold>\<open>Not modelled.\<close> The parser and formatter, the tree-walking evaluator over the syntax tree, the module
  graph, the session, plans and process execution, the project commands, the language server and the
  POSIX system calls: these are large, or are mostly calls of the host. Debug output, documentation
  strings and the clearing of freed buffers have no part in the modelled behaviour.
\<close>

end
